theory Spec2Isabelle
  imports Main "HOL-Library.Word"
begin

unbundle bit_operations_syntax

section \<open>Data model of \<^verbatim>\<open>uint16_tree/tree_v4.go\<close>\<close>

text \<open>
  The tree is an arena of node records addressed by index, a list of released indexes and a
  side table of tags. Go's \<^verbatim>\<open>uint32\<close> prefix is a \<open>32 word\<close>, a \<^verbatim>\<open>uint16\<close> tag a
  \<open>16 word\<close>. Node indexes, prefix lengths and tag counts are Go \<^verbatim>\<open>uint\<close> (64 bit); they are
  natural numbers here: a count or an index reaches \<open>2 ^ 64\<close> only after that many tags or
  nodes were stored, which no memory holds. The key of the tag table is a \<^verbatim>\<open>uint64\<close>
  computed with a shift and an addition, and its wrap-around is written out in \<open>tagKey\<close>.

  Modelled from the spec: the record \<^verbatim>\<open>treeNodeV4\<close> is declared in a file of the package
  that is not part of the sources at hand; its fields are the ones \<^verbatim>\<open>tree_v4.go\<close> reads
  and writes, as section 3 of the specification lists them.
\<close>

record treeNodeV4 =
  Left :: nat
  Right :: nat
  prefix :: "32 word"
  prefixLength :: nat
  TagCount :: nat

text \<open>
  Modelled from the spec: \<^verbatim>\<open>patricia.IPv4Address\<close>, a left-aligned 32-bit prefix and its
  length (section 6). A nil pointer to an address is \<open>None\<close> of \<open>IPv4Address option\<close>.
\<close>

record IPv4Address =
  Address :: "32 word"
  Length :: nat

record TreeV4 =
  nodes :: "treeNodeV4 list"
  availableIndexes :: "nat list"
  tags :: "nat \<rightharpoonup> 16 word"

type_synonym MatchesFunc = "16 word \<Rightarrow> 16 word \<Rightarrow> bool"
type_synonym FilterFunc = "16 word \<Rightarrow> bool"

text \<open>The run-time panics of the Go code, as values.\<close>

datatype error =
    IndexOutOfRange
  | NilDereference
  | NilFuncCall
  | MakeSliceCapOutOfRange
  | TraverseZeroIndex
  | NodeWithNoPrefix
  | NoPrefixMatch
  | NotChildOfParent

definition leftmost32Bit :: "32 word" where
  "leftmost32Bit = push_bit 31 1"

definition mkNode :: "32 word \<Rightarrow> nat \<Rightarrow> treeNodeV4" where
  "mkNode p l = \<lparr>Left = 0, Right = 0, prefix = p, prefixLength = l, TagCount = 0\<rparr>"

subsection \<open>The address primitive and the prefix merge\<close>

text \<open>
  Modelled from the spec: \<^verbatim>\<open>IPv4Address.ShiftLeft\<close> (section 6): the prefix is shifted left
  by \<open>n\<close> bits and the length reduced by \<open>n\<close>. Every call in \<^verbatim>\<open>tree_v4.go\<close> passes a match
  count, which never exceeds the length (lemma \<open>MatchCount_le_Length\<close> below), so the
  subtraction never goes below zero.
\<close>

definition ShiftLeft :: "IPv4Address \<Rightarrow> nat \<Rightarrow> IPv4Address" where
  "ShiftLeft a n = \<lparr>Address = push_bit n (Address a), Length = Length a - n\<rparr>"

text \<open>
  Modelled from the spec: \<^verbatim>\<open>treeNodeV4.ShiftPrefix\<close>, the same shift on a node's stored
  prefix (section 4.3, cases A and C of insert).
\<close>

definition ShiftPrefix :: "treeNodeV4 \<Rightarrow> nat \<Rightarrow> treeNodeV4" where
  "ShiftPrefix n k = n\<lparr>prefix := push_bit k (prefix n), prefixLength := prefixLength n - k\<rparr>"

text \<open>
  Modelled from the spec: \<^verbatim>\<open>treeNodeV4.MatchCount\<close>, the number of leading bits equal
  between the address and the node's prefix, over the shorter of the two lengths
  (section 6). \<open>leading_match k a b\<close> compares the top bits of \<open>a\<close> and \<open>b\<close> one by one
  and stops at the first difference or after \<open>k\<close> bits.
\<close>

fun leading_match :: "nat \<Rightarrow> 32 word \<Rightarrow> 32 word \<Rightarrow> nat" where
  "leading_match 0 a b = 0"
| "leading_match (Suc k) a b =
     (if bit a 31 = bit b 31 then Suc (leading_match k (push_bit 1 a) (push_bit 1 b)) else 0)"

definition MatchCount :: "treeNodeV4 \<Rightarrow> IPv4Address \<Rightarrow> nat" where
  "MatchCount node address =
     leading_match (min (Length address) (prefixLength node)) (Address address) (prefix node)"

text \<open>
  Modelled from the spec: \<^verbatim>\<open>patricia.MergePrefixes32\<close>, which yields one left-aligned
  prefix of length \<open>a_len + b_len\<close>: the \<open>a_len\<close> bits of \<open>a\<close> followed by the bits of
  \<open>b\<close> (section 4.3, delete). \<open>high_bits n w\<close> keeps the \<open>n\<close> leading bits of \<open>w\<close>.
\<close>

definition high_bits :: "nat \<Rightarrow> 32 word \<Rightarrow> 32 word" where
  "high_bits n w = push_bit (32 - n) (drop_bit (32 - n) w)"

definition MergePrefixes32 :: "32 word \<Rightarrow> nat \<Rightarrow> 32 word \<Rightarrow> nat \<Rightarrow> 32 word \<times> nat" where
  "MergePrefixes32 a a_len b b_len =
     (high_bits (a_len + b_len) (high_bits a_len a OR drop_bit a_len b), a_len + b_len)"

subsection \<open>Tag store\<close>

text \<open>
  The key \<^verbatim>\<open>(uint64(nodeIndex)<<32)+uint64(i)\<close> with the 64-bit wrap-around of the shift
  and of the addition. A missing key reads as the zero value of \<^verbatim>\<open>uint16\<close>.
\<close>

definition tagKey :: "nat \<Rightarrow> nat \<Rightarrow> nat" where
  "tagKey nodeIndex i = ((nodeIndex * 2 ^ 32) mod 2 ^ 64 + i) mod 2 ^ 64"

definition tagAt :: "(nat \<rightharpoonup> 16 word) \<Rightarrow> nat \<Rightarrow> 16 word" where
  "tagAt m k = (case m k of None \<Rightarrow> 0 | Some v \<Rightarrow> v)"

definition setTagCount :: "TreeV4 \<Rightarrow> nat \<Rightarrow> nat \<Rightarrow> TreeV4" where
  "setTagCount t i c = t\<lparr>nodes := (nodes t)[i := (nodes t ! i)\<lparr>TagCount := c\<rparr>]\<rparr>"

definition addTag :: "TreeV4 \<Rightarrow> 16 word \<Rightarrow> nat \<Rightarrow> error + TreeV4" where
  "addTag t tag nodeIndex =
     (if nodeIndex < length (nodes t) then
        let tagCount = TagCount (nodes t ! nodeIndex);
            t1 = t\<lparr>tags := (tags t)(tagKey nodeIndex tagCount \<mapsto> tag)\<rparr>
        in Inr (setTagCount t1 nodeIndex (TagCount (nodes t1 ! nodeIndex) + 1))
      else Inl IndexOutOfRange)"

text \<open>The tags of a node in slot order; \<open>tagsForNode\<close> adds the bounds check of the slice.\<close>

definition node_tags :: "TreeV4 \<Rightarrow> nat \<Rightarrow> 16 word list" where
  "node_tags t nodeIndex =
     map (\<lambda>i. tagAt (tags t) (tagKey nodeIndex i)) [0..<TagCount (nodes t ! nodeIndex)]"

definition tagsForNode :: "TreeV4 \<Rightarrow> nat \<Rightarrow> error + 16 word list" where
  "tagsForNode t nodeIndex =
     (if nodeIndex < length (nodes t) then Inr (node_tags t nodeIndex) else Inl IndexOutOfRange)"

definition moveTags :: "TreeV4 \<Rightarrow> nat \<Rightarrow> nat \<Rightarrow> error + TreeV4" where
  "moveTags t fromIndex toIndex =
     (if fromIndex < length (nodes t) then
        let tagCount = TagCount (nodes t ! fromIndex);
            t1 = t\<lparr>tags := fold (\<lambda>i m. (m(tagKey toIndex i \<mapsto> tagAt m (tagKey fromIndex i)))
                                        (tagKey fromIndex i := None))
                             [0..<tagCount] (tags t)\<rparr>
        in if toIndex < length (nodes t1) then
             let t2 = setTagCount t1 toIndex
                        (TagCount (nodes t1 ! toIndex) + TagCount (nodes t1 ! fromIndex))
             in Inr (setTagCount t2 fromIndex 0)
           else Inl IndexOutOfRange
      else Inl IndexOutOfRange)"

text \<open>One iteration of the loop of \<open>moveTags\<close> on the tag store, named for the proofs: the
  function that \<open>moveTags\<close> folds over the slots \<open>0..<tagCount\<close>.\<close>

definition moveTags_step :: "nat \<Rightarrow> nat \<Rightarrow> nat \<Rightarrow> (nat \<rightharpoonup> 16 word) \<Rightarrow> (nat \<rightharpoonup> 16 word)" where
  "moveTags_step fromIndex toIndex i m =
     (m(tagKey toIndex i \<mapsto> tagAt m (tagKey fromIndex i)))(tagKey fromIndex i := None)"

definition firstTagForNode :: "TreeV4 \<Rightarrow> nat \<Rightarrow> 16 word" where
  "firstTagForNode t nodeIndex = tagAt (tags t) (tagKey nodeIndex 0)"

text \<open>
  \<open>deleteTag\<close>: read the tags, delete every key of the node and reset its count, then put
  back the tags the match function does not select. The result is the number of deleted
  tags, the number of kept tags and the new tree. Calling a nil match function panics.
\<close>

fun putBack :: "TreeV4 \<Rightarrow> nat \<Rightarrow> 16 word \<Rightarrow> MatchesFunc option \<Rightarrow> 16 word list \<Rightarrow>
    nat \<Rightarrow> nat \<Rightarrow> error + (nat \<times> nat \<times> TreeV4)" where
  "putBack t nodeIndex matchTag matchFunc [] deleteCount keepCount =
     Inr (deleteCount, keepCount, t)"
| "putBack t nodeIndex matchTag matchFunc (tag # rest) deleteCount keepCount =
     (case matchFunc of
        None \<Rightarrow> Inl NilFuncCall
      | Some f \<Rightarrow>
          if f tag matchTag then
            putBack t nodeIndex matchTag matchFunc rest (deleteCount + 1) keepCount
          else
            (case addTag t tag nodeIndex of
               Inl e \<Rightarrow> Inl e
             | Inr t' \<Rightarrow> putBack t' nodeIndex matchTag matchFunc rest deleteCount (keepCount + 1)))"

definition deleteTag :: "TreeV4 \<Rightarrow> nat \<Rightarrow> 16 word \<Rightarrow> MatchesFunc option \<Rightarrow>
    error + (nat \<times> nat \<times> TreeV4)" where
  "deleteTag t nodeIndex matchTag matchFunc =
     (if nodeIndex < length (nodes t) then
        let tgs = node_tags t nodeIndex;
            t1 = t\<lparr>tags := fold (\<lambda>i m. m(tagKey nodeIndex i := None))
                             [0..<TagCount (nodes t ! nodeIndex)] (tags t)\<rparr>;
            t2 = setTagCount t1 nodeIndex 0
        in putBack t2 nodeIndex matchTag matchFunc tgs 0 0
      else Inl IndexOutOfRange)"

subsection \<open>Node arena\<close>

definition newNode :: "TreeV4 \<Rightarrow> 32 word \<Rightarrow> nat \<Rightarrow> error + (nat \<times> TreeV4)" where
  "newNode t p l =
     (if availableIndexes t \<noteq> [] then
        let index = last (availableIndexes t);
            t1 = t\<lparr>availableIndexes := butlast (availableIndexes t)\<rparr>
        in if index < length (nodes t1) then
             Inr (index, t1\<lparr>nodes := (nodes t1)[index := mkNode p l]\<rparr>)
           else Inl IndexOutOfRange
      else Inr (length (nodes t), t\<lparr>nodes := nodes t @ [mkNode p l]\<rparr>))"

text \<open>
  \<^verbatim>\<open>make([]treeNodeV4, 2, startingCapacity)\<close> panics when the capacity is below the
  length. The capacity itself is not part of the model: \<open>Add\<close> reserves room for its (at most
  two) new nodes before it takes a pointer into the slice, so a pointer \<^verbatim>\<open>&t.nodes[i]\<close>
  stays an alias of the element at index \<open>i\<close> until \<open>Add\<close> returns, and every read or write
  through such a pointer is a read or write at that index.
\<close>

definition NewTreeV4 :: "nat \<Rightarrow> error + TreeV4" where
  "NewTreeV4 startingCapacity =
     (if startingCapacity < 2 then Inl MakeSliceCapOutOfRange
      else Inr \<lparr>nodes = [mkNode 0 0, mkNode 0 0], availableIndexes = [], tags = Map.empty\<rparr>)"

definition setLeft :: "TreeV4 \<Rightarrow> nat \<Rightarrow> nat \<Rightarrow> TreeV4" where
  "setLeft t i c = t\<lparr>nodes := (nodes t)[i := (nodes t ! i)\<lparr>Left := c\<rparr>]\<rparr>"

definition setRight :: "TreeV4 \<Rightarrow> nat \<Rightarrow> nat \<Rightarrow> TreeV4" where
  "setRight t i c = t\<lparr>nodes := (nodes t)[i := (nodes t ! i)\<lparr>Right := c\<rparr>]\<rparr>"

definition setPrefix :: "TreeV4 \<Rightarrow> nat \<Rightarrow> 32 word \<times> nat \<Rightarrow> TreeV4" where
  "setPrefix t i pl =
     t\<lparr>nodes := (nodes t)[i := (nodes t ! i)\<lparr>prefix := fst pl, prefixLength := snd pl\<rparr>]\<rparr>"

subsection \<open>Add\<close>

text \<open>
  The pointers \<^verbatim>\<open>root\<close>, \<^verbatim>\<open>parent\<close>, \<^verbatim>\<open>node\<close> and \<^verbatim>\<open>newNode\<close> of the Go code are the
  indexes \<open>1\<close>, \<open>parent\<close>, \<open>nodeIndex\<close> and \<open>newNodeIndex\<close> here; each assignment through
  a pointer is an update of the list at that index, in the order of the source.

  \<open>addLeaf\<close> is the block that the source repeats four times: allocate a node for the
  (remaining) address, give it the tag, and store its index in the left or right slot of
  the node that holds it.
\<close>

definition addLeaf :: "TreeV4 \<Rightarrow> nat \<Rightarrow> bool \<Rightarrow> IPv4Address \<Rightarrow> 16 word \<Rightarrow> error + TreeV4" where
  "addLeaf t holder onLeft address tag =
     (case newNode t (Address address) (Length address) of
        Inl e \<Rightarrow> Inl e
      | Inr (newNodeIndex, t1) \<Rightarrow>
          (case addTag t1 tag newNodeIndex of
             Inl e \<Rightarrow> Inl e
           | Inr t2 \<Rightarrow>
               Inr (if onLeft then setLeft t2 holder newNodeIndex
                    else setRight t2 holder newNodeIndex)))"

text \<open>The parent's pointer to \<open>nodeIndex\<close> is redirected; a parent that does not point to
  the node is the panic "node isn't left or right parent".\<close>

definition replaceChild :: "TreeV4 \<Rightarrow> nat \<Rightarrow> nat \<Rightarrow> nat \<Rightarrow> error + TreeV4" where
  "replaceChild t parent nodeIndex newIndex =
     (if Left (nodes t ! parent) = nodeIndex then Inr (setLeft t parent newIndex)
      else if Right (nodes t ! parent) \<noteq> nodeIndex then Inl NotChildOfParent
      else Inr (setRight t parent newIndex))"

text \<open>The address ends inside the node's prefix: a new node for the address becomes the
  parent of the node, which loses the matched bits.\<close>

definition insertParent :: "TreeV4 \<Rightarrow> nat \<Rightarrow> nat \<Rightarrow> IPv4Address \<Rightarrow> 16 word \<Rightarrow> nat \<Rightarrow>
    error + TreeV4" where
  "insertParent t parent nodeIndex address tag matchCount =
     (case newNode t (Address address) (Length address) of
        Inl e \<Rightarrow> Inl e
      | Inr (newNodeIndex, t1) \<Rightarrow>
          (case addTag t1 tag newNodeIndex of
             Inl e \<Rightarrow> Inl e
           | Inr t2 \<Rightarrow>
               let t3 = t2\<lparr>nodes := (nodes t2)[nodeIndex :=
                              ShiftPrefix (nodes t2 ! nodeIndex) matchCount]\<rparr>;
                   t4 = (if prefix (nodes t3 ! nodeIndex) < leftmost32Bit
                         then setLeft t3 newNodeIndex nodeIndex
                         else setRight t3 newNodeIndex nodeIndex)
               in replaceChild t4 parent nodeIndex newNodeIndex))"

text \<open>Address and node prefix part after \<open>matchCount\<close> bits: a new common parent without
  tags takes the shared bits, the node and a new leaf become its children.\<close>

definition splitNode :: "TreeV4 \<Rightarrow> nat \<Rightarrow> nat \<Rightarrow> IPv4Address \<Rightarrow> 16 word \<Rightarrow> nat \<Rightarrow>
    error + TreeV4" where
  "splitNode t parent nodeIndex address tag matchCount =
     (case newNode t (Address address) matchCount of
        Inl e \<Rightarrow> Inl e
      | Inr (newCommonParentNodeIndex, t1) \<Rightarrow>
          let address' = ShiftLeft address matchCount in
          (case newNode t1 (Address address') (Length address') of
             Inl e \<Rightarrow> Inl e
           | Inr (newNodeIndex, t2) \<Rightarrow>
               (case addTag t2 tag newNodeIndex of
                  Inl e \<Rightarrow> Inl e
                | Inr t3 \<Rightarrow>
                    let t4 = t3\<lparr>nodes := (nodes t3)[nodeIndex :=
                                   ShiftPrefix (nodes t3 ! nodeIndex) matchCount]\<rparr>;
                        t5 = (if prefix (nodes t4 ! nodeIndex) < leftmost32Bit
                              then setRight (setLeft t4 newCommonParentNodeIndex nodeIndex)
                                     newCommonParentNodeIndex newNodeIndex
                              else setLeft (setRight t4 newCommonParentNodeIndex nodeIndex)
                                     newCommonParentNodeIndex newNodeIndex)
                    in replaceChild t5 parent nodeIndex newCommonParentNodeIndex)))"

lemma leading_match_le: "leading_match k a b \<le> k"
  by (induction k a b rule: leading_match.induct) auto

lemma MatchCount_le_Length: "MatchCount node address \<le> Length address"
  unfolding MatchCount_def by (rule order_trans [OF leading_match_le]) simp

lemma MatchCount_le_prefixLength: "MatchCount node address \<le> prefixLength node"
  unfolding MatchCount_def by (rule order_trans [OF leading_match_le]) simp

function add_loop :: "TreeV4 \<Rightarrow> nat \<Rightarrow> nat \<Rightarrow> IPv4Address \<Rightarrow> 16 word \<Rightarrow> error + TreeV4" where
  "add_loop t parent nodeIndex address tag =
     (if nodeIndex = 0 then Inl TraverseZeroIndex
      else if \<not> nodeIndex < length (nodes t) then Inl IndexOutOfRange
      else if prefixLength (nodes t ! nodeIndex) = 0 then Inl NodeWithNoPrefix
      else if MatchCount (nodes t ! nodeIndex) address = 0 then Inl NoPrefixMatch
      else if MatchCount (nodes t ! nodeIndex) address = Length address then
        (if MatchCount (nodes t ! nodeIndex) address = prefixLength (nodes t ! nodeIndex)
         then addTag t tag nodeIndex
         else insertParent t parent nodeIndex address tag
                (MatchCount (nodes t ! nodeIndex) address))
      else if MatchCount (nodes t ! nodeIndex) address = prefixLength (nodes t ! nodeIndex) then
        (if Address (ShiftLeft address (MatchCount (nodes t ! nodeIndex) address)) < leftmost32Bit
         then
           (if Left (nodes t ! nodeIndex) = 0
            then addLeaf t nodeIndex True
                   (ShiftLeft address (MatchCount (nodes t ! nodeIndex) address)) tag
            else add_loop t nodeIndex (Left (nodes t ! nodeIndex))
                   (ShiftLeft address (MatchCount (nodes t ! nodeIndex) address)) tag)
         else
           (if Right (nodes t ! nodeIndex) = 0
            then addLeaf t nodeIndex False
                   (ShiftLeft address (MatchCount (nodes t ! nodeIndex) address)) tag
            else add_loop t nodeIndex (Right (nodes t ! nodeIndex))
                   (ShiftLeft address (MatchCount (nodes t ! nodeIndex) address)) tag))
      else splitNode t parent nodeIndex address tag (MatchCount (nodes t ! nodeIndex) address))"
  by pat_completeness auto
termination
proof (relation "measure (\<lambda>(t, parent, nodeIndex, address, tag). Length address)")
  show "wf (measure (\<lambda>(t, parent, nodeIndex, address, tag). Length address))"
    by simp
next
  fix t :: TreeV4 and parent nodeIndex :: nat and address :: IPv4Address and tag :: "16 word"
  assume "MatchCount (nodes t ! nodeIndex) address \<noteq> 0"
  then show "((t, nodeIndex, Left (nodes t ! nodeIndex),
                ShiftLeft address (MatchCount (nodes t ! nodeIndex) address), tag),
              (t, parent, nodeIndex, address, tag))
             \<in> measure (\<lambda>(t, parent, nodeIndex, address, tag). Length address)"
    using MatchCount_le_Length [of "nodes t ! nodeIndex" address] by (simp add: ShiftLeft_def)
next
  fix t :: TreeV4 and parent nodeIndex :: nat and address :: IPv4Address and tag :: "16 word"
  assume "MatchCount (nodes t ! nodeIndex) address \<noteq> 0"
  then show "((t, nodeIndex, Right (nodes t ! nodeIndex),
                ShiftLeft address (MatchCount (nodes t ! nodeIndex) address), tag),
              (t, parent, nodeIndex, address, tag))
             \<in> measure (\<lambda>(t, parent, nodeIndex, address, tag). Length address)"
    using MatchCount_le_Length [of "nodes t ! nodeIndex" address] by (simp add: ShiftLeft_def)
qed

declare add_loop.simps [simp del]

definition Add :: "TreeV4 \<Rightarrow> IPv4Address option \<Rightarrow> 16 word \<Rightarrow> error + TreeV4" where
  "Add t address tag =
     (if \<not> 1 < length (nodes t) then Inl IndexOutOfRange
      else case address of
        None \<Rightarrow> addTag t tag 1
      | Some a \<Rightarrow>
          if Length a = 0 then addTag t tag 1
          else if Address a < leftmost32Bit then
            (if Left (nodes t ! 1) = 0 then addLeaf t 1 True a tag
             else add_loop t 1 (Left (nodes t ! 1)) a tag)
          else
            (if Right (nodes t ! 1) = 0 then addLeaf t 1 False a tag
             else add_loop t 1 (Right (nodes t ! 1)) a tag))"

subsection \<open>Delete\<close>

text \<open>
  The traversal of \<open>Delete\<close> ends without a target (\<open>NotFound\<close>: a zero child index, or a
  node whose prefix the address does not cover) or with the target and its parent. The
  loop has no bound of its own, so it is a partial function: \<open>None\<close> is a traversal that
  never returns.
\<close>

datatype found = NotFound | Found nat nat

partial_function (option) delete_find ::
    "TreeV4 \<Rightarrow> nat \<Rightarrow> nat \<Rightarrow> IPv4Address \<Rightarrow> (error + found) option" where
  "delete_find t parentIndex nodeIndex address =
     (if nodeIndex = 0 then Some (Inr NotFound)
      else if \<not> nodeIndex < length (nodes t) then Some (Inl IndexOutOfRange)
      else if MatchCount (nodes t ! nodeIndex) address < prefixLength (nodes t ! nodeIndex)
        then Some (Inr NotFound)
      else if MatchCount (nodes t ! nodeIndex) address = Length address
        then Some (Inr (Found parentIndex nodeIndex))
      else if Address (ShiftLeft address (MatchCount (nodes t ! nodeIndex) address))
                < leftmost32Bit
        then delete_find t nodeIndex (Left (nodes t ! nodeIndex))
               (ShiftLeft address (MatchCount (nodes t ! nodeIndex) address))
        else delete_find t nodeIndex (Right (nodes t ! nodeIndex))
               (ShiftLeft address (MatchCount (nodes t ! nodeIndex) address)))"

declare delete_find.simps [code]

text \<open>The end of every compaction that removes the target: its child pointers are cleared
  and its index is appended to the available indexes.\<close>

definition releaseTarget :: "TreeV4 \<Rightarrow> nat \<Rightarrow> TreeV4" where
  "releaseTarget t targetNodeIndex =
     (let t1 = setLeft t targetNodeIndex 0;
          t2 = setRight t1 targetNodeIndex 0
      in t2\<lparr>availableIndexes := availableIndexes t2 @ [targetNodeIndex]\<rparr>)"

text \<open>The target has two children: its parent takes them over when the target is the
  parent's only child and the parent is not the root.\<close>

definition absorbTarget :: "TreeV4 \<Rightarrow> nat \<Rightarrow> nat \<Rightarrow> TreeV4" where
  "absorbTarget t parentIndex targetNodeIndex =
     (let t1 = setLeft t parentIndex (Left (nodes t ! targetNodeIndex));
          t2 = setRight t1 parentIndex (Right (nodes t1 ! targetNodeIndex))
      in setPrefix t2 parentIndex
           (MergePrefixes32 (prefix (nodes t2 ! parentIndex)) (prefixLength (nodes t2 ! parentIndex))
              (prefix (nodes t2 ! targetNodeIndex)) (prefixLength (nodes t2 ! targetNodeIndex))))"

text \<open>The target has one child (\<open>onLeft\<close>: the left one): the parent points to that child,
  whose prefix is extended by the target's.\<close>

definition liftChild :: "TreeV4 \<Rightarrow> nat \<Rightarrow> nat \<Rightarrow> bool \<Rightarrow> error + TreeV4" where
  "liftChild t parentIndex targetNodeIndex onLeft =
     (let child = (if onLeft then Left (nodes t ! targetNodeIndex)
                   else Right (nodes t ! targetNodeIndex));
          t1 = (if Left (nodes t ! parentIndex) = targetNodeIndex
                then setLeft t parentIndex child else setRight t parentIndex child);
          tmpNode = (if onLeft then Left (nodes t1 ! targetNodeIndex)
                     else Right (nodes t1 ! targetNodeIndex))
      in if tmpNode < length (nodes t1) then
           Inr (setPrefix t1 tmpNode
                  (MergePrefixes32 (prefix (nodes t1 ! targetNodeIndex))
                     (prefixLength (nodes t1 ! targetNodeIndex))
                     (prefix (nodes t1 ! tmpNode)) (prefixLength (nodes t1 ! tmpNode))))
         else Inl IndexOutOfRange)"

text \<open>The target has no children: the parent's pointer is cleared. A parent that is not the
  root, has no tags and has another child takes over that child's prefix bits, tags and
  children.\<close>

definition mergeSibling :: "TreeV4 \<Rightarrow> nat \<Rightarrow> bool \<Rightarrow> error + TreeV4" where
  "mergeSibling t parentIndex siblingOnRight =
     (let sibling = (if siblingOnRight then Right (nodes t ! parentIndex)
                     else Left (nodes t ! parentIndex))
      in if sibling < length (nodes t) then
           let t1 = setPrefix t parentIndex
                      (MergePrefixes32 (prefix (nodes t ! parentIndex))
                         (prefixLength (nodes t ! parentIndex))
                         (prefix (nodes t ! sibling)) (prefixLength (nodes t ! sibling)))
           in (case moveTags t1 (if siblingOnRight then Right (nodes t1 ! parentIndex)
                                 else Left (nodes t1 ! parentIndex)) parentIndex of
                 Inl e \<Rightarrow> Inl e
               | Inr t2 \<Rightarrow>
                   if siblingOnRight then
                     (if Right (nodes t2 ! parentIndex) < length (nodes t2) then
                        let t3 = setLeft t2 parentIndex
                                   (Left (nodes t2 ! (Right (nodes t2 ! parentIndex))))
                        in if Right (nodes t3 ! parentIndex) < length (nodes t3) then
                             Inr (setRight t3 parentIndex
                                    (Right (nodes t3 ! (Right (nodes t3 ! parentIndex)))))
                           else Inl IndexOutOfRange
                      else Inl IndexOutOfRange)
                   else
                     (if Left (nodes t2 ! parentIndex) < length (nodes t2) then
                        let t3 = setRight t2 parentIndex
                                   (Right (nodes t2 ! (Left (nodes t2 ! parentIndex))))
                        in if Left (nodes t3 ! parentIndex) < length (nodes t3) then
                             Inr (setLeft t3 parentIndex
                                    (Left (nodes t3 ! (Left (nodes t3 ! parentIndex)))))
                           else Inl IndexOutOfRange
                      else Inl IndexOutOfRange))
         else Inl IndexOutOfRange)"

definition removeLeaf :: "TreeV4 \<Rightarrow> nat \<Rightarrow> nat \<Rightarrow> error + TreeV4" where
  "removeLeaf t parentIndex targetNodeIndex =
     (if Left (nodes t ! parentIndex) = targetNodeIndex then
        let t1 = setLeft t parentIndex 0 in
        if parentIndex > 1 \<and> TagCount (nodes t1 ! parentIndex) = 0
           \<and> Right (nodes t1 ! parentIndex) \<noteq> 0
        then mergeSibling t1 parentIndex True
        else Inr t1
      else
        let t1 = setRight t parentIndex 0 in
        if parentIndex > 1 \<and> TagCount (nodes t1 ! parentIndex) = 0
           \<and> Left (nodes t1 ! parentIndex) \<noteq> 0
        then mergeSibling t1 parentIndex False
        else Inr t1)"

text \<open>"compact the tree, if possible": the four cases on the children of the target, after
  its last tag is gone.\<close>

definition compact :: "TreeV4 \<Rightarrow> nat \<Rightarrow> nat \<Rightarrow> error + TreeV4" where
  "compact t parentIndex targetNodeIndex =
     (if Left (nodes t ! targetNodeIndex) \<noteq> 0 \<and> Right (nodes t ! targetNodeIndex) \<noteq> 0 then
        (if Left (nodes t ! parentIndex) = 0 \<or> Right (nodes t ! parentIndex) = 0 then
           (if parentIndex > 1
            then Inr (releaseTarget (absorbTarget t parentIndex targetNodeIndex) targetNodeIndex)
            else Inr t)
         else Inr t)
      else if Left (nodes t ! targetNodeIndex) \<noteq> 0 then
        (case liftChild t parentIndex targetNodeIndex True of
           Inl e \<Rightarrow> Inl e
         | Inr t1 \<Rightarrow> Inr (releaseTarget t1 targetNodeIndex))
      else if Right (nodes t ! targetNodeIndex) \<noteq> 0 then
        (case liftChild t parentIndex targetNodeIndex False of
           Inl e \<Rightarrow> Inl e
         | Inr t1 \<Rightarrow> Inr (releaseTarget t1 targetNodeIndex))
      else
        (case removeLeaf t parentIndex targetNodeIndex of
           Inl e \<Rightarrow> Inl e
         | Inr t1 \<Rightarrow> Inr (releaseTarget t1 targetNodeIndex)))"

text \<open>What \<open>Delete\<close> does once the target is known. The result is the number of removed
  tags and the new tree.\<close>

definition delete_target :: "TreeV4 \<Rightarrow> nat \<Rightarrow> nat \<Rightarrow> MatchesFunc option \<Rightarrow> 16 word \<Rightarrow>
    error + (nat \<times> TreeV4)" where
  "delete_target t parentIndex targetNodeIndex matchFunc matchVal =
     (if TagCount (nodes t ! targetNodeIndex) = 0 then Inr (0, t)
      else case deleteTag t targetNodeIndex matchVal matchFunc of
        Inl e \<Rightarrow> Inl e
      | Inr (deleteCount, remainingTagCount, t1) \<Rightarrow>
          if remainingTagCount > 0 then Inr (deleteCount, t1)
          else if targetNodeIndex = 1 then Inr (deleteCount, t1)
          else (case compact t1 parentIndex targetNodeIndex of
                  Inl e \<Rightarrow> Inl e
                | Inr t2 \<Rightarrow> Inr (deleteCount, t2)))"

text \<open>For a nil or zero-length address the target is the root and there is no parent
  (\<open>parentIndex\<close> keeps its zero value and is not used).\<close>

definition Delete :: "TreeV4 \<Rightarrow> IPv4Address option \<Rightarrow> MatchesFunc option \<Rightarrow> 16 word \<Rightarrow>
    (error + (nat \<times> TreeV4)) option" where
  "Delete t address matchFunc matchVal =
     (if \<not> 1 < length (nodes t) then Some (Inl IndexOutOfRange)
      else
        case (case address of
                None \<Rightarrow> Some (Inr (Found 0 1))
              | Some a \<Rightarrow>
                  if Length a = 0 then Some (Inr (Found 0 1))
                  else delete_find t 1
                         (if Address a < leftmost32Bit then Left (nodes t ! 1)
                          else Right (nodes t ! 1)) a) of
          None \<Rightarrow> None
        | Some (Inl e) \<Rightarrow> Some (Inl e)
        | Some (Inr NotFound) \<Rightarrow> Some (Inr (0, t))
        | Some (Inr (Found parentIndex targetNodeIndex)) \<Rightarrow>
            Some (delete_target t parentIndex targetNodeIndex matchFunc matchVal))"

subsection \<open>Lookups\<close>

text \<open>The loops of the three lookups; \<open>ret\<close> (and \<open>found\<close>) are the results collected so
  far. Like the traversal of \<open>Delete\<close> they are partial functions.\<close>

partial_function (option) findTags_loop ::
    "TreeV4 \<Rightarrow> nat \<Rightarrow> IPv4Address \<Rightarrow> 16 word list \<Rightarrow> (error + 16 word list) option" where
  "findTags_loop t nodeIndex address ret =
     (if nodeIndex = 0 then Some (Inr ret)
      else if \<not> nodeIndex < length (nodes t) then Some (Inl IndexOutOfRange)
      else if MatchCount (nodes t ! nodeIndex) address < prefixLength (nodes t ! nodeIndex)
        then Some (Inr ret)
      else if MatchCount (nodes t ! nodeIndex) address = Length address
        then Some (Inr (if TagCount (nodes t ! nodeIndex) > 0
                        then ret @ node_tags t nodeIndex else ret))
      else if Address (ShiftLeft address (MatchCount (nodes t ! nodeIndex) address))
                < leftmost32Bit
        then findTags_loop t (Left (nodes t ! nodeIndex))
               (ShiftLeft address (MatchCount (nodes t ! nodeIndex) address))
               (if TagCount (nodes t ! nodeIndex) > 0 then ret @ node_tags t nodeIndex else ret)
        else findTags_loop t (Right (nodes t ! nodeIndex))
               (ShiftLeft address (MatchCount (nodes t ! nodeIndex) address))
               (if TagCount (nodes t ! nodeIndex) > 0 then ret @ node_tags t nodeIndex else ret))"

declare findTags_loop.simps [code]

definition FindTags :: "TreeV4 \<Rightarrow> IPv4Address option \<Rightarrow> (error + 16 word list) option" where
  "FindTags t address =
     (if \<not> 1 < length (nodes t) then Some (Inl IndexOutOfRange)
      else
        let ret = (if TagCount (nodes t ! 1) > 0 then node_tags t 1 else []) in
        case address of
          None \<Rightarrow> Some (Inr ret)
        | Some a \<Rightarrow>
            if Length a = 0 then Some (Inr ret)
            else findTags_loop t
                   (if Address a < leftmost32Bit then Left (nodes t ! 1) else Right (nodes t ! 1))
                   a ret)"

partial_function (option) findTagsWithFilter_loop ::
    "TreeV4 \<Rightarrow> FilterFunc \<Rightarrow> nat \<Rightarrow> IPv4Address \<Rightarrow> 16 word list \<Rightarrow>
     (error + 16 word list) option" where
  "findTagsWithFilter_loop t filterFunc nodeIndex address ret =
     (if nodeIndex = 0 then Some (Inr ret)
      else if \<not> nodeIndex < length (nodes t) then Some (Inl IndexOutOfRange)
      else if MatchCount (nodes t ! nodeIndex) address < prefixLength (nodes t ! nodeIndex)
        then Some (Inr ret)
      else if MatchCount (nodes t ! nodeIndex) address = Length address
        then Some (Inr (if TagCount (nodes t ! nodeIndex) > 0
                        then ret @ filter filterFunc (node_tags t nodeIndex) else ret))
      else if Address (ShiftLeft address (MatchCount (nodes t ! nodeIndex) address))
                < leftmost32Bit
        then findTagsWithFilter_loop t filterFunc (Left (nodes t ! nodeIndex))
               (ShiftLeft address (MatchCount (nodes t ! nodeIndex) address))
               (if TagCount (nodes t ! nodeIndex) > 0
                then ret @ filter filterFunc (node_tags t nodeIndex) else ret)
        else findTagsWithFilter_loop t filterFunc (Right (nodes t ! nodeIndex))
               (ShiftLeft address (MatchCount (nodes t ! nodeIndex) address))
               (if TagCount (nodes t ! nodeIndex) > 0
                then ret @ filter filterFunc (node_tags t nodeIndex) else ret))"

declare findTagsWithFilter_loop.simps [code]

definition FindTagsWithFilter ::
    "TreeV4 \<Rightarrow> IPv4Address option \<Rightarrow> FilterFunc option \<Rightarrow> (error + 16 word list) option" where
  "FindTagsWithFilter t address filterFunc =
     (if \<not> 1 < length (nodes t) then Some (Inl IndexOutOfRange)
      else
        case filterFunc of
          None \<Rightarrow> FindTags t address
        | Some f \<Rightarrow>
            (let ret = (if TagCount (nodes t ! 1) > 0 then filter f (node_tags t 1) else []) in
             (case address of
                None \<Rightarrow> Some (Inr ret)
              | Some a \<Rightarrow>
                  if Length a = 0 then Some (Inr ret)
                  else findTagsWithFilter_loop t f
                         (if Address a < leftmost32Bit then Left (nodes t ! 1)
                          else Right (nodes t ! 1))
                         a ret)))"

partial_function (option) findDeepestTag_loop ::
    "TreeV4 \<Rightarrow> nat \<Rightarrow> IPv4Address \<Rightarrow> bool \<times> 16 word \<Rightarrow> (error + bool \<times> 16 word) option" where
  "findDeepestTag_loop t nodeIndex address best =
     (if nodeIndex = 0 then Some (Inr best)
      else if \<not> nodeIndex < length (nodes t) then Some (Inl IndexOutOfRange)
      else if MatchCount (nodes t ! nodeIndex) address < prefixLength (nodes t ! nodeIndex)
        then Some (Inr best)
      else if MatchCount (nodes t ! nodeIndex) address = Length address
        then Some (Inr (if TagCount (nodes t ! nodeIndex) > 0
                        then (True, firstTagForNode t nodeIndex) else best))
      else if Address (ShiftLeft address (MatchCount (nodes t ! nodeIndex) address))
                < leftmost32Bit
        then findDeepestTag_loop t (Left (nodes t ! nodeIndex))
               (ShiftLeft address (MatchCount (nodes t ! nodeIndex) address))
               (if TagCount (nodes t ! nodeIndex) > 0
                then (True, firstTagForNode t nodeIndex) else best)
        else findDeepestTag_loop t (Right (nodes t ! nodeIndex))
               (ShiftLeft address (MatchCount (nodes t ! nodeIndex) address))
               (if TagCount (nodes t ! nodeIndex) > 0
                then (True, firstTagForNode t nodeIndex) else best))"

declare findDeepestTag_loop.simps [code]

text \<open>\<open>FindDeepestTag\<close> reads \<^verbatim>\<open>address.Length\<close> without the nil test of the other
  operations: a nil address is a nil dereference. The result is the pair
  \<open>(found, tag)\<close>; both start at their zero values.\<close>

definition FindDeepestTag ::
    "TreeV4 \<Rightarrow> IPv4Address option \<Rightarrow> (error + bool \<times> 16 word) option" where
  "FindDeepestTag t address =
     (if \<not> 1 < length (nodes t) then Some (Inl IndexOutOfRange)
      else
        let best = (if TagCount (nodes t ! 1) > 0 then (True, firstTagForNode t 1)
                    else (False, 0)) in
        case address of
          None \<Rightarrow> Some (Inl NilDereference)
        | Some a \<Rightarrow>
            if Length a = 0 then Some (Inr best)
            else findDeepestTag_loop t
                   (if Address a < leftmost32Bit then Left (nodes t ! 1) else Right (nodes t ! 1))
                   a best)"

subsection \<open>Sequences of operations\<close>

text \<open>A client of the tree: a list of \<open>Add\<close> and \<open>Delete\<close> calls, run from left to right.
  A panic ends the run; a call that never returns makes the run \<open>None\<close>.\<close>

datatype op =
    AddOp "IPv4Address option" "16 word"
  | DeleteOp "IPv4Address option" "MatchesFunc option" "16 word"

fun run :: "op list \<Rightarrow> TreeV4 \<Rightarrow> (error + TreeV4) option" where
  "run [] t = Some (Inr t)"
| "run (AddOp a tag # ops) t =
     (case Add t a tag of Inl e \<Rightarrow> Some (Inl e) | Inr t' \<Rightarrow> run ops t')"
| "run (DeleteOp a f v # ops) t =
     (case Delete t a f v of
        None \<Rightarrow> None
      | Some (Inl e) \<Rightarrow> Some (Inl e)
      | Some (Inr (n, t')) \<Rightarrow> run ops t')"

text \<open>The tree that \<open>NewTreeV4\<close> returns.\<close>

definition newTree :: TreeV4 where
  "newTree = \<lparr>nodes = [mkNode 0 0, mkNode 0 0], availableIndexes = [], tags = Map.empty\<rparr>"

definition matchAll :: MatchesFunc where
  "matchAll stored v = True"

text \<open>What can be printed of a tree: the arena, the available indexes and the tags of
  every arena slot.\<close>

definition tree_view :: "TreeV4 \<Rightarrow> treeNodeV4 list \<times> nat list \<times> 16 word list list" where
  "tree_view t = (nodes t, availableIndexes t, map (node_tags t) [0..<length (nodes t)])"

subsection \<open>The claim that an address is absent\<close>

text \<open>
  An address is absent below \<open>nodeIndex\<close> when the traversal reaches a zero child index or
  a node whose prefix the rest of the address does not cover (its match count is below
  the node's prefix length); a node that is covered, but does not end the address, hands
  the question to the child that the next address bit selects.
\<close>

inductive absent :: "TreeV4 \<Rightarrow> nat \<Rightarrow> IPv4Address \<Rightarrow> bool" for t :: TreeV4 where
  absent_zero: "absent t 0 address"
| absent_short:
    "nodeIndex \<noteq> 0 \<Longrightarrow> nodeIndex < length (nodes t) \<Longrightarrow>
     MatchCount (nodes t ! nodeIndex) address < prefixLength (nodes t ! nodeIndex) \<Longrightarrow>
     absent t nodeIndex address"
| absent_step:
    "nodeIndex \<noteq> 0 \<Longrightarrow> nodeIndex < length (nodes t) \<Longrightarrow>
     MatchCount (nodes t ! nodeIndex) address = prefixLength (nodes t ! nodeIndex) \<Longrightarrow>
     MatchCount (nodes t ! nodeIndex) address \<noteq> Length address \<Longrightarrow>
     address' = ShiftLeft address (MatchCount (nodes t ! nodeIndex) address) \<Longrightarrow>
     absent t (if Address address' < leftmost32Bit then Left (nodes t ! nodeIndex)
               else Right (nodes t ! nodeIndex)) address' \<Longrightarrow>
     absent t nodeIndex address"

subsection \<open>Example trees\<close>

text \<open>The tree with the single root tag 7.\<close>

definition tree_root_tag :: TreeV4 where
  "tree_root_tag =
     \<lparr>nodes = [mkNode 0 0, (mkNode 0 0)\<lparr>TagCount := 1\<rparr>],
      availableIndexes = [],
      tags = [tagKey 1 0 \<mapsto> 7]\<rparr>"

text \<open>\<open>0.0.0.0/1\<close> with tag 5 in node 2 and \<open>128.0.0.0/1\<close> with tag 7 in node 3.\<close>

definition tree_two_leaves :: TreeV4 where
  "tree_two_leaves =
     \<lparr>nodes = [mkNode 0 0, (mkNode 0 0)\<lparr>Left := 2, Right := 3\<rparr>,
               (mkNode 0 1)\<lparr>TagCount := 1\<rparr>, (mkNode 0x80000000 1)\<lparr>TagCount := 1\<rparr>],
      availableIndexes = [],
      tags = [tagKey 2 0 \<mapsto> 5, tagKey 3 0 \<mapsto> 7]\<rparr>"

text \<open>\<open>10.0.0.0/8\<close> with tag 1 in node 2.\<close>

definition tree_one_prefix :: TreeV4 where
  "tree_one_prefix =
     \<lparr>nodes = [mkNode 0 0, (mkNode 0 0)\<lparr>Left := 2\<rparr>,
               (mkNode 0x0A000000 8)\<lparr>TagCount := 1\<rparr>],
      availableIndexes = [],
      tags = [tagKey 2 0 \<mapsto> 1]\<rparr>"

text \<open>\<open>10.0.0.0/8\<close> (tag 1, node 2) above a splitter without tags (node 4, the bits of
  \<open>10.0.0.0/16\<close>) with the leaves \<open>10.0.0.0/24\<close> (tag 3, node 3) and \<open>10.0.128.0/24\<close>
  (tag 4, node 5).\<close>

definition tree_splitter :: TreeV4 where
  "tree_splitter =
     \<lparr>nodes = [mkNode 0 0, (mkNode 0 0)\<lparr>Left := 2\<rparr>,
               (mkNode 0x0A000000 8)\<lparr>Left := 4, TagCount := 1\<rparr>,
               (mkNode 0 8)\<lparr>TagCount := 1\<rparr>,
               (mkNode 0x00800000 8)\<lparr>Left := 3, Right := 5\<rparr>,
               (mkNode 0x80000000 8)\<lparr>TagCount := 1\<rparr>],
      availableIndexes = [],
      tags = [tagKey 2 0 \<mapsto> 1, tagKey 3 0 \<mapsto> 3, tagKey 5 0 \<mapsto> 4]\<rparr>"

text \<open>\<open>10.0.0.0/8\<close> (tag 1, node 2) above \<open>10.0.0.0/16\<close> (tag 2, node 3) with the leaves
  \<open>10.0.0.0/24\<close> (tag 3, node 4) and \<open>10.0.128.0/24\<close> (tag 4, node 5).\<close>

definition tree_chain :: TreeV4 where
  "tree_chain =
     \<lparr>nodes = [mkNode 0 0, (mkNode 0 0)\<lparr>Left := 2\<rparr>,
               (mkNode 0x0A000000 8)\<lparr>Left := 3, TagCount := 1\<rparr>,
               (mkNode 0 8)\<lparr>Left := 4, Right := 5, TagCount := 1\<rparr>,
               (mkNode 0 8)\<lparr>TagCount := 1\<rparr>,
               (mkNode 0x80000000 8)\<lparr>TagCount := 1\<rparr>],
      availableIndexes = [],
      tags = [tagKey 2 0 \<mapsto> 1, tagKey 3 0 \<mapsto> 2, tagKey 4 0 \<mapsto> 3, tagKey 5 0 \<mapsto> 4]\<rparr>"

subsection \<open>Prefixes as bit strings and the matching path\<close>

text \<open>
  The bit string that a left-aligned prefix of length \<open>n\<close> stands for: the \<open>n\<close> leading
  bits of the word, first bit first.
\<close>

fun bits :: "nat \<Rightarrow> 32 word \<Rightarrow> bool list" where
  "bits 0 w = []"
| "bits (Suc n) w = bit w 31 # bits n (push_bit 1 w)"

definition addr_bits :: "IPv4Address \<Rightarrow> bool list" where
  "addr_bits a = bits (Length a) (Address a)"

definition node_bits :: "treeNodeV4 \<Rightarrow> bool list" where
  "node_bits n = bits (prefixLength n) (prefix n)"

definition is_prefix :: "bool list \<Rightarrow> bool list \<Rightarrow> bool" where
  "is_prefix xs ys = (take (length xs) ys = xs)"

text \<open>
  The matching path of an address, from the specification's words: the walk starts at the
  root with the empty accumulated prefix; from a node whose accumulated prefix \<open>acc\<close> is
  a proper prefix of the address it goes to the child that the next address bit selects,
  and that child is on the path when the accumulated prefix extended by the child's stored
  bits is still a prefix of the address. \<open>path_from t abits i acc ps\<close>: below node \<open>i\<close> with
  accumulated prefix \<open>acc\<close> the further nodes of the path are \<open>ps\<close>, outermost first.
\<close>

definition next_child :: "TreeV4 \<Rightarrow> bool list \<Rightarrow> nat \<Rightarrow> nat \<Rightarrow> nat" where
  "next_child t abits i k = (if abits ! k then Right (nodes t ! i) else Left (nodes t ! i))"

inductive path_from :: "TreeV4 \<Rightarrow> bool list \<Rightarrow> nat \<Rightarrow> bool list \<Rightarrow> nat list \<Rightarrow> bool"
  for t :: TreeV4 and abits :: "bool list" where
  path_end: "acc = abits \<Longrightarrow> path_from t abits i acc []"
| path_no_child:
    "length acc < length abits \<Longrightarrow> next_child t abits i (length acc) = 0 \<Longrightarrow>
     path_from t abits i acc []"
| path_mismatch:
    "length acc < length abits \<Longrightarrow> c = next_child t abits i (length acc) \<Longrightarrow> c \<noteq> 0 \<Longrightarrow>
     c < length (nodes t) \<Longrightarrow> \<not> is_prefix (acc @ node_bits (nodes t ! c)) abits \<Longrightarrow>
     path_from t abits i acc []"
| path_step:
    "length acc < length abits \<Longrightarrow> c = next_child t abits i (length acc) \<Longrightarrow> c \<noteq> 0 \<Longrightarrow>
     c < length (nodes t) \<Longrightarrow> is_prefix (acc @ node_bits (nodes t ! c)) abits \<Longrightarrow>
     path_from t abits c (acc @ node_bits (nodes t ! c)) ps \<Longrightarrow>
     path_from t abits i acc (c # ps)"

definition matching_path :: "TreeV4 \<Rightarrow> IPv4Address \<Rightarrow> nat list \<Rightarrow> bool" where
  "matching_path t a ps = (\<exists>ps'. ps = 1 # ps' \<and> path_from t (addr_bits a) 1 [] ps')"

text \<open>
  The deepest tagged node of a path and the answer the specification gives for
  \<open>find_deepest_tag\<close>: the first tag of that node, or \<open>found = false\<close> (with the zero tag).
  \<open>keep_best\<close> is the update of the "best so far" pair at one node.
\<close>

definition tagged_nodes :: "TreeV4 \<Rightarrow> nat list \<Rightarrow> nat list" where
  "tagged_nodes t ps = filter (\<lambda>i. 0 < TagCount (nodes t ! i)) ps"

definition deepest_tag :: "TreeV4 \<Rightarrow> nat list \<Rightarrow> bool \<times> 16 word" where
  "deepest_tag t ps =
     (if tagged_nodes t ps = [] then (False, 0)
      else (True, hd (node_tags t (last (tagged_nodes t ps)))))"

definition keep_best :: "TreeV4 \<Rightarrow> bool \<times> 16 word \<Rightarrow> nat \<Rightarrow> bool \<times> 16 word" where
  "keep_best t best i = (if 0 < TagCount (nodes t ! i) then (True, firstTagForNode t i) else best)"

subsection \<open>The structural invariant\<close>

text \<open>
  \<open>subtree ns i S\<close>: following the child indexes from \<open>i\<close> visits exactly the indexes
  \<open>S\<close>, all of them inside the arena \<open>ns\<close>, and none of them twice (\<open>0\<close> is "no child").
\<close>

inductive subtree :: "treeNodeV4 list \<Rightarrow> nat \<Rightarrow> nat set \<Rightarrow> bool" for ns :: "treeNodeV4 list" where
  subtree_empty: "subtree ns 0 {}"
| subtree_node:
    "i \<noteq> 0 \<Longrightarrow> i < length ns \<Longrightarrow>
     subtree ns (Left (ns ! i)) L \<Longrightarrow> subtree ns (Right (ns ! i)) R \<Longrightarrow>
     i \<notin> L \<Longrightarrow> i \<notin> R \<Longrightarrow> L \<inter> R = {} \<Longrightarrow>
     subtree ns i (insert i (L \<union> R))"

text \<open>
  The conditions on one node: the stored prefix of a left child starts with bit 0 and that
  of a right child with bit 1 (\<open>child_bits_ok\<close>); a node other than the root has a prefix of
  at least one bit and has a tag or two children (\<open>node_ok\<close>).
\<close>

definition child_bits_ok :: "treeNodeV4 list \<Rightarrow> nat \<Rightarrow> bool" where
  "child_bits_ok ns i =
     ((Left (ns ! i) \<noteq> 0 \<longrightarrow> \<not> bit (prefix (ns ! Left (ns ! i))) 31)
      \<and> (Right (ns ! i) \<noteq> 0 \<longrightarrow> bit (prefix (ns ! Right (ns ! i))) 31))"

definition node_ok :: "treeNodeV4 \<Rightarrow> bool" where
  "node_ok n = (1 \<le> prefixLength n \<and> (1 \<le> TagCount n \<or> (Left n \<noteq> 0 \<and> Right n \<noteq> 0)))"

definition good :: "treeNodeV4 list \<Rightarrow> nat \<Rightarrow> bool" where
  "good ns i = (child_bits_ok ns i \<and> (i \<noteq> 1 \<longrightarrow> node_ok (ns ! i)))"

text \<open>
  The invariant of the whole tree: the nodes below the root form a tree of good nodes, and
  the available indexes are distinct, inside the arena, not \<open>0\<close> and not in that tree.
\<close>

definition tree_inv :: "TreeV4 \<Rightarrow> bool" where
  "tree_inv t =
     (\<exists>S. subtree (nodes t) 1 S \<and> (\<forall>i\<in>S. good (nodes t) i)
          \<and> distinct (availableIndexes t)
          \<and> (\<forall>j\<in>set (availableIndexes t). j \<notin> S \<and> j < length (nodes t) \<and> j \<noteq> 0))"

text \<open>
  What \<open>newNode\<close> may hand out (\<open>fresh\<close>), the condition on the available indexes alone
  (\<open>free_ok\<close>), and the relation between the trees before and after \<open>newNode\<close> returns the
  index \<open>k\<close>.
\<close>

definition fresh :: "TreeV4 \<Rightarrow> nat \<Rightarrow> bool" where
  "fresh t k = (k \<in> set (availableIndexes t) \<or> length (nodes t) \<le> k)"

definition free_ok :: "TreeV4 \<Rightarrow> bool" where
  "free_ok t = (distinct (availableIndexes t)
                \<and> (\<forall>j\<in>set (availableIndexes t). j < length (nodes t) \<and> j \<noteq> 0)
                \<and> 0 < length (nodes t))"

definition allocated :: "TreeV4 \<Rightarrow> 32 word \<Rightarrow> nat \<Rightarrow> nat \<Rightarrow> TreeV4 \<Rightarrow> bool" where
  "allocated t p l k t1 =
     (fresh t k \<and> k \<noteq> 0 \<and> k < length (nodes t1) \<and> length (nodes t) \<le> length (nodes t1)
      \<and> nodes t1 ! k = mkNode p l
      \<and> (\<forall>j<length (nodes t1). j \<noteq> k \<longrightarrow> j < length (nodes t) \<and> nodes t1 ! j = nodes t ! j)
      \<and> free_ok t1 \<and> set (availableIndexes t1) \<subseteq> set (availableIndexes t)
      \<and> k \<notin> set (availableIndexes t1) \<and> tags t1 = tags t
      \<and> (\<forall>j. fresh t1 j \<longrightarrow> fresh t j \<and> j \<noteq> k))"

text \<open>
  The loop of \<open>Add\<close> at node \<open>n\<close> below \<open>p\<close>: what holds when an iteration starts, with
  \<open>S\<close> the footprint of \<open>n\<close>, and what holds for the tree that the loop returns: the slot
  of \<open>p\<close> holds the root \<open>n'\<close> of a tree of good nodes made of old nodes of \<open>S\<close> and fresh
  ones, and nothing else has changed.
\<close>

definition add_pre :: "TreeV4 \<Rightarrow> nat \<Rightarrow> nat \<Rightarrow> nat set \<Rightarrow> IPv4Address \<Rightarrow> bool" where
  "add_pre t p n S a =
     (free_ok t \<and> subtree (nodes t) n S \<and> n \<noteq> 0 \<and> (\<forall>i\<in>S. good (nodes t) i) \<and> 1 \<notin> S
      \<and> p < length (nodes t) \<and> p \<notin> S
      \<and> (Left (nodes t ! p) = n \<or> Right (nodes t ! p) = n)
      \<and> (\<forall>j\<in>set (availableIndexes t). j \<notin> S \<and> j \<noteq> p)
      \<and> 1 \<le> Length a \<and> bit (prefix (nodes t ! n)) 31 = bit (Address a) 31)"

definition add_post :: "TreeV4 \<Rightarrow> nat \<Rightarrow> nat \<Rightarrow> nat set \<Rightarrow> TreeV4 \<Rightarrow> bool" where
  "add_post t p n S t' =
     (length (nodes t) \<le> length (nodes t') \<and> free_ok t'
      \<and> set (availableIndexes t') \<subseteq> set (availableIndexes t)
      \<and> (\<forall>j<length (nodes t). j \<notin> S \<longrightarrow> j \<noteq> p \<longrightarrow> \<not> fresh t j \<longrightarrow> nodes t' ! j = nodes t ! j)
      \<and> (\<exists>n' S'. subtree (nodes t') n' S' \<and> n' \<noteq> 0 \<and> (\<forall>i\<in>S'. i \<in> S \<or> fresh t i)
            \<and> (\<forall>i\<in>S'. good (nodes t') i) \<and> (\<forall>j\<in>set (availableIndexes t'). j \<notin> S')
            \<and> nodes t' ! p = (if Left (nodes t ! p) = n then (nodes t ! p)\<lparr>Left := n'\<rparr>
                               else (nodes t ! p)\<lparr>Right := n'\<rparr>)
            \<and> bit (prefix (nodes t' ! n')) 31 = bit (prefix (nodes t ! n)) 31))"

text \<open>
  The parent \<open>p\<close> and the target \<open>tgt\<close> of \<open>Delete\<close> with the footprints of their
  children.
\<close>

definition del_shape ::
    "treeNodeV4 list \<Rightarrow> nat \<Rightarrow> nat \<Rightarrow> nat set \<Rightarrow> nat set \<Rightarrow> nat set \<Rightarrow> nat set \<Rightarrow> bool" where
  "del_shape ns p tgt Lp Rp Lt Rt =
     (subtree ns (Left (ns ! p)) Lp \<and> subtree ns (Right (ns ! p)) Rp
      \<and> p \<notin> Lp \<and> p \<notin> Rp \<and> Lp \<inter> Rp = {}
      \<and> subtree ns (Left (ns ! tgt)) Lt \<and> subtree ns (Right (ns ! tgt)) Rt
      \<and> tgt \<notin> Lt \<and> tgt \<notin> Rt \<and> Lt \<inter> Rt = {}
      \<and> insert tgt (Lt \<union> Rt) = (if Left (ns ! p) = tgt then Lp else Rp)
      \<and> subtree ns p (insert p (Lp \<union> Rp)) \<and> subtree ns tgt (insert tgt (Lt \<union> Rt))
      \<and> p \<noteq> tgt \<and> p \<noteq> 0 \<and> tgt \<noteq> 0 \<and> p < length ns \<and> tgt < length ns)"

text \<open>
  The nodes that can be reached from the root, and the invariant in the words of the
  specification: every reachable node is inside the arena, the stored prefix of its left
  child starts with bit 0 and that of its right child with bit 1, and a reachable node other
  than the root has a prefix of at least one bit and has a tag or two children.
\<close>

inductive_set reachable :: "TreeV4 \<Rightarrow> nat set" for t :: TreeV4 where
  reach_root: "1 \<in> reachable t"
| reach_left: "i \<in> reachable t \<Longrightarrow> Left (nodes t ! i) \<noteq> 0 \<Longrightarrow> Left (nodes t ! i) \<in> reachable t"
| reach_right: "i \<in> reachable t \<Longrightarrow> Right (nodes t ! i) \<noteq> 0 \<Longrightarrow> Right (nodes t ! i) \<in> reachable t"

definition structural_invariant :: "TreeV4 \<Rightarrow> bool" where
  "structural_invariant t =
     (\<forall>i\<in>reachable t. i < length (nodes t)
        \<and> (Left (nodes t ! i) \<noteq> 0 \<longrightarrow> \<not> bit (prefix (nodes t ! Left (nodes t ! i))) 31)
        \<and> (Right (nodes t ! i) \<noteq> 0 \<longrightarrow> bit (prefix (nodes t ! Right (nodes t ! i))) 31)
        \<and> (i \<noteq> 1 \<longrightarrow> 1 \<le> prefixLength (nodes t ! i)
              \<and> (1 \<le> TagCount (nodes t ! i)
                  \<or> (Left (nodes t ! i) \<noteq> 0 \<and> Right (nodes t ! i) \<noteq> 0))))"

text \<open>
  The tree \<open>tree_two_leaves\<close> after the deletion of \<open>0.0.0.0/1\<close>: node 2 is released.
\<close>

definition tree_after_delete :: TreeV4 where
  "tree_after_delete =
     \<lparr>nodes = [mkNode 0 0, (mkNode 0 0)\<lparr>Right := 3\<rparr>, mkNode 0 1,
               (mkNode 0x80000000 1)\<lparr>TagCount := 1\<rparr>],
      availableIndexes = [2],
      tags = [tagKey 3 0 \<mapsto> 7]\<rparr>"

text \<open>
  Sizes. \<open>small\<close>: the node indexes and the slots of every node fit the two 32-bit halves
  of a tag key. \<open>sized L M\<close> bounds the arena and the tag counts; \<open>room k\<close> leaves room for
  \<open>k\<close> more calls of \<open>Add\<close>, each of which allocates at most two nodes and adds one tag.
\<close>

definition small :: "TreeV4 \<Rightarrow> bool" where
  "small t = (length (nodes t) \<le> 2 ^ 32 \<and> (\<forall>x\<in>set (nodes t). TagCount x \<le> 2 ^ 32))"

definition sized :: "nat \<Rightarrow> nat \<Rightarrow> TreeV4 \<Rightarrow> bool" where
  "sized L M t = (length (nodes t) \<le> L \<and> (\<forall>x\<in>set (nodes t). TagCount x \<le> M))"

definition room :: "nat \<Rightarrow> TreeV4 \<Rightarrow> bool" where
  "room k t = (length (nodes t) + 2 * k \<le> 2 ^ 32 \<and> (\<forall>x\<in>set (nodes t). TagCount x + k \<le> 2 ^ 32))"

text \<open>
  What the loop of \<open>Add\<close> at node \<open>n\<close> below \<open>p\<close> does to the tag store (one key is
  written, of a node of the footprint or of a fresh node) and to the lookup of the same
  address: the tags found before, then the new tag.
\<close>

definition tags_written :: "TreeV4 \<Rightarrow> nat set \<Rightarrow> 16 word \<Rightarrow> TreeV4 \<Rightarrow> bool" where
  "tags_written t S tag t' =
     (\<exists>k s. tags t' = (tags t)(tagKey k s \<mapsto> tag) \<and> (k \<in> S \<or> fresh t k)
            \<and> k < length (nodes t') \<and> s < TagCount (nodes t' ! k))"

definition add_found ::
    "TreeV4 \<Rightarrow> nat \<Rightarrow> nat \<Rightarrow> nat set \<Rightarrow> IPv4Address \<Rightarrow> 16 word \<Rightarrow> TreeV4 \<Rightarrow> bool" where
  "add_found t p n S a tag t' =
     (tags_written t S tag t'
      \<and> (\<forall>ret. \<exists>xs. findTags_loop t n a ret = Some (Inr xs)
             \<and> findTags_loop t' (if Left (nodes t ! p) = n then Left (nodes t' ! p)
                                  else Right (nodes t' ! p)) a ret
                 = Some (Inr (xs @ [tag]))))"

text \<open>
  The tree \<open>tree_one_prefix\<close> after two more \<open>Add(10.0.0.0/8, 1)\<close>.
\<close>

definition tree_one_prefix_thrice :: TreeV4 where
  "tree_one_prefix_thrice =
     \<lparr>nodes = [mkNode 0 0, (mkNode 0 0)\<lparr>Left := 2\<rparr>,
               (mkNode 0x0A000000 8)\<lparr>TagCount := 3\<rparr>],
      availableIndexes = [],
      tags = [tagKey 2 0 \<mapsto> 1, tagKey 2 1 \<mapsto> 1, tagKey 2 2 \<mapsto> 1]\<rparr>"

section \<open>Evaluation of the model on concrete trees\<close>

lemma NewTreeV4_newTree: "2 \<le> c \<Longrightarrow> NewTreeV4 c = Inr newTree"
  by (simp add: NewTreeV4_def newTree_def)

lemma leading_match_numeral:
  "leading_match (numeral k) a b =
     (if bit a 31 = bit b 31
      then Suc (leading_match (pred_numeral k) (push_bit 1 a) (push_bit 1 b)) else 0)"
  by (simp add: numeral_eq_Suc)

lemmas eval_defs = newTree_def matchAll_def mkNode_def Add_def addLeaf_def newNode_def addTag_def
  setTagCount_def setLeft_def setRight_def setPrefix_def leftmost32Bit_def add_loop.simps
  MatchCount_def ShiftLeft_def ShiftPrefix_def insertParent_def splitNode_def replaceChild_def
  Delete_def delete_find.simps delete_target_def deleteTag_def node_tags_def tagAt_def tagKey_def
  compact_def removeLeaf_def mergeSibling_def moveTags_def releaseTarget_def liftChild_def
  absorbTarget_def MergePrefixes32_def high_bits_def Let_def leading_match_numeral
  FindTags_def findTags_loop.simps FindDeepestTag_def findDeepestTag_loop.simps
  firstTagForNode_def tree_view_def tree_root_tag_def tree_two_leaves_def tree_one_prefix_def
  tree_splitter_def tree_chain_def

section \<open>Claims settled by evaluation\<close>

lemma tree_root_tag_reached: "run [AddOp None 7] newTree = Some (Inr tree_root_tag)"
  by (simp add: eval_defs)

lemma tree_two_leaves_reached:
  "run [AddOp (Some \<lparr>Address = 0, Length = 1\<rparr>) 5,
        AddOp (Some \<lparr>Address = 0x80000000, Length = 1\<rparr>) 7] newTree
   = Some (Inr tree_two_leaves)"
  by (simp add: eval_defs)

lemma tree_one_prefix_reached:
  "run [AddOp (Some \<lparr>Address = 0x0A000000, Length = 8\<rparr>) 1] newTree = Some (Inr tree_one_prefix)"
  by (simp add: eval_defs)

lemma tree_splitter_reached:
  "run [AddOp (Some \<lparr>Address = 0x0A000000, Length = 8\<rparr>) 1,
        AddOp (Some \<lparr>Address = 0x0A000000, Length = 24\<rparr>) 3,
        AddOp (Some \<lparr>Address = 0x0A008000, Length = 24\<rparr>) 4] newTree
   = Some (Inr tree_splitter)"
  by (simp add: eval_defs)

lemma tree_chain_reached:
  "run [AddOp (Some \<lparr>Address = 0x0A000000, Length = 8\<rparr>) 1,
        AddOp (Some \<lparr>Address = 0x0A000000, Length = 16\<rparr>) 2,
        AddOp (Some \<lparr>Address = 0x0A000000, Length = 24\<rparr>) 3,
        AddOp (Some \<lparr>Address = 0x0A008000, Length = 24\<rparr>) 4] newTree
   = Some (Inr tree_chain)"
  by (simp add: eval_defs)

text \<open>
  C1 (round trip), evaluated at the input that shows the defect. Insert \<open>0.0.0.0/2\<close> with
  tag 1 and \<open>64.0.0.0/2\<close> with tag 2, then delete both with a predicate that matches every
  tag. The run returns; the root has no children and no tags; the arena holds the
  indexes 2, 3 and 4; the available indexes are 2 and 3 only. Index 4, the sibling whose
  prefix, tags and children the parent took over when \<open>0.0.0.0/2\<close> was removed, is neither
  reachable nor available.
\<close>

theorem roundtrip_leaks_absorbed_sibling:
  "map_option (map_sum id tree_view)
     (run [AddOp (Some \<lparr>Address = 0, Length = 2\<rparr>) 1,
           AddOp (Some \<lparr>Address = 0x40000000, Length = 2\<rparr>) 2,
           DeleteOp (Some \<lparr>Address = 0, Length = 2\<rparr>) (Some matchAll) 0,
           DeleteOp (Some \<lparr>Address = 0x40000000, Length = 2\<rparr>) (Some matchAll) 0] newTree)
   = Some (Inr ([mkNode 0 0, mkNode 0 0, mkNode 0 1, mkNode 0x40000000 2, mkNode 0x80000000 1],
                [2, 3],
                [[], [], [], [], []]))"
  by (simp add: eval_defs)

text \<open>
  The round trip fails in a second way. With \<open>10.0.0.0/8\<close>, \<open>10.0.0.0/16\<close>, \<open>10.0.0.0/24\<close>
  and \<open>10.0.128.0/24\<close> stored, deleting \<open>10.0.0.0/16\<close> first makes its parent, the tagged node
  of \<open>10.0.0.0/8\<close>, take over the target's prefix bits: the tag of \<open>10.0.0.0/8\<close> is then
  stored under \<open>10.0.0.0/16\<close>, deleting \<open>10.0.0.0/8\<close> finds nothing, and after all four
  deletes the root still has a child (node 2) with tag 1.
\<close>

lemma roundtrip_keeps_tag_of_absorbing_parent:
  "map_option (map_sum id tree_view)
     (run [DeleteOp (Some \<lparr>Address = 0x0A000000, Length = 16\<rparr>) (Some matchAll) 0,
           DeleteOp (Some \<lparr>Address = 0x0A000000, Length = 8\<rparr>) (Some matchAll) 0,
           DeleteOp (Some \<lparr>Address = 0x0A000000, Length = 24\<rparr>) (Some matchAll) 0,
           DeleteOp (Some \<lparr>Address = 0x0A008000, Length = 24\<rparr>) (Some matchAll) 0] tree_chain)
   = Some (Inr ([mkNode 0 0, (mkNode 0 0)\<lparr>Left := 2\<rparr>,
                 (mkNode 0x0A000000 16)\<lparr>TagCount := 1\<rparr>, mkNode 0 8, mkNode 0 8,
                 mkNode 0x80000000 8],
                [3, 4, 5],
                [[], [], [1], [], [], []]))"
  by (simp add: eval_defs)

text \<open>
  C7 (nil address in \<open>FindDeepestTag\<close>), evaluated at the failing input. On the tree that
  holds the single root tag 7, \<open>FindTags\<close> answers a nil address with the root tags and
  \<open>FindDeepestTag\<close> answers a zero-length address with the first root tag, but
  \<open>FindDeepestTag\<close> with a nil address panics with a nil dereference.
\<close>

theorem FindDeepestTag_nil_address_panics:
  "FindTags tree_root_tag None = Some (Inr [7])
   \<and> FindDeepestTag tree_root_tag (Some \<lparr>Address = 0, Length = 0\<rparr>) = Some (Inr (True, 7))
   \<and> FindDeepestTag tree_root_tag None = Some (Inl NilDereference)"
  by (simp add: eval_defs)

text \<open>
  C10: with a nil filter function \<open>FindTagsWithFilter\<close> hands the call to \<open>FindTags\<close>; the
  two return the same result (the same tags, the same panic, or both do not return) on
  every tree and for every address, nil included.
\<close>

theorem FindTagsWithFilter_nil_filter:
  "FindTagsWithFilter t address None = FindTags t address"
  by (simp add: FindTagsWithFilter_def FindTags_def)

section \<open>\<open>moveTags\<close>: the tags of the destination\<close>

text \<open>
  C8 as stated fails on a destination that has tags. Node 2 of \<open>tree_two_leaves\<close> holds
  \<open>[5]\<close> and node 3 holds \<open>[7]\<close>. Moving the tags of node 3 to node 2 writes tag 7
  into slot 0 of node 2, over tag 5, and raises the count of node 2 to two: its tags read
  \<open>[7, 0]\<close>, not \<open>[5, 7]\<close>. The loop writes to the slots \<open>0..<tagCount\<close> of the
  destination, whatever the destination holds.
\<close>

theorem moveTags_overwrites_tags_of_destination:
  "node_tags tree_two_leaves 2 = [5] \<and> node_tags tree_two_leaves 3 = [7]
   \<and> map_sum id tree_view (moveTags tree_two_leaves 3 2)
       = Inr ([mkNode 0 0, (mkNode 0 0)\<lparr>Left := 2, Right := 3\<rparr>,
               (mkNode 0 1)\<lparr>TagCount := 2\<rparr>, mkNode 0x80000000 1],
              [],
              [[], [], [7, 0], []])"
  by (simp add: eval_defs)

text \<open>A tag key determines the node index and the slot, as long as both fit 32 bits.\<close>

lemma tagKey_inj_aux:
  fixes B :: nat
  assumes "n < B" "i < B" "n' < B" "i' < B"
    and "((n * B) mod (B * B) + i) mod (B * B) = ((n' * B) mod (B * B) + i') mod (B * B)"
  shows "n = n' \<and> i = i'"
proof -
  have b: "n * B + i < B * B" if "n < B" "i < B" for n i
  proof -
    from that have "Suc n \<le> B" by simp
    then have "Suc n * B \<le> B * B" by (rule mult_le_mono1)
    with that show ?thesis by simp
  qed
  have c: "n * B < B * B" if "n < B" for n :: nat
    using b [OF that, of 0] that by simp
  have e: "((n * B) mod (B * B) + i) mod (B * B) = n * B + i" if "n < B" "i < B" for n i
    using mod_less [OF c [OF that(1)]] mod_less [OF b [OF that]] by (simp only:)
  from assms(5) have "n * B + i = n' * B + i'"
    unfolding e [OF assms(1,2)] e [OF assms(3,4)] .
  then have "(n * B + i) div B = (n' * B + i') div B" "(n * B + i) mod B = (n' * B + i') mod B"
    by simp_all
  with assms(2,4) show ?thesis by simp
qed

lemma tagKey_inj:
  assumes "n < 2 ^ 32" "i < 2 ^ 32" "n' < 2 ^ 32" "i' < 2 ^ 32" and "tagKey n i = tagKey n' i'"
  shows "n = n' \<and> i = i'"
proof -
  have "(2::nat) ^ 64 = 2 ^ 32 * 2 ^ 32" by simp
  with assms(5) have "((n * 2 ^ 32) mod (2 ^ 32 * 2 ^ 32) + i) mod (2 ^ 32 * 2 ^ 32)
      = ((n' * 2 ^ 32) mod (2 ^ 32 * 2 ^ 32) + i') mod (2 ^ 32 * 2 ^ 32)"
    unfolding tagKey_def by (simp only:)
  from tagKey_inj_aux [OF assms(1-4) this] show ?thesis .
qed

text \<open>The loop of \<open>moveTags\<close> after \<open>k\<close> iterations: the first \<open>k\<close> slots of the destination
  hold the first \<open>k\<close> tags of the source, whose later keys are as they were.\<close>

lemma moveTags_loop:
  assumes f: "fromIndex < 2 ^ 32" and t: "toIndex < 2 ^ 32" and ne: "fromIndex \<noteq> toIndex"
    and c: "c \<le> 2 ^ 32"
  shows "k \<le> c \<Longrightarrow>
     (\<forall>i<k. fold (moveTags_step fromIndex toIndex) [0..<k] m (tagKey toIndex i)
               = Some (tagAt m (tagKey fromIndex i)))
     \<and> (\<forall>i. k \<le> i \<longrightarrow> i < c \<longrightarrow>
            fold (moveTags_step fromIndex toIndex) [0..<k] m (tagKey fromIndex i)
            = m (tagKey fromIndex i))"
proof (induction k)
  case 0
  show ?case by simp
next
  case (Suc k)
  let ?m = "fold (moveTags_step fromIndex toIndex) [0..<k] m"
  from Suc have IH1: "\<forall>i<k. ?m (tagKey toIndex i) = Some (tagAt m (tagKey fromIndex i))"
    and IH2: "\<forall>i. k \<le> i \<longrightarrow> i < c \<longrightarrow> ?m (tagKey fromIndex i) = m (tagKey fromIndex i)"
    by simp_all
  have k32: "k < 2 ^ 32" using Suc.prems c by simp
  have step: "fold (moveTags_step fromIndex toIndex) [0..<Suc k] m
              = moveTags_step fromIndex toIndex k ?m"
    by simp
  have tf: "tagKey toIndex i \<noteq> tagKey fromIndex k" if "i < 2 ^ 32" for i
    using tagKey_inj [OF t that f k32] ne by auto
  have tt: "tagKey toIndex i \<noteq> tagKey toIndex k" if "i < k" for i
  proof -
    from that k32 have "i < 2 ^ 32" by simp
    from tagKey_inj [OF t this t k32] that show ?thesis by auto
  qed
  have ff: "tagKey fromIndex i \<noteq> tagKey fromIndex k" if "Suc k \<le> i" "i < c" for i
  proof -
    from that c have "i < 2 ^ 32" by simp
    from tagKey_inj [OF f this f k32] that show ?thesis by auto
  qed
  have ft: "tagKey fromIndex i \<noteq> tagKey toIndex k" if "i < c" for i
  proof -
    from that c have "i < 2 ^ 32" by simp
    from tagKey_inj [OF f this t k32] ne show ?thesis by auto
  qed
  have at_k: "tagAt ?m (tagKey fromIndex k) = tagAt m (tagKey fromIndex k)"
    using IH2 Suc.prems by (simp add: tagAt_def)
  show ?case
  proof (intro conjI allI impI)
    fix i assume i: "i < Suc k"
    show "fold (moveTags_step fromIndex toIndex) [0..<Suc k] m (tagKey toIndex i)
          = Some (tagAt m (tagKey fromIndex i))"
    proof (cases "i = k")
      case True
      then show ?thesis
        unfolding step using tf [OF k32] at_k by (simp add: moveTags_step_def)
    next
      case False
      with i have ik: "i < k" by simp
      then have "i < 2 ^ 32" using k32 by simp
      from tf [OF this] tt [OF ik] IH1 ik show ?thesis
        unfolding step by (simp add: moveTags_step_def)
    qed
  next
    fix i assume i: "Suc k \<le> i" "i < c"
    from ff [OF i] ft [OF i(2)] IH2 i
    show "fold (moveTags_step fromIndex toIndex) [0..<Suc k] m (tagKey fromIndex i)
          = m (tagKey fromIndex i)"
      unfolding step by (simp add: moveTags_step_def)
  qed
qed

text \<open>
  C8, amended: the destination has no tags, which is how \<open>Delete\<close> calls \<open>moveTags\<close> (both
  calls are guarded by \<^verbatim>\<open>parent.TagCount == 0\<close>). For two different nodes of the arena whose
  indexes and whose number of moved tags fit the two 32-bit halves of a tag key,
  \<open>moveTags\<close> then leaves the destination with its old tags (none) followed by the tags of
  the source, in their order, and the source with a tag count of 0.
\<close>

theorem moveTags_to_destination_without_tags:
  assumes "fromIndex < length (nodes t)" and "toIndex < length (nodes t)"
    and "fromIndex \<noteq> toIndex" and "TagCount (nodes t ! toIndex) = 0"
    and "fromIndex < 2 ^ 32" and "toIndex < 2 ^ 32"
    and "TagCount (nodes t ! fromIndex) \<le> 2 ^ 32"
  shows "\<exists>t'. moveTags t fromIndex toIndex = Inr t'
           \<and> node_tags t' toIndex = node_tags t toIndex @ node_tags t fromIndex
           \<and> TagCount (nodes t' ! fromIndex) = 0 \<and> node_tags t' fromIndex = []"
proof -
  let ?T = "TagCount (nodes t ! fromIndex)"
  let ?m = "fold (moveTags_step fromIndex toIndex) [0..<?T] (tags t)"
  define t' where "t' = setTagCount (setTagCount (t\<lparr>tags := ?m\<rparr>) toIndex
                          (TagCount (nodes t ! toIndex) + ?T)) fromIndex 0"
  have step: "(\<lambda>i m. (m(tagKey toIndex i \<mapsto> tagAt m (tagKey fromIndex i)))
                      (tagKey fromIndex i := None)) = moveTags_step fromIndex toIndex"
    by (simp add: moveTags_step_def fun_eq_iff)
  have res: "moveTags t fromIndex toIndex = Inr t'"
    using assms(1,2,3) by (simp add: moveTags_def Let_def step t'_def setTagCount_def)
  have tg: "tags t' = ?m" by (simp add: t'_def setTagCount_def)
  have ct: "TagCount (nodes t' ! toIndex) = ?T"
    using assms(1-4) by (simp add: t'_def setTagCount_def)
  have cf: "TagCount (nodes t' ! fromIndex) = 0"
    using assms(1-3) by (simp add: t'_def setTagCount_def)
  from moveTags_loop [OF assms(5,6,3,7) order_refl, of "tags t"]
  have "\<forall>i<?T. ?m (tagKey toIndex i) = Some (tagAt (tags t) (tagKey fromIndex i))"
    by blast
  then have "node_tags t' toIndex = node_tags t fromIndex"
    by (simp add: node_tags_def ct tg tagAt_def)
  moreover have "node_tags t toIndex = []" using assms(4) by (simp add: node_tags_def)
  moreover have "node_tags t' fromIndex = []" using cf by (simp add: node_tags_def)
  ultimately show ?thesis using res cf by simp
qed

theorem moveTags_to_destination_without_tags_witness:
  "(3::nat) < length (nodes tree_splitter) \<and> (4::nat) < length (nodes tree_splitter)
   \<and> TagCount (nodes tree_splitter ! 4) = 0
   \<and> node_tags tree_splitter 4 = [] \<and> node_tags tree_splitter 3 = [3]
   \<and> (\<exists>t'. moveTags tree_splitter 3 4 = Inr t' \<and> node_tags t' 4 = [3]
          \<and> TagCount (nodes t' ! 3) = 0 \<and> node_tags t' 3 = [])"
  using moveTags_to_destination_without_tags [of 3 tree_splitter 4]
  by (simp add: tree_splitter_def mkNode_def node_tags_def tagAt_def tagKey_def)

section \<open>Delete: absent addresses and the two-children compaction\<close>

lemma delete_find_absent:
  "absent t nodeIndex address \<Longrightarrow>
   delete_find t parentIndex nodeIndex address = Some (Inr NotFound)"
proof (induction arbitrary: parentIndex rule: absent.induct)
  case (absent_zero address)
  show ?case by (subst delete_find.simps) simp
next
  case (absent_short nodeIndex address)
  then show ?case by (subst delete_find.simps) simp
next
  case (absent_step nodeIndex address address')
  show ?case
    using absent_step.hyps absent_step.IH [of nodeIndex]
    by (subst delete_find.simps) (simp split: if_splits)
qed

text \<open>
  C6: for a tree with a root and an address of non-zero length that is absent below the
  root's child on the address's side, \<open>Delete\<close> returns, removes nothing and leaves the tree
  (arena, tag store, available indexes) as it was, whatever the match function and value.
\<close>

theorem Delete_absent_address:
  assumes "1 < length (nodes t)" and "Length a \<noteq> 0"
    and "absent t (if Address a < leftmost32Bit then Left (nodes t ! 1)
                   else Right (nodes t ! 1)) a"
  shows "Delete t (Some a) f v = Some (Inr (0, t))"
  using assms by (simp add: Delete_def delete_find_absent)

theorem Delete_absent_address_witness:
  "1 < length (nodes tree_one_prefix)
   \<and> Length \<lparr>Address = 0x0B000000, Length = 8\<rparr> \<noteq> 0
   \<and> Delete tree_one_prefix (Some \<lparr>Address = 0x0B000000, Length = 8\<rparr>) (Some matchAll) 0
       = Some (Inr (0, tree_one_prefix))"
proof -
  have "absent tree_one_prefix 2 \<lparr>Address = 0x0B000000, Length = 8\<rparr>"
    by (rule absent_short) (simp_all add: eval_defs)
  then have "absent tree_one_prefix
               (if Address \<lparr>Address = 0x0B000000, Length = 8\<rparr> < leftmost32Bit
                then Left (nodes tree_one_prefix ! 1) else Right (nodes tree_one_prefix ! 1))
               \<lparr>Address = 0x0B000000, Length = 8\<rparr>"
    by (simp add: eval_defs)
  from Delete_absent_address [OF _ _ this, of "Some matchAll" 0]
  show ?thesis by (simp add: tree_one_prefix_def)
qed

lemma delete_find_Found_aux:
  "delete_find t p0 n a = Some y \<Longrightarrow>
     (\<forall>p tgt. y = Inr (Found p tgt) \<longrightarrow>
        tgt \<noteq> 0 \<and> tgt < length (nodes t) \<and> (p = p0 \<or> (p \<noteq> 0 \<and> p < length (nodes t))))"
proof (induction rule: delete_find.raw_induct [rotated 1, consumes 1])
  case (1 delete_find t parentIndex nodeIndex address y)
  show ?case
    using "1.hyps"
    by (auto split: if_splits dest!: "1.IH")
qed

lemma delete_find_Found:
  "delete_find t p0 n a = Some (Inr (Found p tgt)) \<Longrightarrow>
     tgt \<noteq> 0 \<and> tgt < length (nodes t) \<and> (p = p0 \<or> (p \<noteq> 0 \<and> p < length (nodes t)))"
  using delete_find_Found_aux by blast

lemma putBack_all_match:
  "\<forall>tag\<in>set tgs. f tag v \<Longrightarrow>
   putBack t n v (Some f) tgs d k = Inr (d + length tgs, k, t)"
  by (induction tgs arbitrary: d) auto

lemma deleteTag_all_match:
  assumes "n < length (nodes t)" and "\<forall>tag\<in>set (node_tags t n). f tag v"
  shows "\<exists>t1. deleteTag t n v (Some f) = Inr (TagCount (nodes t ! n), 0, t1)
           \<and> nodes t1 = (nodes t)[n := (nodes t ! n)\<lparr>TagCount := 0\<rparr>]
           \<and> availableIndexes t1 = availableIndexes t"
  using assms
  by (simp add: deleteTag_def Let_def putBack_all_match setTagCount_def node_tags_def)

text \<open>
  C9 as stated fails on a target without tags. In \<open>tree_splitter\<close> the traversal for
  \<open>10.0.0.0/16\<close> ends at node 4 with parent 2; node 4 has no tags and two children, node 2
  is not the root and has node 4 as its only child. \<open>Delete\<close> returns 0 and the tree is
  unchanged: node 4 is not absorbed and its index is not released.
\<close>

theorem Delete_target_without_tags_not_compacted:
  "delete_find tree_splitter 1 (Left (nodes tree_splitter ! 1))
     \<lparr>Address = 0x0A000000, Length = 16\<rparr> = Some (Inr (Found 2 4))
   \<and> TagCount (nodes tree_splitter ! 4) = 0
   \<and> Left (nodes tree_splitter ! 4) = 3 \<and> Right (nodes tree_splitter ! 4) = 5
   \<and> Left (nodes tree_splitter ! 2) = 4 \<and> Right (nodes tree_splitter ! 2) = 0
   \<and> Delete tree_splitter (Some \<lparr>Address = 0x0A000000, Length = 16\<rparr>) (Some matchAll) 0
       = Some (Inr (0, tree_splitter))"
  by (simp add: eval_defs)

text \<open>
  The target has a tag, the match function selects all its tags, the target has two
  children, and its parent is not the root and has a zero child pointer: \<open>Delete\<close> returns
  the number of the target's tags and, in the new tree, the parent has the target's children
  and the merged prefix, the target's child pointers are cleared and its index is the last
  of the available indexes.
\<close>

lemma Delete_absorbs_tagged:
  assumes root: "1 < length (nodes t)" and len: "Length a \<noteq> 0"
    and found: "delete_find t 1 (if Address a < leftmost32Bit then Left (nodes t ! 1)
                                 else Right (nodes t ! 1)) a
                = Some (Inr (Found parentIndex targetNodeIndex))"
    and nonroot: "targetNodeIndex \<noteq> 1"
    and tagged: "0 < TagCount (nodes t ! targetNodeIndex)"
    and allmatch: "\<forall>tag\<in>set (node_tags t targetNodeIndex). f tag v"
    and two: "Left (nodes t ! targetNodeIndex) \<noteq> 0" "Right (nodes t ! targetNodeIndex) \<noteq> 0"
    and parent: "1 < parentIndex"
    and only: "Left (nodes t ! parentIndex) = 0 \<or> Right (nodes t ! parentIndex) = 0"
  shows "\<exists>t'. Delete t (Some a) (Some f) v
                 = Some (Inr (TagCount (nodes t ! targetNodeIndex), t'))
           \<and> Left (nodes t' ! parentIndex) = Left (nodes t ! targetNodeIndex)
           \<and> Right (nodes t' ! parentIndex) = Right (nodes t ! targetNodeIndex)
           \<and> (prefix (nodes t' ! parentIndex), prefixLength (nodes t' ! parentIndex))
               = MergePrefixes32 (prefix (nodes t ! parentIndex))
                   (prefixLength (nodes t ! parentIndex))
                   (prefix (nodes t ! targetNodeIndex))
                   (prefixLength (nodes t ! targetNodeIndex))
           \<and> Left (nodes t' ! targetNodeIndex) = 0 \<and> Right (nodes t' ! targetNodeIndex) = 0
           \<and> availableIndexes t' = availableIndexes t @ [targetNodeIndex]"
proof -
  from delete_find_Found [OF found] root
  have tr: "targetNodeIndex < length (nodes t)" and pr: "parentIndex < length (nodes t)"
    by auto
  from two only have ne: "parentIndex \<noteq> targetNodeIndex" by auto
  from deleteTag_all_match [where f = f and v = v, OF tr allmatch] obtain t1 where
    dt: "deleteTag t targetNodeIndex v (Some f) = Inr (TagCount (nodes t ! targetNodeIndex), 0, t1)"
    and n1: "nodes t1 = (nodes t)[targetNodeIndex := (nodes t ! targetNodeIndex)\<lparr>TagCount := 0\<rparr>]"
    and a1: "availableIndexes t1 = availableIndexes t"
    by blast
  have c: "compact t1 parentIndex targetNodeIndex
            = Inr (releaseTarget (absorbTarget t1 parentIndex targetNodeIndex) targetNodeIndex)"
    using two only parent ne tr pr by (auto simp add: compact_def n1)
  show ?thesis
    using root len found nonroot tagged dt c ne tr pr a1
    by (simp add: Delete_def delete_target_def releaseTarget_def absorbTarget_def Let_def
        setLeft_def setRight_def setPrefix_def n1)
qed

text \<open>The guard of line 322: a target without tags ends the call before \<open>deleteTag\<close> and
  before the compaction, whatever the match function (a nil one included) and value.\<close>

lemma Delete_leaves_untagged_target:
  assumes "1 < length (nodes t)" and "Length a \<noteq> 0"
    and "delete_find t 1 (if Address a < leftmost32Bit then Left (nodes t ! 1)
                          else Right (nodes t ! 1)) a
         = Some (Inr (Found parentIndex targetNodeIndex))"
    and "TagCount (nodes t ! targetNodeIndex) = 0"
  shows "Delete t (Some a) g w = Some (Inr (0, t))"
  using assms by (simp add: Delete_def delete_target_def)

text \<open>
  C9, amended: the compaction is applied to a target that carries at least one tag before
  the call, and a target that carries no tag is left untouched. For every \<open>Delete\<close> call
  whose traversal ends at a target: if the target has no tags, \<open>Delete\<close> returns 0 and the
  tree (arena, tag store, available indexes) is as it was, whatever the match function and
  value; if the target is not the root and has a tag, the match function selects all its
  tags (no tags remain), the target has two children, and its parent is not the root and has
  a zero child pointer (the target is its only child), then \<open>Delete\<close> returns the number
  of the target's tags and, in the new tree, the parent has the target's children and the
  merged prefix, the target's child pointers are cleared and its index is the last of the
  available indexes.
\<close>

theorem Delete_absorbs_tagged_target:
  assumes root: "1 < length (nodes t)" and len: "Length a \<noteq> 0"
    and found: "delete_find t 1 (if Address a < leftmost32Bit then Left (nodes t ! 1)
                                 else Right (nodes t ! 1)) a
                = Some (Inr (Found parentIndex targetNodeIndex))"
  shows "(TagCount (nodes t ! targetNodeIndex) = 0 \<longrightarrow>
            Delete t (Some a) g w = Some (Inr (0, t)))
       \<and> (targetNodeIndex \<noteq> 1 \<and> 0 < TagCount (nodes t ! targetNodeIndex)
            \<and> (\<forall>tag\<in>set (node_tags t targetNodeIndex). f tag v)
            \<and> Left (nodes t ! targetNodeIndex) \<noteq> 0 \<and> Right (nodes t ! targetNodeIndex) \<noteq> 0
            \<and> 1 < parentIndex
            \<and> (Left (nodes t ! parentIndex) = 0 \<or> Right (nodes t ! parentIndex) = 0) \<longrightarrow>
          (\<exists>t'. Delete t (Some a) (Some f) v
                   = Some (Inr (TagCount (nodes t ! targetNodeIndex), t'))
             \<and> Left (nodes t' ! parentIndex) = Left (nodes t ! targetNodeIndex)
             \<and> Right (nodes t' ! parentIndex) = Right (nodes t ! targetNodeIndex)
             \<and> (prefix (nodes t' ! parentIndex), prefixLength (nodes t' ! parentIndex))
                 = MergePrefixes32 (prefix (nodes t ! parentIndex))
                     (prefixLength (nodes t ! parentIndex))
                     (prefix (nodes t ! targetNodeIndex))
                     (prefixLength (nodes t ! targetNodeIndex))
             \<and> Left (nodes t' ! targetNodeIndex) = 0 \<and> Right (nodes t' ! targetNodeIndex) = 0
             \<and> availableIndexes t' = availableIndexes t @ [targetNodeIndex]))"
proof (intro conjI impI)
  assume "TagCount (nodes t ! targetNodeIndex) = 0"
  with root len found show "Delete t (Some a) g w = Some (Inr (0, t))"
    by (rule Delete_leaves_untagged_target)
next
  assume h: "targetNodeIndex \<noteq> 1 \<and> 0 < TagCount (nodes t ! targetNodeIndex)
            \<and> (\<forall>tag\<in>set (node_tags t targetNodeIndex). f tag v)
            \<and> Left (nodes t ! targetNodeIndex) \<noteq> 0 \<and> Right (nodes t ! targetNodeIndex) \<noteq> 0
            \<and> 1 < parentIndex
            \<and> (Left (nodes t ! parentIndex) = 0 \<or> Right (nodes t ! parentIndex) = 0)"
  show "\<exists>t'. Delete t (Some a) (Some f) v
                   = Some (Inr (TagCount (nodes t ! targetNodeIndex), t'))
             \<and> Left (nodes t' ! parentIndex) = Left (nodes t ! targetNodeIndex)
             \<and> Right (nodes t' ! parentIndex) = Right (nodes t ! targetNodeIndex)
             \<and> (prefix (nodes t' ! parentIndex), prefixLength (nodes t' ! parentIndex))
                 = MergePrefixes32 (prefix (nodes t ! parentIndex))
                     (prefixLength (nodes t ! parentIndex))
                     (prefix (nodes t ! targetNodeIndex))
                     (prefixLength (nodes t ! targetNodeIndex))
             \<and> Left (nodes t' ! targetNodeIndex) = 0 \<and> Right (nodes t' ! targetNodeIndex) = 0
             \<and> availableIndexes t' = availableIndexes t @ [targetNodeIndex]"
    by (rule Delete_absorbs_tagged [OF root len found]) (use h in simp_all)
qed

theorem Delete_absorbs_tagged_target_witness:
  "delete_find tree_chain 1 (Left (nodes tree_chain ! 1)) \<lparr>Address = 0x0A000000, Length = 16\<rparr>
     = Some (Inr (Found 2 3))
   \<and> node_tags tree_chain 3 = [2]
   \<and> Left (nodes tree_chain ! 3) = 4 \<and> Right (nodes tree_chain ! 3) = 5
   \<and> Right (nodes tree_chain ! 2) = 0
   \<and> (\<exists>t'. Delete tree_chain (Some \<lparr>Address = 0x0A000000, Length = 16\<rparr>) (Some matchAll) 0
               = Some (Inr (1, t'))
          \<and> Left (nodes t' ! 2) = 4 \<and> Right (nodes t' ! 2) = 5
          \<and> prefix (nodes t' ! 2) = 0x0A000000 \<and> prefixLength (nodes t' ! 2) = 16
          \<and> Left (nodes t' ! 3) = 0 \<and> Right (nodes t' ! 3) = 0
          \<and> availableIndexes t' = [3])
   \<and> delete_find tree_splitter 1 (Left (nodes tree_splitter ! 1))
       \<lparr>Address = 0x0A000000, Length = 16\<rparr> = Some (Inr (Found 2 4))
   \<and> TagCount (nodes tree_splitter ! 4) = 0
   \<and> Delete tree_splitter (Some \<lparr>Address = 0x0A000000, Length = 16\<rparr>) None 0
       = Some (Inr (0, tree_splitter))"
proof -
  let ?a = "\<lparr>Address = 0x0A000000, Length = 16\<rparr>"
  have found: "delete_find tree_chain 1
      (if Address ?a < leftmost32Bit
       then Left (nodes tree_chain ! 1) else Right (nodes tree_chain ! 1))
      ?a = Some (Inr (Found 2 3))"
    by (simp add: eval_defs)
  have found': "delete_find tree_splitter 1
      (if Address ?a < leftmost32Bit
       then Left (nodes tree_splitter ! 1) else Right (nodes tree_splitter ! 1))
      ?a = Some (Inr (Found 2 4))"
    by (simp add: eval_defs)
  have facts: "1 < length (nodes tree_chain)" "Length ?a \<noteq> 0"
    "(3::nat) \<noteq> 1 \<and> 0 < TagCount (nodes tree_chain ! 3)
     \<and> (\<forall>tag\<in>set (node_tags tree_chain 3). matchAll tag 0)
     \<and> Left (nodes tree_chain ! 3) \<noteq> 0 \<and> Right (nodes tree_chain ! 3) \<noteq> 0 \<and> (1::nat) < 2
     \<and> (Left (nodes tree_chain ! 2) = 0 \<or> Right (nodes tree_chain ! 2) = 0)"
    "1 < length (nodes tree_splitter)" "TagCount (nodes tree_splitter ! 4) = 0"
    by (simp_all add: tree_chain_def tree_splitter_def mkNode_def matchAll_def)
  have vals: "TagCount (nodes tree_chain ! 3) = 1" "Left (nodes tree_chain ! 3) = 4"
    "Right (nodes tree_chain ! 3) = 5" "availableIndexes tree_chain = []"
    "MergePrefixes32 (prefix (nodes tree_chain ! 2)) (prefixLength (nodes tree_chain ! 2))
       (prefix (nodes tree_chain ! 3)) (prefixLength (nodes tree_chain ! 3)) = (0x0A000000, 16)"
    "Right (nodes tree_chain ! 2) = 0" "node_tags tree_chain 3 = [2]"
    "delete_find tree_chain 1 (Left (nodes tree_chain ! 1)) ?a = Some (Inr (Found 2 3))"
    "delete_find tree_splitter 1 (Left (nodes tree_splitter ! 1)) ?a = Some (Inr (Found 2 4))"
    by (simp_all add: eval_defs)
  from Delete_absorbs_tagged_target [of tree_chain ?a 2 3 None 0 matchAll 0,
      OF facts(1,2) found] facts(3)
  have tagged: "\<exists>t'. Delete tree_chain (Some ?a) (Some matchAll) 0
                   = Some (Inr (TagCount (nodes tree_chain ! 3), t'))
             \<and> Left (nodes t' ! 2) = Left (nodes tree_chain ! 3)
             \<and> Right (nodes t' ! 2) = Right (nodes tree_chain ! 3)
             \<and> (prefix (nodes t' ! 2), prefixLength (nodes t' ! 2))
                 = MergePrefixes32 (prefix (nodes tree_chain ! 2))
                     (prefixLength (nodes tree_chain ! 2))
                     (prefix (nodes tree_chain ! 3))
                     (prefixLength (nodes tree_chain ! 3))
             \<and> Left (nodes t' ! 3) = 0 \<and> Right (nodes t' ! 3) = 0
             \<and> availableIndexes t' = availableIndexes tree_chain @ [3]"
    by blast
  from Delete_absorbs_tagged_target [of tree_splitter ?a 2 4 None 0 matchAll 0,
      OF facts(4,2) found'] facts(5)
  have untagged: "Delete tree_splitter (Some ?a) None 0 = Some (Inr (0, tree_splitter))"
    by blast
  from tagged untagged show ?thesis unfolding vals using facts(5) by auto
qed

section \<open>Lookups follow the matching path\<close>

lemma length_bits [simp]: "length (bits n w) = n"
  by (induction n arbitrary: w) auto

lemma bits_push_bit: "bits n (push_bit m w) = drop m (bits (m + n) w)"
proof (induction m arbitrary: w)
  case 0
  then show ?case by simp
next
  case (Suc m)
  have "push_bit (Suc m) w = push_bit m (push_bit 1 w)"
    by (simp add: push_bit_double) 
  then show ?case using Suc [of "push_bit 1 w"] by simp
qed

lemma take_bits: "j \<le> n \<Longrightarrow> take j (bits n w) = bits j w"
proof (induction j arbitrary: n w)
  case 0
  then show ?case by simp
next
  case (Suc j)
  then obtain n' where "n = Suc n'" by (cases n) auto
  with Suc show ?case by simp
qed

lemma less_leftmost32Bit: "(w < leftmost32Bit) = (\<not> bit w 31)"
proof -
  have "(drop_bit 31 w = 0) = (\<not> bit w 31)"
    using drop_bit_eq_zero_iff_not_bit_last [of w] by simp
  moreover have "(drop_bit 31 w = 0) = (unat (drop_bit 31 w) = 0)"
    by (simp add: unat_eq_0)
  moreover have "unat (drop_bit 31 w) = unat w div 2 ^ 31"
    by (simp add: unat_drop_bit_eq drop_bit_eq_div unat_div)
  moreover have "(w < leftmost32Bit) = (unat w < 2 ^ 31)"
    by (simp add: leftmost32Bit_def word_less_nat_alt)
  ultimately show ?thesis
    by (simp add: div_eq_0_iff)
qed

lemma leading_match_full: "(leading_match k a b = k) = (bits k a = bits k b)"
proof (induction k a b rule: leading_match.induct)
  case (1 a b)
  then show ?case by simp
next
  case (2 k a b)
  then show ?case by auto
qed


lemma MatchCount_full_iff:
  "(\<not> MatchCount node a < prefixLength node) = is_prefix (node_bits node) (addr_bits a)"
proof (cases "prefixLength node \<le> Length a")
  case True
  then have m: "min (Length a) (prefixLength node) = prefixLength node" by simp
  have "(\<not> MatchCount node a < prefixLength node) = (MatchCount node a = prefixLength node)"
    using MatchCount_le_prefixLength [of node a] by auto
  also have "\<dots> = (bits (prefixLength node) (Address a) = bits (prefixLength node) (prefix node))"
    by (simp add: MatchCount_def m leading_match_full)
  also have "\<dots> = is_prefix (node_bits node) (addr_bits a)"
    using True by (auto simp add: is_prefix_def node_bits_def addr_bits_def take_bits)
  finally show ?thesis .
next
  case False
  then have "MatchCount node a < prefixLength node"
    using MatchCount_le_Length [of node a] by simp
  moreover have "\<not> is_prefix (node_bits node) (addr_bits a)"
  proof
    assume "is_prefix (node_bits node) (addr_bits a)"
    then have "length (take (length (node_bits node)) (addr_bits a)) = length (node_bits node)"
      by (simp add: is_prefix_def)
    with False show False by (simp add: node_bits_def addr_bits_def)
  qed
  ultimately show ?thesis by simp
qed

lemma addr_bits_ShiftLeft:
  "m \<le> Length a \<Longrightarrow> addr_bits (ShiftLeft a m) = drop m (addr_bits a)"
  by (simp add: addr_bits_def ShiftLeft_def bits_push_bit)

lemma bits_nth_0: "0 < n \<Longrightarrow> bits n w ! 0 = bit w 31"
  by (cases n) auto

lemma Address_less_leftmost:
  "0 < Length a \<Longrightarrow> (Address a < leftmost32Bit) = (\<not> addr_bits a ! 0)"
  by (simp add: less_leftmost32Bit addr_bits_def bits_nth_0)

lemma is_prefix_append:
  "is_prefix acc abits \<Longrightarrow>
   is_prefix (acc @ xs) abits = is_prefix xs (drop (length acc) abits)"
  by (auto simp add: is_prefix_def take_add append_eq_conv_conj)

lemma path_from_full: "path_from t abits i abits ps \<Longrightarrow> ps = []"
  by (erule path_from.cases) auto

lemma node_tags_no_tags: "TagCount (nodes t ! i) = 0 \<Longrightarrow> node_tags t i = []"
  by (simp add: node_tags_def)

lemma findTags_loop_path:
  assumes "path_from t abits i acc ps"
    and "length acc < length abits" and "is_prefix acc abits"
    and "addr_bits a = drop (length acc) abits"
  shows "findTags_loop t (next_child t abits i (length acc)) a ret
         = Some (Inr (ret @ concat (map (node_tags t) ps)))"
  using assms
proof (induction arbitrary: a ret rule: path_from.induct)
  case (path_end acc i)
  then show ?case by simp
next
  case (path_no_child acc i)
  then show ?case by (subst findTags_loop.simps) simp
next
  case (path_mismatch acc c i)
  have "\<not> is_prefix (node_bits (nodes t ! c)) (addr_bits a)"
    using path_mismatch.hyps(5) path_mismatch.prems
    by (simp add: is_prefix_append)
  then have "MatchCount (nodes t ! c) a < prefixLength (nodes t ! c)"
    using MatchCount_full_iff by blast
  then show ?case
    using path_mismatch.hyps by (subst findTags_loop.simps) simp
next
  case (path_step acc c i ps)
  let ?n = "nodes t ! c"
  let ?m = "MatchCount ?n a"
  have pre: "is_prefix (node_bits ?n) (addr_bits a)"
    using path_step.hyps(5) path_step.prems by (simp add: is_prefix_append)
  then have full: "\<not> ?m < prefixLength ?n"
    using MatchCount_full_iff by blast
  then have m: "?m = prefixLength ?n"
    using MatchCount_le_prefixLength [of ?n a] by simp
  have La: "Length a = length abits - length acc"
    using arg_cong [OF path_step.prems(3), of length] by (simp add: addr_bits_def)
  have tg: "(if 0 < TagCount ?n then ret @ node_tags t c else ret) = ret @ node_tags t c"
    by (simp add: node_tags_no_tags)
  show ?case
  proof (cases "?m = Length a")
    case True
    have "length (acc @ node_bits ?n) = length abits"
      using True m La path_step.prems by (simp add: node_bits_def)
    with path_step.hyps(5) have "acc @ node_bits ?n = abits"
      by (simp add: is_prefix_def)
    with path_step.hyps(6) have "ps = []"
      using path_from_full by simp
    moreover have "findTags_loop t c a ret = Some (Inr (ret @ node_tags t c))"
      using path_step.hyps(3,4) full True tg
      by (subst findTags_loop.simps) simp
    ultimately show ?thesis
      using path_step.hyps(2) by simp
  next
    case False
    let ?a' = "ShiftLeft a ?m"
    let ?acc' = "acc @ node_bits ?n"
    have lt: "?m < Length a"
      using False MatchCount_le_Length [of ?n a] by simp
    have len': "length ?acc' < length abits"
      using lt m La by (simp add: node_bits_def)
    have ab': "addr_bits ?a' = drop (length ?acc') abits"
      using lt path_step.prems(3) m
      by (simp add: addr_bits_ShiftLeft node_bits_def add.commute)
    have pos: "0 < Length ?a'"
      using lt by (simp add: ShiftLeft_def)
    have side: "(if Address ?a' < leftmost32Bit then Left ?n else Right ?n)
                = next_child t abits c (length ?acc')"
      using pos ab' len'
      by (simp add: Address_less_leftmost next_child_def)
    have IH: "findTags_loop t (next_child t abits c (length ?acc')) ?a' (ret @ node_tags t c)
              = Some (Inr ((ret @ node_tags t c) @ concat (map (node_tags t) ps)))"
      by (rule path_step.IH [OF len' path_step.hyps(5) ab'])
    have "findTags_loop t c a ret
          = findTags_loop t (if Address ?a' < leftmost32Bit then Left ?n else Right ?n) ?a'
              (ret @ node_tags t c)"
      using path_step.hyps(3,4) full False tg
      by (subst findTags_loop.simps) simp
    then show ?thesis
      using IH side path_step.hyps(2) by simp
  qed
qed


lemma path_from_unique:
  "path_from t abits i acc ps \<Longrightarrow> path_from t abits i acc ps' \<Longrightarrow> ps = ps'"
proof (induction arbitrary: ps' rule: path_from.induct)
  case (path_end acc i)
  then show ?case using path_from_full [of t abits i ps'] by simp
next
  case (path_no_child acc i)
  from path_no_child.prems show ?case
  proof (cases rule: path_from.cases)
    case path_end
    with path_no_child.hyps show ?thesis by simp
  next
    case path_no_child
    then show ?thesis by simp
  next
    case (path_mismatch c)
    then show ?thesis by simp
  next
    case (path_step c ps)
    with path_no_child.hyps show ?thesis by simp
  qed
next
  case (path_mismatch acc c i)
  from path_mismatch.prems show ?case
  proof (cases rule: path_from.cases)
    case path_end
    with path_mismatch.hyps show ?thesis by simp
  next
    case path_no_child
    then show ?thesis by simp
  next
    case (path_mismatch c)
    then show ?thesis by simp
  next
    case (path_step c' ps)
    with path_mismatch.hyps show ?thesis by simp
  qed
next
  case (path_step acc c i ps)
  from path_step.prems show ?case
  proof (cases rule: path_from.cases)
    case path_end
    with path_step.hyps show ?thesis by simp
  next
    case path_no_child
    with path_step.hyps show ?thesis by simp
  next
    case (path_mismatch c')
    with path_step.hyps show ?thesis by simp
  next
    case (path_step c' ps'')
    with path_step.hyps(2) have "c' = c" by simp
    with path_step path_step.IH [of ps''] show ?thesis by simp
  qed
qed

text \<open>
  C3: on a tree with a root, \<open>FindTags\<close> returns, and its result is the concatenation of
  the tags of the nodes of the matching path of the address (the root first, then each
  node whose accumulated prefix is a prefix of the address, outermost first), each node's
  tags in slot order.
\<close>

theorem FindTags_matching_path:
  assumes "1 < length (nodes t)" and "matching_path t a ps"
  shows "FindTags t (Some a) = Some (Inr (concat (map (node_tags t) ps)))"
proof -
  from assms(2) obtain ps' where ps: "ps = 1 # ps'" and p: "path_from t (addr_bits a) 1 [] ps'"
    by (auto simp add: matching_path_def)
  have root: "(if 0 < TagCount (nodes t ! 1) then node_tags t 1 else []) = node_tags t 1"
    by (simp add: node_tags_no_tags)
  show ?thesis
  proof (cases "Length a = 0")
    case True
    then have "addr_bits a = []" by (simp add: addr_bits_def)
    with p have "ps' = []" using path_from_full [of t "[]" 1 ps'] by simp
    with True assms(1) ps root show ?thesis by (simp add: FindTags_def)
  next
    case False
    then have pos: "0 < Length a" by simp
    have "findTags_loop t (next_child t (addr_bits a) 1 (length ([]::bool list))) a (node_tags t 1)
          = Some (Inr (node_tags t 1 @ concat (map (node_tags t) ps')))"
      by (rule findTags_loop_path [OF p]) (use pos in \<open>simp_all add: is_prefix_def addr_bits_def\<close>)
    moreover have "(if Address a < leftmost32Bit then Left (nodes t ! 1) else Right (nodes t ! 1))
                   = next_child t (addr_bits a) 1 0"
      using pos by (simp add: Address_less_leftmost next_child_def)
    ultimately show ?thesis
      using False assms(1) ps root by (simp add: FindTags_def)
  qed
qed


lemma firstTagForNode_hd:
  "0 < TagCount (nodes t ! i) \<Longrightarrow> firstTagForNode t i = hd (node_tags t i)"
  by (simp add: firstTagForNode_def node_tags_def hd_map upt_conv_Cons)

lemma foldl_keep_best:
  "foldl (keep_best t) best ps =
     (if tagged_nodes t ps = [] then best
      else (True, hd (node_tags t (last (tagged_nodes t ps)))))"
proof (induction ps arbitrary: best)
  case Nil
  then show ?case by (simp add: tagged_nodes_def)
next
  case (Cons i ps)
  then show ?case
    by (simp add: tagged_nodes_def keep_best_def firstTagForNode_hd)
qed

lemma findDeepestTag_loop_path:
  assumes "path_from t abits i acc ps"
    and "length acc < length abits" and "is_prefix acc abits"
    and "addr_bits a = drop (length acc) abits"
  shows "findDeepestTag_loop t (next_child t abits i (length acc)) a best
         = Some (Inr (foldl (keep_best t) best ps))"
  using assms
proof (induction arbitrary: a best rule: path_from.induct)
  case (path_end acc i)
  then show ?case by simp
next
  case (path_no_child acc i)
  then show ?case by (subst findDeepestTag_loop.simps) simp
next
  case (path_mismatch acc c i)
  have "\<not> is_prefix (node_bits (nodes t ! c)) (addr_bits a)"
    using path_mismatch.hyps(5) path_mismatch.prems
    by (simp add: is_prefix_append)
  then have "MatchCount (nodes t ! c) a < prefixLength (nodes t ! c)"
    using MatchCount_full_iff by blast
  then show ?case
    using path_mismatch.hyps by (subst findDeepestTag_loop.simps) simp
next
  case (path_step acc c i ps)
  let ?n = "nodes t ! c"
  let ?m = "MatchCount ?n a"
  have pre: "is_prefix (node_bits ?n) (addr_bits a)"
    using path_step.hyps(5) path_step.prems by (simp add: is_prefix_append)
  then have full: "\<not> ?m < prefixLength ?n"
    using MatchCount_full_iff by blast
  then have m: "?m = prefixLength ?n"
    using MatchCount_le_prefixLength [of ?n a] by simp
  have La: "Length a = length abits - length acc"
    using arg_cong [OF path_step.prems(3), of length] by (simp add: addr_bits_def)
  have kb: "(if 0 < TagCount ?n then (True, firstTagForNode t c) else best) = keep_best t best c"
    by (simp add: keep_best_def)
  show ?case
  proof (cases "?m = Length a")
    case True
    have "length (acc @ node_bits ?n) = length abits"
      using True m La path_step.prems by (simp add: node_bits_def)
    with path_step.hyps(5) have "acc @ node_bits ?n = abits"
      by (simp add: is_prefix_def)
    with path_step.hyps(6) have "ps = []"
      using path_from_full by simp
    moreover have "findDeepestTag_loop t c a best = Some (Inr (keep_best t best c))"
      using path_step.hyps(3,4) full True kb
      by (subst findDeepestTag_loop.simps) simp
    ultimately show ?thesis
      using path_step.hyps(2) by simp
  next
    case False
    let ?a' = "ShiftLeft a ?m"
    let ?acc' = "acc @ node_bits ?n"
    have lt: "?m < Length a"
      using False MatchCount_le_Length [of ?n a] by simp
    have len': "length ?acc' < length abits"
      using lt m La by (simp add: node_bits_def)
    have ab': "addr_bits ?a' = drop (length ?acc') abits"
      using lt path_step.prems(3) m
      by (simp add: addr_bits_ShiftLeft node_bits_def add.commute)
    have pos: "0 < Length ?a'"
      using lt by (simp add: ShiftLeft_def)
    have side: "(if Address ?a' < leftmost32Bit then Left ?n else Right ?n)
                = next_child t abits c (length ?acc')"
      using pos ab' len'
      by (simp add: Address_less_leftmost next_child_def)
    have IH: "findDeepestTag_loop t (next_child t abits c (length ?acc')) ?a' (keep_best t best c)
              = Some (Inr (foldl (keep_best t) (keep_best t best c) ps))"
      by (rule path_step.IH [OF len' path_step.hyps(5) ab'])
    have "findDeepestTag_loop t c a best
          = findDeepestTag_loop t (if Address ?a' < leftmost32Bit then Left ?n else Right ?n) ?a'
              (keep_best t best c)"
      using path_step.hyps(3,4) full False kb
      by (subst findDeepestTag_loop.simps) simp
    then show ?thesis
      using IH side path_step.hyps(2) by simp
  qed
qed

text \<open>
  C4: on a tree with a root and for an address that is not nil, \<open>FindDeepestTag\<close>
  returns, and its result is \<open>(True, tag)\<close> with the first tag of the deepest node of the
  matching path that has a tag, or \<open>(False, 0)\<close> when no node of the path has one.
\<close>

theorem FindDeepestTag_matching_path:
  assumes "1 < length (nodes t)" and "matching_path t a ps"
  shows "FindDeepestTag t (Some a) = Some (Inr (deepest_tag t ps))"
proof -
  from assms(2) obtain ps' where ps: "ps = 1 # ps'" and p: "path_from t (addr_bits a) 1 [] ps'"
    by (auto simp add: matching_path_def)
  have root: "(if 0 < TagCount (nodes t ! 1) then (True, firstTagForNode t 1) else (False, 0))
              = keep_best t (False, 0) 1"
    by (simp add: keep_best_def)
  have spec: "deepest_tag t ps = foldl (keep_best t) (keep_best t (False, 0) 1) ps'"
    using foldl_keep_best [of t "(False, 0)" ps] by (simp add: deepest_tag_def ps)
  show ?thesis
  proof (cases "Length a = 0")
    case True
    then have "addr_bits a = []" by (simp add: addr_bits_def)
    with p have "ps' = []" using path_from_full [of t "[]" 1 ps'] by simp
    with True assms(1) spec root show ?thesis by (simp add: FindDeepestTag_def)
  next
    case False
    then have pos: "0 < Length a" by simp
    have "findDeepestTag_loop t (next_child t (addr_bits a) 1 (length ([]::bool list))) a
            (keep_best t (False, 0) 1)
          = Some (Inr (foldl (keep_best t) (keep_best t (False, 0) 1) ps'))"
      by (rule findDeepestTag_loop_path [OF p]) (use pos in \<open>simp_all add: is_prefix_def addr_bits_def\<close>)
    moreover have "(if Address a < leftmost32Bit then Left (nodes t ! 1) else Right (nodes t ! 1))
                   = next_child t (addr_bits a) 1 0"
      using pos by (simp add: Address_less_leftmost next_child_def)
    ultimately show ?thesis
      using False assms(1) spec root by (simp add: FindDeepestTag_def)
  qed
qed

lemma bits_numeral:
  "bits (numeral k) w = bit w 31 # bits (pred_numeral k) (push_bit 1 w)"
  by (simp add: numeral_eq_Suc)

lemma tree_chain_path:
  "matching_path tree_chain \<lparr>Address = 0x0A000005, Length = 32\<rparr> [1, 2, 3, 4]"
proof -
  have "path_from tree_chain (addr_bits \<lparr>Address = 0x0A000005, Length = 32\<rparr>) 1 [] [2, 3, 4]"
    apply (rule path_step)
    apply (simp_all add: eval_defs next_child_def addr_bits_def node_bits_def bits_numeral is_prefix_def)
    apply (rule path_step)
  apply (simp_all add: eval_defs next_child_def addr_bits_def node_bits_def bits_numeral is_prefix_def)
    apply (rule path_step)
  apply (simp_all add: eval_defs next_child_def addr_bits_def node_bits_def bits_numeral is_prefix_def)
    apply (rule path_no_child)
     apply (simp_all add: eval_defs next_child_def addr_bits_def node_bits_def bits_numeral is_prefix_def)
    done
  then show ?thesis by (simp add: matching_path_def)
qed

theorem FindTags_matching_path_witness:
  "1 < length (nodes tree_chain)
   \<and> matching_path tree_chain \<lparr>Address = 0x0A000005, Length = 32\<rparr> [1, 2, 3, 4]
   \<and> FindTags tree_chain (Some \<lparr>Address = 0x0A000005, Length = 32\<rparr>) = Some (Inr [1, 2, 3])"
  using FindTags_matching_path [OF _ tree_chain_path] tree_chain_path
  by (simp add: tree_chain_def node_tags_def tagAt_def tagKey_def mkNode_def)


theorem FindDeepestTag_matching_path_witness:
  "1 < length (nodes tree_chain)
   \<and> matching_path tree_chain \<lparr>Address = 0x0A000005, Length = 32\<rparr> [1, 2, 3, 4]
   \<and> FindDeepestTag tree_chain (Some \<lparr>Address = 0x0A000005, Length = 32\<rparr>)
       = Some (Inr (True, 3))"
  using FindDeepestTag_matching_path [OF _ tree_chain_path] tree_chain_path
  by (simp add: tree_chain_def node_tags_def tagAt_def tagKey_def mkNode_def deepest_tag_def
      tagged_nodes_def)

section \<open>The structural invariant: footprints of subtrees\<close>

text \<open>
  The nodes below an index form a tree when the footprint of the left child, the footprint
  of the right child and the index itself are pairwise disjoint. The lemmas of this section
  are about footprints alone: they are unique, closed under children, and stay what they
  are when the arena changes elsewhere.
\<close>

lemma subtree_0: "subtree ns 0 S \<Longrightarrow> S = {}"
  by (erule subtree.cases) auto

lemma subtree_nodeE:
  assumes "subtree ns i S" and "i \<noteq> 0"
  obtains L R where "S = insert i (L \<union> R)" and "i < length ns"
    and "subtree ns (Left (ns ! i)) L" and "subtree ns (Right (ns ! i)) R"
    and "i \<notin> L" and "i \<notin> R" and "L \<inter> R = {}"
  using assms by (auto elim: subtree.cases)

lemma subtree_root_mem: "subtree ns i S \<Longrightarrow> i \<noteq> 0 \<Longrightarrow> i \<in> S"
  by (auto elim: subtree.cases)

lemma subtree_range: "subtree ns i S \<Longrightarrow> j \<in> S \<Longrightarrow> j \<noteq> 0 \<and> j < length ns"
  by (induction rule: subtree.induct) auto

lemma subtree_unique: "subtree ns i S \<Longrightarrow> subtree ns i S' \<Longrightarrow> S = S'"
proof (induction arbitrary: S' rule: subtree.induct)
  case subtree_empty
  then show ?case by (auto dest: subtree_0)
next
  case (subtree_node i L R)
  from subtree_node.prems subtree_node.hyps(1) obtain L' R' where
    "S' = insert i (L' \<union> R')" "subtree ns (Left (ns ! i)) L'" "subtree ns (Right (ns ! i)) R'"
    by (auto elim: subtree_nodeE)
  with subtree_node.IH show ?case by simp
qed

lemma subtree_sub:
  "subtree ns r S \<Longrightarrow> i \<in> S \<Longrightarrow> \<exists>Si. subtree ns i Si \<and> Si \<subseteq> S"
proof (induction rule: subtree.induct)
  case subtree_empty
  then show ?case by simp
next
  case (subtree_node r L R)
  show ?case
  proof (cases "i = r")
    case True
    then show ?thesis
      using subtree.subtree_node [OF subtree_node.hyps] by blast
  next
    case False
    with subtree_node.prems have "i \<in> L \<or> i \<in> R" by simp
    with subtree_node.IH show ?thesis by blast
  qed
qed

lemma subtree_children:
  assumes "subtree ns r S" and "i \<in> S"
  shows "(Left (ns ! i) = 0 \<or> Left (ns ! i) \<in> S) \<and> (Right (ns ! i) = 0 \<or> Right (ns ! i) \<in> S)"
proof -
  from subtree_sub [OF assms] obtain Si where si: "subtree ns i Si" "Si \<subseteq> S" by blast
  from subtree_range [OF assms] have "i \<noteq> 0" by simp
  with si(1) obtain L R where "Si = insert i (L \<union> R)"
    "subtree ns (Left (ns ! i)) L" "subtree ns (Right (ns ! i)) R"
    by (auto elim: subtree_nodeE)
  with si(2) show ?thesis
    using subtree_root_mem by blast
qed

lemma subtree_frame:
  "subtree ns r S \<Longrightarrow> (\<forall>j\<in>S. ns' ! j = ns ! j) \<Longrightarrow> length ns \<le> length ns' \<Longrightarrow>
   subtree ns' r S"
proof (induction rule: subtree.induct)
  case subtree_empty
  then show ?case by (simp add: subtree.subtree_empty)
next
  case (subtree_node i L R)
  have "ns' ! i = ns ! i" using subtree_node.prems by simp
  moreover have "subtree ns' (Left (ns ! i)) L" "subtree ns' (Right (ns ! i)) R"
    using subtree_node.IH subtree_node.prems by simp_all
  ultimately show ?case
    using subtree_node.hyps subtree_node.prems subtree.subtree_node [of i ns' L R]
    by simp
qed

lemma good_frame:
  assumes "subtree ns r S" and "i \<in> S" and "\<forall>j\<in>S. ns' ! j = ns ! j" and "good ns i"
  shows "good ns' i"
proof -
  from subtree_children [OF assms(1,2)] assms(3)
  have "Left (ns ! i) \<noteq> 0 \<longrightarrow> ns' ! Left (ns ! i) = ns ! Left (ns ! i)"
    "Right (ns ! i) \<noteq> 0 \<longrightarrow> ns' ! Right (ns ! i) = ns ! Right (ns ! i)"
    by auto
  moreover have "ns' ! i = ns ! i" using assms(2,3) by simp
  ultimately show ?thesis
    using assms(4) by (auto simp add: good_def child_bits_ok_def)
qed

section \<open>Allocation\<close>

lemma nodes_setLeft [simp]: "nodes (setLeft t i c) = (nodes t)[i := (nodes t ! i)\<lparr>Left := c\<rparr>]"
  and avail_setLeft [simp]: "availableIndexes (setLeft t i c) = availableIndexes t"
  and tags_setLeft [simp]: "tags (setLeft t i c) = tags t"
  by (simp_all add: setLeft_def)

lemma nodes_setRight [simp]: "nodes (setRight t i c) = (nodes t)[i := (nodes t ! i)\<lparr>Right := c\<rparr>]"
  and avail_setRight [simp]: "availableIndexes (setRight t i c) = availableIndexes t"
  and tags_setRight [simp]: "tags (setRight t i c) = tags t"
  by (simp_all add: setRight_def)

lemma nodes_setPrefix [simp]:
  "nodes (setPrefix t i pl) = (nodes t)[i := (nodes t ! i)\<lparr>prefix := fst pl, prefixLength := snd pl\<rparr>]"
  and avail_setPrefix [simp]: "availableIndexes (setPrefix t i pl) = availableIndexes t"
  and tags_setPrefix [simp]: "tags (setPrefix t i pl) = tags t"
  by (simp_all add: setPrefix_def)

lemma nodes_setTagCount [simp]:
  "nodes (setTagCount t i c) = (nodes t)[i := (nodes t ! i)\<lparr>TagCount := c\<rparr>]"
  and avail_setTagCount [simp]: "availableIndexes (setTagCount t i c) = availableIndexes t"
  and tags_setTagCount [simp]: "tags (setTagCount t i c) = tags t"
  by (simp_all add: setTagCount_def)

lemma addTag_eq:
  "n < length (nodes t) \<Longrightarrow>
   addTag t tag n = Inr (t\<lparr>tags := (tags t)(tagKey n (TagCount (nodes t ! n)) \<mapsto> tag),
                          nodes := (nodes t)[n := (nodes t ! n)\<lparr>TagCount := TagCount (nodes t ! n) + 1\<rparr>]\<rparr>)"
  by (simp add: addTag_def Let_def setTagCount_def)

text \<open>Allocation: the index comes from the free list or is the next arena index.\<close>

lemma newNode_cases:
  assumes "\<forall>j\<in>set (availableIndexes t). j < length (nodes t)"
  shows "(availableIndexes t = [] \<and>
            newNode t p l = Inr (length (nodes t), t\<lparr>nodes := nodes t @ [mkNode p l]\<rparr>))
         \<or> (availableIndexes t \<noteq> [] \<and>
            newNode t p l = Inr (last (availableIndexes t),
               t\<lparr>availableIndexes := butlast (availableIndexes t),
                  nodes := (nodes t)[last (availableIndexes t) := mkNode p l]\<rparr>))"
  using assms by (auto simp add: newNode_def Let_def)

lemma allocatedD:
  assumes "allocated t p l k t1"
  shows "fresh t k" and "k \<noteq> 0" and "k < length (nodes t1)"
    and "length (nodes t) \<le> length (nodes t1)" and "nodes t1 ! k = mkNode p l"
    and "\<And>j. j < length (nodes t1) \<Longrightarrow> j \<noteq> k \<Longrightarrow> j < length (nodes t) \<and> nodes t1 ! j = nodes t ! j"
    and "free_ok t1" and "set (availableIndexes t1) \<subseteq> set (availableIndexes t)"
    and "k \<notin> set (availableIndexes t1)" and "tags t1 = tags t"
    and "\<And>j. fresh t1 j \<Longrightarrow> fresh t j \<and> j \<noteq> k"
  using assms unfolding allocated_def by blast+

lemma newNode_spec:
  assumes "free_ok t"
  shows "\<exists>k t1. newNode t p l = Inr (k, t1) \<and> allocated t p l k t1"
proof (cases "availableIndexes t = []")
  case True
  let ?t1 = "t\<lparr>nodes := nodes t @ [mkNode p l]\<rparr>"
  have "newNode t p l = Inr (length (nodes t), ?t1)"
    using True by (simp add: newNode_def)
  moreover have "\<forall>j<length (nodes ?t1). j \<noteq> length (nodes t) \<longrightarrow>
      j < length (nodes t) \<and> nodes ?t1 ! j = nodes t ! j"
    by (auto simp add: nth_append)
  moreover have "free_ok ?t1" using assms True by (auto simp add: free_ok_def)
  moreover have "length (nodes t) \<noteq> 0" using assms by (simp add: free_ok_def)
  moreover have "\<forall>j. fresh ?t1 j \<longrightarrow> fresh t j \<and> j \<noteq> length (nodes t)"
    using True by (auto simp add: fresh_def)
  ultimately have "allocated t p l (length (nodes t)) ?t1"
    using True unfolding allocated_def by (simp add: fresh_def)
  with \<open>newNode t p l = Inr (length (nodes t), ?t1)\<close> show ?thesis by blast
next
  case False
  let ?k = "last (availableIndexes t)"
  let ?t1 = "t\<lparr>availableIndexes := butlast (availableIndexes t),
                nodes := (nodes t)[?k := mkNode p l]\<rparr>"
  from False have kin: "?k \<in> set (availableIndexes t)" by simp
  with assms have k: "?k < length (nodes t)" "?k \<noteq> 0" by (auto simp add: free_ok_def)
  have new: "newNode t p l = Inr (?k, ?t1)"
    using False k by (simp add: newNode_def Let_def)
  have "distinct (butlast (availableIndexes t) @ [?k])"
    using assms False by (simp add: free_ok_def)
  then have dist: "distinct (butlast (availableIndexes t))" "?k \<notin> set (butlast (availableIndexes t))"
    by simp_all
  have sub: "set (butlast (availableIndexes t)) \<subseteq> set (availableIndexes t)"
    by (auto dest: in_set_butlastD)
  have fok: "free_ok ?t1"
    using assms dist sub by (auto simp add: free_ok_def)
  have fr: "\<forall>j. fresh ?t1 j \<longrightarrow> fresh t j \<and> j \<noteq> ?k"
    using dist sub k by (auto simp add: fresh_def)
  have "allocated t p l ?k ?t1"
    using kin k dist sub fok fr unfolding allocated_def by (simp add: fresh_def)
  with new show ?thesis by blast
qed

section \<open>Add preserves the structural invariant\<close>

text \<open>
  One lemma for each way in which the loop of \<open>Add\<close> ends (a new leaf, a tag on an
  existing node, a new parent, a split), then the loop by computation induction, then
  \<open>Add\<close> itself. Each lemma includes that the call returns.
\<close>

lemma subtree_cong:
  "subtree ns r S \<Longrightarrow>
   (\<forall>j\<in>S. Left (ns' ! j) = Left (ns ! j) \<and> Right (ns' ! j) = Right (ns ! j)) \<Longrightarrow>
   length ns \<le> length ns' \<Longrightarrow> subtree ns' r S"
proof (induction rule: subtree.induct)
  case subtree_empty
  then show ?case by (simp add: subtree.subtree_empty)
next
  case (subtree_node i L R)
  have "subtree ns' (Left (ns ! i)) L" "subtree ns' (Right (ns ! i)) R"
    using subtree_node.IH subtree_node.prems by simp_all
  moreover have "Left (ns' ! i) = Left (ns ! i)" "Right (ns' ! i) = Right (ns ! i)"
    using subtree_node.prems by simp_all
  ultimately show ?case
    using subtree_node.hyps subtree_node.prems subtree.subtree_node [of i ns' L R]
    by simp
qed

lemma add_postI:
  assumes "length (nodes t) \<le> length (nodes t')" and "free_ok t'"
    and "set (availableIndexes t') \<subseteq> set (availableIndexes t)"
    and "\<And>j. j < length (nodes t) \<Longrightarrow> j \<notin> S \<Longrightarrow> j \<noteq> p \<Longrightarrow> \<not> fresh t j \<Longrightarrow>
           nodes t' ! j = nodes t ! j"
    and "subtree (nodes t') n' S'" and "n' \<noteq> 0"
    and "\<And>i. i \<in> S' \<Longrightarrow> i \<in> S \<or> fresh t i"
    and "\<And>i. i \<in> S' \<Longrightarrow> good (nodes t') i"
    and "\<And>j. j \<in> set (availableIndexes t') \<Longrightarrow> j \<notin> S'"
    and "nodes t' ! p = (if Left (nodes t ! p) = n then (nodes t ! p)\<lparr>Left := n'\<rparr>
                         else (nodes t ! p)\<lparr>Right := n'\<rparr>)"
    and "bit (prefix (nodes t' ! n')) 31 = bit (prefix (nodes t ! n)) 31"
  shows "add_post t p n S t'"
  unfolding add_post_def using assms by blast

lemma add_exact_post:
  assumes "add_pre t p n S a"
  shows "\<exists>t'. addTag t tag n = Inr t' \<and> add_post t p n S t'"
proof -
  let ?ns = "nodes t"
  let ?ns' = "?ns[n := (?ns ! n)\<lparr>TagCount := TagCount (?ns ! n) + 1\<rparr>]"
  let ?t' = "t\<lparr>tags := (tags t)(tagKey n (TagCount (?ns ! n)) \<mapsto> tag), nodes := ?ns'\<rparr>"
  from assms have st: "subtree ?ns n S" and n0: "n \<noteq> 0" and gd: "\<forall>i\<in>S. good ?ns i"
    and one: "1 \<notin> S" and p: "p < length ?ns" "p \<notin> S" and fo: "free_ok t"
    and fr: "\<forall>j\<in>set (availableIndexes t). j \<notin> S \<and> j \<noteq> p"
    and link: "Left (?ns ! p) = n \<or> Right (?ns ! p) = n"
    by (simp_all add: add_pre_def)
  have nS: "n \<in> S" using st n0 by (rule subtree_root_mem)
  then have nl: "n < length ?ns" using subtree_range [OF st] by simp
  have eq: "addTag t tag n = Inr ?t'" using nl by (rule addTag_eq)
  have st': "subtree ?ns' n S"
    using nl by (intro subtree_cong [OF st]) (auto simp add: nth_list_update)
  have gd': "good ?ns' i" if "i \<in> S" for i
  proof -
    from gd that have "good ?ns i" by simp
    moreover have "i \<noteq> 1" using that one by auto
    ultimately show "good ?ns' i"
      using nl subtree_range [OF st that]
      by (auto simp add: good_def child_bits_ok_def node_ok_def nth_list_update)
  qed
  have pn: "p \<noteq> n" using p nS by auto
  have "add_post t p n S ?t'"
  proof (rule add_postI [where n' = n and S' = S])
    show "free_ok ?t'" using fo by (simp add: free_ok_def)
    show "nodes ?t' ! p = (if Left (?ns ! p) = n then (?ns ! p)\<lparr>Left := n\<rparr>
                            else (?ns ! p)\<lparr>Right := n\<rparr>)"
      using pn link by auto
    show "bit (prefix (nodes ?t' ! n)) 31 = bit (prefix (?ns ! n)) 31"
      using nl by simp
    show "nodes ?t' ! j = ?ns ! j" if "j \<notin> S" for j
      using that nS by (cases "j = n") auto
  qed (use st' gd' n0 fr nS in \<open>auto\<close>)
  with eq show ?thesis by blast
qed

lemma leading_match_pos:
  "0 < k \<Longrightarrow> bit a 31 = bit b 31 \<Longrightarrow> 0 < leading_match k a b"
  by (cases k) auto

lemma leading_match_differs:
  "leading_match k a b = m \<Longrightarrow> m < k \<Longrightarrow> bit (push_bit m a) 31 \<noteq> bit (push_bit m b) 31"
proof (induction k a b arbitrary: m rule: leading_match.induct)
  case (1 a b)
  then show ?case by simp
next
  case (2 k a b)
  show ?case
  proof (cases "bit a 31 = bit b 31")
    case True
    with "2.prems" obtain m' where m: "m = Suc m'" "leading_match k (push_bit 1 a) (push_bit 1 b) = m'"
      by auto
    with "2.prems" have "m' < k" by simp
    from "2.IH" [OF True m(2) this]
    show ?thesis by (simp add: m(1) push_bit_double flip: push_bit_Suc)
  next
    case False
    with "2.prems" show ?thesis by simp
  qed
qed

lemma subtree_leaf:
  "k \<noteq> 0 \<Longrightarrow> k < length ns \<Longrightarrow> Left (ns ! k) = 0 \<Longrightarrow> Right (ns ! k) = 0 \<Longrightarrow>
   subtree ns k {k}"
  using subtree_node [of k ns "{}" "{}"] by (simp add: subtree_empty)

lemma subtree_nodeI:
  "i \<noteq> 0 \<Longrightarrow> i < length ns \<Longrightarrow> Left (ns ! i) = l \<Longrightarrow> Right (ns ! i) = r \<Longrightarrow>
   subtree ns l L \<Longrightarrow> subtree ns r R \<Longrightarrow> i \<notin> L \<Longrightarrow> i \<notin> R \<Longrightarrow> L \<inter> R = {} \<Longrightarrow>
   S = insert i (L \<union> R) \<Longrightarrow> subtree ns i S"
  using subtree_node [of i ns L R] by simp

lemma fresh_not_in_subtree:
  "subtree ns r S \<Longrightarrow> ns = nodes t \<Longrightarrow> \<forall>j\<in>set (availableIndexes t). j \<notin> S \<Longrightarrow>
   fresh t k \<Longrightarrow> k \<notin> S"
  using subtree_range [of ns r S k] by (auto simp add: fresh_def)

lemma addLeaf_holder:
  assumes fo: "free_ok t" and st: "subtree (nodes t) h Sh" and h0: "h \<noteq> 0"
    and gd: "\<forall>i\<in>Sh. good (nodes t) i"
    and fr: "\<forall>j\<in>set (availableIndexes t). j \<notin> Sh"
    and slot: "if onLeft then Left (nodes t ! h) = 0 else Right (nodes t ! h) = 0"
    and len: "1 \<le> Length a" and side: "onLeft = (\<not> bit (Address a) 31)"
  shows "\<exists>t' k. addLeaf t h onLeft a tag = Inr t' \<and> fresh t k \<and> k \<noteq> 0 \<and> k \<notin> Sh
           \<and> subtree (nodes t') h (insert k Sh) \<and> (\<forall>i\<in>insert k Sh. good (nodes t') i)
           \<and> free_ok t' \<and> set (availableIndexes t') \<subseteq> set (availableIndexes t)
           \<and> k \<notin> set (availableIndexes t')
           \<and> length (nodes t) \<le> length (nodes t')
           \<and> (\<forall>j<length (nodes t). j \<noteq> h \<longrightarrow> \<not> fresh t j \<longrightarrow> nodes t' ! j = nodes t ! j)
           \<and> nodes t' ! h = (if onLeft then (nodes t ! h)\<lparr>Left := k\<rparr>
                              else (nodes t ! h)\<lparr>Right := k\<rparr>)
           \<and> nodes t' ! k = (mkNode (Address a) (Length a))\<lparr>TagCount := 1\<rparr>
           \<and> tags t' = (tags t)(tagKey k 0 \<mapsto> tag)"
proof -
  let ?ns = "nodes t"
  from newNode_spec [OF fo, of "Address a" "Length a"] obtain k t1 where
    nn: "newNode t (Address a) (Length a) = Inr (k, t1)"
    and al: "allocated t (Address a) (Length a) k t1"
    by blast
  note frk = allocatedD(1) [OF al] and k0 = allocatedD(2) [OF al] and kl = allocatedD(3) [OF al]
    and ll = allocatedD(4) [OF al] and nk = allocatedD(5) [OF al] and same = allocatedD(6) [OF al]
    and fo1 = allocatedD(7) [OF al] and sub1 = allocatedD(8) [OF al]
    and kf1 = allocatedD(9) [OF al] and tg1 = allocatedD(10) [OF al]
  have kS: "k \<notin> Sh" using fresh_not_in_subtree [OF st refl fr frk] .
  have hS: "h \<in> Sh" using st h0 by (rule subtree_root_mem)
  then have hl: "h < length ?ns" using subtree_range [OF st] by simp
  have hk: "h \<noteq> k" using hS kS by auto
  have hl1: "h < length (nodes t1)" using hl ll by simp
  have h1: "nodes t1 ! h = ?ns ! h" using same hl1 hk by simp
  let ?nk = "(mkNode (Address a) (Length a))\<lparr>TagCount := 1\<rparr>"
  let ?nh = "if onLeft then (?ns ! h)\<lparr>Left := k\<rparr> else (?ns ! h)\<lparr>Right := k\<rparr>"
  define ns' where "ns' = (nodes t1)[k := ?nk, h := ?nh]"
  let ?t2 = "t1\<lparr>tags := (tags t1)(tagKey k (TagCount (nodes t1 ! k)) \<mapsto> tag),
               nodes := (nodes t1)[k := (nodes t1 ! k)\<lparr>TagCount := TagCount (nodes t1 ! k) + 1\<rparr>]\<rparr>"
  define t' where "t' = (if onLeft then setLeft ?t2 h k else setRight ?t2 h k)"
  have at: "addTag t1 tag k = Inr ?t2" using kl by (rule addTag_eq)
  have res: "addLeaf t h onLeft a tag = Inr t'"
    by (simp add: addLeaf_def nn at t'_def)
  have ns': "nodes t' = ns'"
    using hk h1 kl nk by (simp add: mkNode_def t'_def ns'_def)
  have nth_k: "ns' ! k = ?nk" using hk kl by (simp add: ns'_def)
  have nth_h: "ns' ! h = ?nh" using hl1 by (simp add: ns'_def)
  have nth_o: "ns' ! j = ?ns ! j" if "j < length ?ns" "j \<noteq> h" "j \<noteq> k" for j
    using that same ll by (simp add: ns'_def)
  have len': "length ns' = length (nodes t1)" by (simp add: ns'_def)
  have notfresh: "j \<noteq> k" if "\<not> fresh t j" for j using that frk by auto
  from st h0 obtain L R where S: "Sh = insert h (L \<union> R)"
    and sl: "subtree ?ns (Left (?ns ! h)) L" and sr: "subtree ?ns (Right (?ns ! h)) R"
    and hL: "h \<notin> L" and hR: "h \<notin> R" and LR: "L \<inter> R = {}"
    by (auto elim: subtree_nodeE)
  have frameS: "ns' ! j = ?ns ! j" if "j \<in> L \<union> R" for j
  proof -
    from that have "j \<in> Sh" using S by auto
    then have "j < length ?ns" "j \<noteq> k" using subtree_range [OF st] kS by auto
    moreover have "j \<noteq> h" using that hL hR by auto
    ultimately show ?thesis using nth_o by simp
  qed
  have lenle: "length ?ns \<le> length ns'" using ll len' by simp
  have sl': "subtree ns' (Left (?ns ! h)) L"
    by (rule subtree_frame [OF sl _ lenle]) (simp add: frameS)
  have sr': "subtree ns' (Right (?ns ! h)) R"
    by (rule subtree_frame [OF sr _ lenle]) (simp add: frameS)
  have sk': "subtree ns' k {k}"
    using k0 kl nth_k len' by (intro subtree_leaf) (simp_all add: mkNode_def)
  have kLR: "k \<notin> L" "k \<notin> R" using kS S by auto
  have st': "subtree ns' h (insert k Sh)"
  proof (cases onLeft)
    case True
    with slot sl have "L = {}" by (auto dest: subtree_0)
    show ?thesis
    proof (rule subtree_nodeI [where L = "{k}" and R = R and l = k and r = "Right (?ns ! h)"])
    qed (use \<open>L = {}\<close> True h0 hl1 nth_h sk' sr' hk hR kLR S len' in auto)
  next
    case False
    with slot sr have "R = {}" by (auto dest: subtree_0)
    show ?thesis
    proof (rule subtree_nodeI [where L = L and R = "{k}" and r = k and l = "Left (?ns ! h)"])
    qed (use \<open>R = {}\<close> False h0 hl1 nth_h sk' sl' hk hL kLR S len' in auto)
  qed
  have gk: "good ns' k"
    using nth_k len by (simp add: good_def child_bits_ok_def node_ok_def mkNode_def)
  have gh: "good ns' h"
  proof -
    from gd hS have g: "good ?ns h" by simp
    have other: "ns' ! c = ?ns ! c" if "c \<noteq> 0" "c = Left (?ns ! h) \<or> c = Right (?ns ! h)" for c
    proof -
      from that sl sr have "c \<in> L \<union> R" using subtree_root_mem by auto
      then show ?thesis by (rule frameS)
    qed
    show ?thesis
      using g slot side other nth_h nth_k k0
      by (cases onLeft) (auto simp add: good_def child_bits_ok_def node_ok_def mkNode_def)
  qed
  have go: "good ns' i" if "i \<in> L \<union> R" for i
  proof -
    from that have iS: "i \<in> Sh" using S by auto
    from that show ?thesis
    proof
      assume "i \<in> L"
      from good_frame [OF sl this _ gd [rule_format, OF iS], of ns'] frameS show ?thesis by simp
    next
      assume "i \<in> R"
      from good_frame [OF sr this _ gd [rule_format, OF iS], of ns'] frameS show ?thesis by simp
    qed
  qed
  have gall: "\<forall>i\<in>insert k Sh. good ns' i"
    using gk gh go S by auto
  have fo': "free_ok t'"
    using fo1 ll by (auto simp add: free_ok_def t'_def)
  have "tags t' = (tags t)(tagKey k 0 \<mapsto> tag)"
    using nk tg1 by (simp add: mkNode_def t'_def)
  moreover have "\<forall>j<length ?ns. j \<noteq> h \<longrightarrow> \<not> fresh t j \<longrightarrow> nodes t' ! j = ?ns ! j"
    using nth_o notfresh ns' by metis
  moreover have "nodes t' ! h = ?nh" "nodes t' ! k = ?nk"
    using nth_h nth_k ns' by metis+
  moreover have "subtree (nodes t') h (insert k Sh)" "\<forall>i\<in>insert k Sh. good (nodes t') i"
    using st' gall ns' by metis+
  moreover have "set (availableIndexes t') \<subseteq> set (availableIndexes t)"
    "k \<notin> set (availableIndexes t')" "length ?ns \<le> length (nodes t')"
    using sub1 kf1 ll by (auto simp add: t'_def)
  ultimately show ?thesis
    using res frk k0 kS fo' by blast
qed

lemma subtree_kept:
  assumes st: "subtree ns n S" and n0: "n \<noteq> 0" and gd: "\<forall>i\<in>S. good ns i"
    and len: "length ns \<le> length ns'"
    and same: "\<forall>j\<in>S. j \<noteq> n \<longrightarrow> ns' ! j = ns ! j"
    and lr: "Left (ns' ! n) = Left (ns ! n)" "Right (ns' ! n) = Right (ns ! n)"
    and ok: "n \<noteq> 1 \<longrightarrow> node_ok (ns' ! n)"
  shows "subtree ns' n S" and "\<forall>i\<in>S. good ns' i"
proof -
  show "subtree ns' n S"
    using same lr by (intro subtree_cong [OF st _ len]) auto
  from st n0 obtain L R where S: "S = insert n (L \<union> R)"
    and sl: "subtree ns (Left (ns ! n)) L" and sr: "subtree ns (Right (ns ! n)) R"
    and nL: "n \<notin> L" and nR: "n \<notin> R"
    by (auto elim: subtree_nodeE)
  have frameL: "\<forall>j\<in>L. ns' ! j = ns ! j" and frameR: "\<forall>j\<in>R. ns' ! j = ns ! j"
    using same S nL nR by auto
  have gL: "good ns' i" if "i \<in> L" for i
    using good_frame [OF sl that frameL] gd S that by simp
  have gR: "good ns' i" if "i \<in> R" for i
    using good_frame [OF sr that frameR] gd S that by simp
  have child: "ns' ! c = ns ! c" if "c \<noteq> 0" "c = Left (ns ! n) \<or> c = Right (ns ! n)" for c
  proof -
    from that sl sr have "c \<in> L \<union> R" using subtree_root_mem by auto
    then show ?thesis using frameL frameR by auto
  qed
  have gn: "good ns' n"
    using gd S lr ok child by (auto simp add: good_def child_bits_ok_def)
  show "\<forall>i\<in>S. good ns' i"
    using gL gR gn S by auto
qed

lemma insertParent_post:
  assumes pre: "add_pre t p n S a"
    and m: "m = Length a" "m < prefixLength (nodes t ! n)"
  shows "\<exists>t'. insertParent t p n a tag m = Inr t' \<and> add_post t p n S t'"
proof -
  let ?ns = "nodes t"
  from pre have st: "subtree ?ns n S" and n0: "n \<noteq> 0" and gd: "\<forall>i\<in>S. good ?ns i"
    and one: "1 \<notin> S" and pl: "p < length ?ns" and pS: "p \<notin> S" and fo: "free_ok t"
    and fr: "\<forall>j\<in>set (availableIndexes t). j \<notin> S \<and> j \<noteq> p"
    and link: "Left (?ns ! p) = n \<or> Right (?ns ! p) = n"
    and la: "1 \<le> Length a" and hb: "bit (prefix (?ns ! n)) 31 = bit (Address a) 31"
    by (simp_all add: add_pre_def)
  have nS: "n \<in> S" using st n0 by (rule subtree_root_mem)
  then have nl: "n < length ?ns" using subtree_range [OF st] by simp
  have pn: "p \<noteq> n" using pS nS by auto
  from newNode_spec [OF fo, of "Address a" "Length a"] obtain k t1 where
    nn: "newNode t (Address a) (Length a) = Inr (k, t1)"
    and al: "allocated t (Address a) (Length a) k t1"
    by blast
  note frk = allocatedD(1) [OF al] and k0 = allocatedD(2) [OF al] and kl = allocatedD(3) [OF al]
    and ll = allocatedD(4) [OF al] and nk = allocatedD(5) [OF al] and same = allocatedD(6) [OF al]
    and fo1 = allocatedD(7) [OF al] and sub1 = allocatedD(8) [OF al]
    and kf1 = allocatedD(9) [OF al] and tg1 = allocatedD(10) [OF al]
  have frS: "\<forall>j\<in>set (availableIndexes t). j \<notin> S" using fr by simp
  have kS: "k \<notin> S" using fresh_not_in_subtree [OF st refl frS frk] .
  have kn: "k \<noteq> n" using kS nS by auto
  have kp: "k \<noteq> p" using frk fr pl by (auto simp add: fresh_def)
  have n1: "nodes t1 ! n = ?ns ! n" and p1: "nodes t1 ! p = ?ns ! p"
    using same [of n] same [of p] nl pl ll kn kp by simp_all
  let ?nn = "ShiftPrefix (?ns ! n) m"
  let ?left = "prefix ?nn < leftmost32Bit"
  let ?nk = "if ?left then (mkNode (Address a) (Length a))\<lparr>Left := n, TagCount := 1\<rparr>
             else (mkNode (Address a) (Length a))\<lparr>Right := n, TagCount := 1\<rparr>"
  let ?np = "if Left (?ns ! p) = n then (?ns ! p)\<lparr>Left := k\<rparr> else (?ns ! p)\<lparr>Right := k\<rparr>"
  define ns' where "ns' = (nodes t1)[k := ?nk, n := ?nn, p := ?np]"
  define t' where "t' = t1\<lparr>tags := (tags t1)(tagKey k 0 \<mapsto> tag), nodes := ns'\<rparr>"
  have at: "addTag t1 tag k
            = Inr (t1\<lparr>tags := (tags t1)(tagKey k (TagCount (nodes t1 ! k)) \<mapsto> tag),
                      nodes := (nodes t1)[k := (nodes t1 ! k)\<lparr>TagCount := TagCount (nodes t1 ! k) + 1\<rparr>]\<rparr>)"
    using kl by (rule addTag_eq)
  have res: "insertParent t p n a tag m = Inr t'"
    using kn kp pn kl nl pl ll n1 p1 nk link
    by (auto simp add: insertParent_def nn at Let_def replaceChild_def t'_def ns'_def mkNode_def
        list_update_swap [of k n] list_update_swap [of k p] list_update_swap [of n p])
  have len': "length ns' = length (nodes t1)" by (simp add: ns'_def)
  have nth_k: "ns' ! k = ?nk" using kn kp kl by (simp add: ns'_def)
  have nth_n: "ns' ! n = ?nn" using pn nl ll by (simp add: ns'_def)
  have nth_p: "ns' ! p = ?np" using pl ll by (simp add: ns'_def)
  have nth_o: "ns' ! j = ?ns ! j" if "j < length ?ns" "j \<noteq> k" "j \<noteq> n" "j \<noteq> p" for j
    using that same ll by (simp add: ns'_def)
  have lenle: "length ?ns \<le> length ns'" using ll len' by simp
  have sameS: "\<forall>j\<in>S. j \<noteq> n \<longrightarrow> ns' ! j = ?ns ! j"
  proof (intro ballI impI)
    fix j assume "j \<in> S" "j \<noteq> n"
    then show "ns' ! j = ?ns ! j"
      using nth_o [of j] subtree_range [OF st, of j] kS pS by auto
  qed
  have nok: "node_ok (ns' ! n)"
  proof -
    from gd nS one have "node_ok (?ns ! n)" by (auto simp add: good_def)
    then show ?thesis using m nth_n by (simp add: node_ok_def ShiftPrefix_def)
  qed
  have kept: "subtree ns' n S" "\<forall>i\<in>S. good ns' i"
    using subtree_kept [OF st n0 gd lenle sameS _ _ , of ] nok nth_n
    by (simp_all add: ShiftPrefix_def)
  have st': "subtree ns' k (insert k S)"
  proof (cases ?left)
    case True
    show ?thesis
    proof (rule subtree_nodeI [where L = S and R = "{}" and l = n and r = 0])
    qed (use True k0 kl len' nth_k kept(1) kS in \<open>auto simp add: mkNode_def subtree_empty\<close>)
  next
    case False
    show ?thesis
    proof (rule subtree_nodeI [where L = "{}" and R = S and l = 0 and r = n])
    qed (use False k0 kl len' nth_k kept(1) kS in \<open>auto simp add: mkNode_def subtree_empty\<close>)
  qed
  have gk: "good ns' k"
    using nth_k nth_n la n0 less_leftmost32Bit [of "prefix ?nn"]
    by (auto simp add: good_def child_bits_ok_def node_ok_def mkNode_def)
  have hbk: "bit (prefix (ns' ! k)) 31 = bit (prefix (?ns ! n)) 31"
    using nth_k hb by (simp add: mkNode_def)
  have "add_post t p n S t'"
  proof (rule add_postI [where n' = k and S' = "insert k S"])
    show "length ?ns \<le> length (nodes t')" using lenle by (simp add: t'_def)
    show "free_ok t'" using fo1 len' by (simp add: free_ok_def t'_def)
    show "set (availableIndexes t') \<subseteq> set (availableIndexes t)" using sub1 by (simp add: t'_def)
    show "nodes t' ! j = ?ns ! j" if "j < length ?ns" "j \<notin> S" "j \<noteq> p" "\<not> fresh t j" for j
      using that nth_o [of j] frk nS by (auto simp add: t'_def)
    show "subtree (nodes t') k (insert k S)" using st' by (simp add: t'_def)
    show "k \<noteq> 0" by (rule k0)
    show "i \<in> S \<or> fresh t i" if "i \<in> insert k S" for i using that frk by auto
    show "good (nodes t') i" if "i \<in> insert k S" for i
      using that gk kept(2) by (auto simp add: t'_def)
    show "j \<notin> insert k S" if "j \<in> set (availableIndexes t')" for j
      using that kf1 sub1 frS by (auto simp add: t'_def)
    show "nodes t' ! p = ?np" using nth_p by (simp add: t'_def)
    show "bit (prefix (nodes t' ! k)) 31 = bit (prefix (?ns ! n)) 31"
      using hbk by (simp add: t'_def)
  qed
  with res show ?thesis by blast
qed

lemma splitNode_post:
  assumes pre: "add_pre t p n S a"
    and m: "m = MatchCount (nodes t ! n) a" "0 < m" "m < Length a" "m < prefixLength (nodes t ! n)"
  shows "\<exists>t'. splitNode t p n a tag m = Inr t' \<and> add_post t p n S t'"
proof -
  let ?ns = "nodes t"
  let ?a' = "ShiftLeft a m"
  from pre have st: "subtree ?ns n S" and n0: "n \<noteq> 0" and gd: "\<forall>i\<in>S. good ?ns i"
    and one: "1 \<notin> S" and pl: "p < length ?ns" and pS: "p \<notin> S" and fo: "free_ok t"
    and fr: "\<forall>j\<in>set (availableIndexes t). j \<notin> S \<and> j \<noteq> p"
    and link: "Left (?ns ! p) = n \<or> Right (?ns ! p) = n"
    and la: "1 \<le> Length a" and hb: "bit (prefix (?ns ! n)) 31 = bit (Address a) 31"
    by (simp_all add: add_pre_def)
  have nS: "n \<in> S" using st n0 by (rule subtree_root_mem)
  then have nl: "n < length ?ns" using subtree_range [OF st] by simp
  have pn: "p \<noteq> n" using pS nS by auto
  have frS: "\<forall>j\<in>set (availableIndexes t). j \<notin> S" using fr by simp
  \<comment> \<open>the common parent\<close>
  from newNode_spec [OF fo, of "Address a" m] obtain k1 t1 where
    nn1: "newNode t (Address a) m = Inr (k1, t1)" and al1: "allocated t (Address a) m k1 t1"
    by blast
  note frk1 = allocatedD(1) [OF al1] and k10 = allocatedD(2) [OF al1]
    and k1l = allocatedD(3) [OF al1] and ll1 = allocatedD(4) [OF al1]
    and nk1 = allocatedD(5) [OF al1] and same1 = allocatedD(6) [OF al1]
    and fo1 = allocatedD(7) [OF al1] and sub1 = allocatedD(8) [OF al1]
    and k1f1 = allocatedD(9) [OF al1] and fresh1 = allocatedD(11) [OF al1]
  \<comment> \<open>the new leaf\<close>
  from newNode_spec [OF fo1, of "Address ?a'" "Length ?a'"] obtain k2 t2 where
    nn2: "newNode t1 (Address ?a') (Length ?a') = Inr (k2, t2)"
    and al2: "allocated t1 (Address ?a') (Length ?a') k2 t2"
    by blast
  note frk2 = allocatedD(1) [OF al2] and k20 = allocatedD(2) [OF al2]
    and k2l = allocatedD(3) [OF al2] and ll2 = allocatedD(4) [OF al2]
    and nk2 = allocatedD(5) [OF al2] and same2 = allocatedD(6) [OF al2]
    and fo2 = allocatedD(7) [OF al2] and sub2 = allocatedD(8) [OF al2]
    and k2f2 = allocatedD(9) [OF al2]
  have fr2: "fresh t k2" and k12: "k2 \<noteq> k1" using fresh1 [OF frk2] by simp_all
  have k1S: "k1 \<notin> S" using fresh_not_in_subtree [OF st refl frS frk1] .
  have k2S: "k2 \<notin> S" using fresh_not_in_subtree [OF st refl frS fr2] .
  have k1n: "k1 \<noteq> n" and k2n: "k2 \<noteq> n" using k1S k2S nS by auto
  have k1p: "k1 \<noteq> p" and k2p: "k2 \<noteq> p" using frk1 fr2 fr pl by (auto simp add: fresh_def)
  have k1l2: "k1 < length (nodes t2)" using k1l ll2 by simp
  have nl2: "n < length (nodes t2)" and pl2: "p < length (nodes t2)"
    using nl pl ll1 ll2 by simp_all
  have old2: "nodes t2 ! j = ?ns ! j" if "j < length ?ns" "j \<noteq> k1" "j \<noteq> k2" for j
  proof -
    from that ll1 ll2 have "j < length (nodes t2)" by simp
    with same2 [of j] that have "j < length (nodes t1)" "nodes t2 ! j = nodes t1 ! j" by simp_all
    with same1 [of j] that show ?thesis by simp
  qed
  have k1in2: "nodes t2 ! k1 = mkNode (Address a) m"
    using same2 [of k1] k1l2 k12 nk1 by simp
  let ?nn = "ShiftPrefix (?ns ! n) m"
  let ?left = "prefix ?nn < leftmost32Bit"
  let ?nk2 = "(mkNode (Address ?a') (Length ?a'))\<lparr>TagCount := 1\<rparr>"
  let ?nk1 = "if ?left then (mkNode (Address a) m)\<lparr>Left := n, Right := k2\<rparr>
              else (mkNode (Address a) m)\<lparr>Left := k2, Right := n\<rparr>"
  let ?np = "if Left (?ns ! p) = n then (?ns ! p)\<lparr>Left := k1\<rparr> else (?ns ! p)\<lparr>Right := k1\<rparr>"
  define ns' where "ns' = (nodes t2)[k2 := ?nk2, n := ?nn, k1 := ?nk1, p := ?np]"
  define t' where "t' = t2\<lparr>tags := (tags t2)(tagKey k2 0 \<mapsto> tag), nodes := ns'\<rparr>"
  have at: "addTag t2 tag k2
            = Inr (t2\<lparr>tags := (tags t2)(tagKey k2 (TagCount (nodes t2 ! k2)) \<mapsto> tag),
                      nodes := (nodes t2)[k2 := (nodes t2 ! k2)\<lparr>TagCount := TagCount (nodes t2 ! k2) + 1\<rparr>]\<rparr>)"
    using k2l by (rule addTag_eq)
  have res: "splitNode t p n a tag m = Inr t'"
    using k1n k2n k1p k2p k12 pn k2l k1l2 nl2 pl2 old2 [of n] old2 [of p] nl pl nk2 k1in2 link
    by (auto simp add: splitNode_def nn1 nn2 at Let_def replaceChild_def t'_def ns'_def mkNode_def)
  have len': "length ns' = length (nodes t2)" by (simp add: ns'_def)
  have nth_k2: "ns' ! k2 = ?nk2" using k2n k12 k2p k2l by (simp add: ns'_def)
  have nth_n: "ns' ! n = ?nn" using pn k1n nl2 by (simp add: ns'_def)
  have nth_k1: "ns' ! k1 = ?nk1" using k1p k1l2 by (simp add: ns'_def)
  have nth_p: "ns' ! p = ?np" using pl2 by (simp add: ns'_def)
  have nth_o: "ns' ! j = ?ns ! j"
    if "j < length ?ns" "j \<noteq> k1" "j \<noteq> k2" "j \<noteq> n" "j \<noteq> p" for j
    using that old2 [of j] by (simp add: ns'_def)
  have lenle: "length ?ns \<le> length ns'" using ll1 ll2 len' by simp
  have sameS: "\<forall>j\<in>S. j \<noteq> n \<longrightarrow> ns' ! j = ?ns ! j"
  proof (intro ballI impI)
    fix j assume "j \<in> S" "j \<noteq> n"
    then show "ns' ! j = ?ns ! j"
      using nth_o [of j] subtree_range [OF st, of j] k1S k2S pS by auto
  qed
  have nok: "node_ok (ns' ! n)"
  proof -
    from gd nS one have "node_ok (?ns ! n)" by (auto simp add: good_def)
    then show ?thesis using m nth_n by (simp add: node_ok_def ShiftPrefix_def)
  qed
  have kept: "subtree ns' n S" "\<forall>i\<in>S. good ns' i"
    using subtree_kept [OF st n0 gd lenle sameS] nok nth_n
    by (simp_all add: ShiftPrefix_def)
  have sk2: "subtree ns' k2 {k2}"
    using k20 k2l len' nth_k2 by (intro subtree_leaf) (simp_all add: mkNode_def)
  have st': "subtree ns' k1 (insert k1 (insert k2 S))"
  proof (cases ?left)
    case True
    show ?thesis
    proof (rule subtree_nodeI [where L = S and R = "{k2}" and l = n and r = k2])
    qed (use True k10 k1l2 len' nth_k1 kept(1) sk2 k1S k2S k12 in \<open>auto simp add: mkNode_def\<close>)
  next
    case False
    show ?thesis
    proof (rule subtree_nodeI [where L = "{k2}" and R = S and l = k2 and r = n])
    qed (use False k10 k1l2 len' nth_k1 kept(1) sk2 k1S k2S k12 in \<open>auto simp add: mkNode_def\<close>)
  qed
  have diff: "bit (Address ?a') 31 \<noteq> bit (prefix ?nn) 31"
  proof -
    have "m < min (Length a) (prefixLength (?ns ! n))" using m by simp
    from leading_match_differs [OF _ this, of "Address a" "prefix (?ns ! n)"] m(1)
    show ?thesis by (simp add: MatchCount_def ShiftLeft_def ShiftPrefix_def)
  qed
  have la': "1 \<le> Length ?a'" using m(3) by (simp add: ShiftLeft_def)
  have gk2: "good ns' k2"
    using nth_k2 la' by (simp add: good_def child_bits_ok_def node_ok_def mkNode_def)
  have gk1: "good ns' k1"
    using nth_k1 nth_k2 nth_n m n0 k20 diff less_leftmost32Bit [of "prefix ?nn"]
    by (auto simp add: good_def child_bits_ok_def node_ok_def mkNode_def)
  have hbk: "bit (prefix (ns' ! k1)) 31 = bit (prefix (?ns ! n)) 31"
    using nth_k1 hb by (simp add: mkNode_def)
  have "add_post t p n S t'"
  proof (rule add_postI [where n' = k1 and S' = "insert k1 (insert k2 S)"])
    show "length ?ns \<le> length (nodes t')" using lenle by (simp add: t'_def)
    show "free_ok t'" using fo2 len' by (simp add: free_ok_def t'_def)
    show "set (availableIndexes t') \<subseteq> set (availableIndexes t)"
      using sub1 sub2 by (auto simp add: t'_def)
    show "nodes t' ! j = ?ns ! j" if "j < length ?ns" "j \<notin> S" "j \<noteq> p" "\<not> fresh t j" for j
      using that nth_o [of j] frk1 fr2 nS by (auto simp add: t'_def)
    show "subtree (nodes t') k1 (insert k1 (insert k2 S))" using st' by (simp add: t'_def)
    show "k1 \<noteq> 0" by (rule k10)
    show "i \<in> S \<or> fresh t i" if "i \<in> insert k1 (insert k2 S)" for i
      using that frk1 fr2 by auto
    show "good (nodes t') i" if "i \<in> insert k1 (insert k2 S)" for i
      using that gk1 gk2 kept(2) by (auto simp add: t'_def)
    show "j \<notin> insert k1 (insert k2 S)" if "j \<in> set (availableIndexes t')" for j
      using that k1f1 k2f2 sub1 sub2 frS by (auto simp add: t'_def)
    show "nodes t' ! p = ?np" using nth_p by (simp add: t'_def)
    show "bit (prefix (nodes t' ! k1)) 31 = bit (prefix (?ns ! n)) 31"
      using hbk by (simp add: t'_def)
  qed
  with res show ?thesis by blast
qed

lemma lift_node:
  assumes st: "subtree (nodes t) n S" and n0: "n \<noteq> 0" and gd: "\<forall>i\<in>S. good (nodes t) i"
    and fr: "\<forall>j\<in>set (availableIndexes t). j \<notin> S"
    and c: "c = Left (nodes t ! n) \<or> c = Right (nodes t ! n)" and c0: "c \<noteq> 0"
    and sc: "subtree (nodes t) c Sc"
    and post: "add_post t n c Sc t'"
  shows "\<exists>S'. subtree (nodes t') n S' \<and> (\<forall>i\<in>S'. i \<in> S \<or> fresh t i)
           \<and> (\<forall>i\<in>S'. good (nodes t') i) \<and> (\<forall>j\<in>set (availableIndexes t'). j \<notin> S')
           \<and> prefix (nodes t' ! n) = prefix (nodes t ! n)
           \<and> prefixLength (nodes t' ! n) = prefixLength (nodes t ! n)
           \<and> TagCount (nodes t' ! n) = TagCount (nodes t ! n)
           \<and> (\<forall>j<length (nodes t). j \<notin> S \<longrightarrow> \<not> fresh t j \<longrightarrow> nodes t' ! j = nodes t ! j)"
proof -
  let ?ns = "nodes t" and ?ns' = "nodes t'"
  from st n0 obtain L R where S: "S = insert n (L \<union> R)" and nl: "n < length ?ns"
    and sl: "subtree ?ns (Left (?ns ! n)) L" and sr: "subtree ?ns (Right (?ns ! n)) R"
    and nL: "n \<notin> L" and nR: "n \<notin> R" and LR: "L \<inter> R = {}"
    by (auto elim: subtree_nodeE)
  from post obtain n' S' where
    len: "length ?ns \<le> length ?ns'" and fo': "free_ok t'"
    and sub: "set (availableIndexes t') \<subseteq> set (availableIndexes t)"
    and frame: "\<forall>j<length ?ns. j \<notin> Sc \<longrightarrow> j \<noteq> n \<longrightarrow> \<not> fresh t j \<longrightarrow> ?ns' ! j = ?ns ! j"
    and st': "subtree ?ns' n' S'" and n'0: "n' \<noteq> 0"
    and S'sub: "\<forall>i\<in>S'. i \<in> Sc \<or> fresh t i"
    and g': "\<forall>i\<in>S'. good ?ns' i" and f': "\<forall>j\<in>set (availableIndexes t'). j \<notin> S'"
    and nn: "?ns' ! n = (if Left (?ns ! n) = c then (?ns ! n)\<lparr>Left := n'\<rparr>
                          else (?ns ! n)\<lparr>Right := n'\<rparr>)"
    and hb: "bit (prefix (?ns' ! n')) 31 = bit (prefix (?ns ! c)) 31"
    unfolding add_post_def by blast
  have notfresh: "\<not> fresh t j" if "j \<in> S" for j
    using that fr subtree_range [OF st that] by (auto simp add: fresh_def)
  have cSc: "c \<in> Sc" using sc c0 by (rule subtree_root_mem)
  have nl': "n < length ?ns'" using nl len by simp
  have gn: "good ?ns n" using gd S by simp
  show ?thesis
  proof (cases "Left (?ns ! n) = c")
    case True
    with sl sc have ScL: "Sc = L" by (auto dest: subtree_unique)
    let ?r = "Right (?ns ! n)"
    have frameR: "\<forall>j\<in>R. ?ns' ! j = ?ns ! j"
    proof
      fix j assume j: "j \<in> R"
      then have "j \<in> S" using S by simp
      then have "j < length ?ns" "\<not> fresh t j" using subtree_range [OF st] notfresh by auto
      moreover have "j \<notin> Sc" "j \<noteq> n" using j ScL LR nR by auto
      ultimately show "?ns' ! j = ?ns ! j" using frame by simp
    qed
    have sr': "subtree ?ns' ?r R" by (rule subtree_frame [OF sr frameR len])
    have nS': "n \<notin> S'" using S'sub ScL nL notfresh S by auto
    have disj: "S' \<inter> R = {}" using S'sub ScL LR notfresh S by auto
    have stn: "subtree ?ns' n (insert n (S' \<union> R))"
    proof (rule subtree_nodeI [where L = S' and R = R and l = n' and r = ?r])
    qed (use n0 nl' nn True st' sr' nS' nR disj in auto)
    have gR: "good ?ns' i" if "i \<in> R" for i
      using good_frame [OF sr that frameR] gd S that by simp
    have rr: "?ns' ! ?r = ?ns ! ?r" if "?r \<noteq> 0"
      using that sr frameR subtree_root_mem by blast
    have gn': "good ?ns' n"
      using gn nn True hb rr n'0 c0 by (auto simp add: good_def child_bits_ok_def node_ok_def)
    have "\<forall>i\<in>insert n (S' \<union> R). i \<in> S \<or> fresh t i" using S'sub ScL S by auto
    moreover have "\<forall>i\<in>insert n (S' \<union> R). good ?ns' i" using g' gR gn' by auto
    moreover have "\<forall>j\<in>set (availableIndexes t'). j \<notin> insert n (S' \<union> R)"
      using f' sub fr S by auto
    moreover have "\<forall>j<length ?ns. j \<notin> S \<longrightarrow> \<not> fresh t j \<longrightarrow> ?ns' ! j = ?ns ! j"
      using frame ScL S by auto
    ultimately show ?thesis using stn nn True by auto
  next
    case False
    with c have cr: "Right (?ns ! n) = c" by simp
    with sr sc have ScR: "Sc = R" by (auto dest: subtree_unique)
    let ?l = "Left (?ns ! n)"
    have frameL: "\<forall>j\<in>L. ?ns' ! j = ?ns ! j"
    proof
      fix j assume j: "j \<in> L"
      then have "j \<in> S" using S by simp
      then have "j < length ?ns" "\<not> fresh t j" using subtree_range [OF st] notfresh by auto
      moreover have "j \<notin> Sc" "j \<noteq> n" using j ScR LR nL by auto
      ultimately show "?ns' ! j = ?ns ! j" using frame by simp
    qed
    have sl': "subtree ?ns' ?l L" by (rule subtree_frame [OF sl frameL len])
    have nS': "n \<notin> S'" using S'sub ScR nR notfresh S by auto
    have disj: "L \<inter> S' = {}" using S'sub ScR LR notfresh S by auto
    have stn: "subtree ?ns' n (insert n (L \<union> S'))"
    proof (rule subtree_nodeI [where L = L and R = S' and l = ?l and r = n'])
    qed (use n0 nl' nn False st' sl' nS' nL disj in auto)
    have gL: "good ?ns' i" if "i \<in> L" for i
      using good_frame [OF sl that frameL] gd S that by simp
    have ll: "?ns' ! ?l = ?ns ! ?l" if "?l \<noteq> 0"
      using that sl frameL subtree_root_mem by blast
    have gn': "good ?ns' n"
      using gn nn False cr hb ll n'0 c0 by (auto simp add: good_def child_bits_ok_def node_ok_def)
    have "\<forall>i\<in>insert n (L \<union> S'). i \<in> S \<or> fresh t i" using S'sub ScR S by auto
    moreover have "\<forall>i\<in>insert n (L \<union> S'). good ?ns' i" using g' gL gn' by auto
    moreover have "\<forall>j\<in>set (availableIndexes t'). j \<notin> insert n (L \<union> S')"
      using f' sub fr S by auto
    moreover have "\<forall>j<length ?ns. j \<notin> S \<longrightarrow> \<not> fresh t j \<longrightarrow> ?ns' ! j = ?ns ! j"
      using frame ScR S by auto
    ultimately show ?thesis using stn nn False by auto
  qed
qed

lemma add_post_from_lift:
  assumes pre: "add_pre t p n S a"
    and c: "c = Left (nodes t ! n) \<or> c = Right (nodes t ! n)" and c0: "c \<noteq> 0"
    and sc: "subtree (nodes t) c Sc"
    and post: "add_post t n c Sc t'"
  shows "add_post t p n S t'"
proof -
  let ?ns = "nodes t" and ?ns' = "nodes t'"
  from pre have st: "subtree ?ns n S" and n0: "n \<noteq> 0" and gd: "\<forall>i\<in>S. good ?ns i"
    and pl: "p < length ?ns" and pS: "p \<notin> S"
    and fr: "\<forall>j\<in>set (availableIndexes t). j \<notin> S \<and> j \<noteq> p"
    and link: "Left (?ns ! p) = n \<or> Right (?ns ! p) = n"
    by (simp_all add: add_pre_def)
  have frS: "\<forall>j\<in>set (availableIndexes t). j \<notin> S" using fr by simp
  from lift_node [OF st n0 gd frS c c0 sc post] obtain S' where
    st': "subtree ?ns' n S'" and sub: "\<forall>i\<in>S'. i \<in> S \<or> fresh t i"
    and g': "\<forall>i\<in>S'. good ?ns' i" and f': "\<forall>j\<in>set (availableIndexes t'). j \<notin> S'"
    and pr: "prefix (?ns' ! n) = prefix (?ns ! n)"
    and frame: "\<forall>j<length ?ns. j \<notin> S \<longrightarrow> \<not> fresh t j \<longrightarrow> ?ns' ! j = ?ns ! j"
    by blast
  have pnf: "\<not> fresh t p" using pl fr by (auto simp add: fresh_def)
  have pp: "?ns' ! p = ?ns ! p" using frame pl pS pnf by simp
  show ?thesis
  proof (rule add_postI [where n' = n and S' = S'])
    show "nodes t' ! p = (if Left (?ns ! p) = n then (?ns ! p)\<lparr>Left := n\<rparr>
                          else (?ns ! p)\<lparr>Right := n\<rparr>)"
      using pp link by auto
    show "bit (prefix (?ns' ! n)) 31 = bit (prefix (?ns ! n)) 31" using pr by simp
  qed (use post st' sub g' f' n0 frame in \<open>auto simp add: add_post_def\<close>)
qed

lemma addLeaf_post:
  assumes pre: "add_pre t p n S a0"
    and slot: "if onLeft then Left (nodes t ! n) = 0 else Right (nodes t ! n) = 0"
    and len: "1 \<le> Length a" and side: "onLeft = (\<not> bit (Address a) 31)"
  shows "\<exists>t'. addLeaf t n onLeft a tag = Inr t' \<and> add_post t p n S t'"
proof -
  let ?ns = "nodes t"
  from pre have st: "subtree ?ns n S" and n0: "n \<noteq> 0" and gd: "\<forall>i\<in>S. good ?ns i"
    and pl: "p < length ?ns" and pS: "p \<notin> S" and fo: "free_ok t"
    and fr: "\<forall>j\<in>set (availableIndexes t). j \<notin> S \<and> j \<noteq> p"
    and link: "Left (?ns ! p) = n \<or> Right (?ns ! p) = n"
    by (simp_all add: add_pre_def)
  have frS: "\<forall>j\<in>set (availableIndexes t). j \<notin> S" using fr by simp
  have nS: "n \<in> S" using st n0 by (rule subtree_root_mem)
  from addLeaf_holder [OF fo st n0 gd frS slot len side, of tag] obtain t' k where
    res: "addLeaf t n onLeft a tag = Inr t'" and frk: "fresh t k" and k0: "k \<noteq> 0" and kS: "k \<notin> S"
    and st': "subtree (nodes t') n (insert k S)" and g': "\<forall>i\<in>insert k S. good (nodes t') i"
    and fo': "free_ok t'" and sub: "set (availableIndexes t') \<subseteq> set (availableIndexes t)"
    and kf: "k \<notin> set (availableIndexes t')" and ll: "length ?ns \<le> length (nodes t')"
    and frame: "\<forall>j<length ?ns. j \<noteq> n \<longrightarrow> \<not> fresh t j \<longrightarrow> nodes t' ! j = ?ns ! j"
    and nn: "nodes t' ! n = (if onLeft then (?ns ! n)\<lparr>Left := k\<rparr> else (?ns ! n)\<lparr>Right := k\<rparr>)"
    by blast
  have pnf: "\<not> fresh t p" using pl fr by (auto simp add: fresh_def)
  have pn: "p \<noteq> n" using pS nS by auto
  have pp: "nodes t' ! p = ?ns ! p" using frame pl pn pnf by simp
  have "add_post t p n S t'"
  proof (rule add_postI [where n' = n and S' = "insert k S"])
    show "nodes t' ! p = (if Left (?ns ! p) = n then (?ns ! p)\<lparr>Left := n\<rparr>
                          else (?ns ! p)\<lparr>Right := n\<rparr>)"
      using pp link by auto
    show "bit (prefix (nodes t' ! n)) 31 = bit (prefix (?ns ! n)) 31" using nn by simp
    show "nodes t' ! j = ?ns ! j" if "j < length ?ns" "j \<notin> S" "\<not> fresh t j" for j
      using that frame nS by auto
    show "j \<notin> insert k S" if "j \<in> set (availableIndexes t')" for j
      using that kf sub frS by auto
  qed (use st' g' fo' sub ll n0 frk in auto)
  with res show ?thesis by blast
qed

lemma add_loop_post:
  "add_pre t p n S a \<Longrightarrow> \<exists>t'. add_loop t p n a tag = Inr t' \<and> add_post t p n S t'"
proof (induction t p n a tag arbitrary: S rule: add_loop.induct)
  case (1 t parent nodeIndex address tag)
  let ?ns = "nodes t"
  let ?n = "?ns ! nodeIndex"
  let ?m = "MatchCount ?n address"
  let ?a' = "ShiftLeft address ?m"
  note pre = "1.prems"
  from pre have st: "subtree ?ns nodeIndex S" and n0: "nodeIndex \<noteq> 0"
    and gd: "\<forall>i\<in>S. good ?ns i" and one: "1 \<notin> S" and fo: "free_ok t"
    and fr: "\<forall>j\<in>set (availableIndexes t). j \<notin> S \<and> j \<noteq> parent"
    and la: "1 \<le> Length address" and hb: "bit (prefix ?n) 31 = bit (Address address) 31"
    by (simp_all add: add_pre_def)
  have nS: "nodeIndex \<in> S" using st n0 by (rule subtree_root_mem)
  then have nl: "nodeIndex < length ?ns" using subtree_range [OF st] by simp
  have gn: "good ?ns nodeIndex" using gd nS by simp
  have n1: "nodeIndex \<noteq> 1" using nS one by auto
  with gn have nok: "node_ok ?n" by (simp add: good_def)
  then have pl0: "prefixLength ?n \<noteq> 0" by (simp add: node_ok_def)
  have m0: "?m \<noteq> 0"
    using leading_match_pos [of "min (Length address) (prefixLength ?n)" "Address address" "prefix ?n"]
      la pl0 hb by (simp add: MatchCount_def)
  from st n0 obtain L R where S: "S = insert nodeIndex (L \<union> R)"
    and sl: "subtree ?ns (Left ?n) L" and sr: "subtree ?ns (Right ?n) R"
    and nL: "nodeIndex \<notin> L" and nR: "nodeIndex \<notin> R" and LR: "L \<inter> R = {}"
    by (auto elim: subtree_nodeE)
  show ?case
  proof (cases "?m = Length address")
    case True
    show ?thesis
    proof (cases "?m = prefixLength ?n")
      case exact: True
      from add_exact_post [OF pre, of tag] show ?thesis
        using n0 nl pl0 m0 True exact by (subst add_loop.simps) simp
    next
      case False
      then have "?m < prefixLength ?n"
        using MatchCount_le_prefixLength [of ?n address] by simp
      from insertParent_post [OF pre True this, of tag] show ?thesis
        using n0 nl pl0 m0 True False by (subst add_loop.simps) simp
    qed
  next
    case notall: False
    then have mlt: "?m < Length address"
      using MatchCount_le_Length [of ?n address] by simp
    show ?thesis
    proof (cases "?m = prefixLength ?n")
      case False
      then have "?m < prefixLength ?n"
        using MatchCount_le_prefixLength [of ?n address] by simp
      from splitNode_post [OF pre refl _ mlt this, of tag] m0 show ?thesis
        using n0 nl pl0 notall False by (subst add_loop.simps) simp
    next
      case full: True
      have la': "1 \<le> Length ?a'" using mlt by (simp add: ShiftLeft_def)
      show ?thesis
      proof (cases "Address ?a' < leftmost32Bit")
        case left: True
        then have side: "True = (\<not> bit (Address ?a') 31)" by (simp add: less_leftmost32Bit)
        show ?thesis
        proof (cases "Left ?n = 0")
          case True
          then have slot: "if True then Left ?n = 0 else Right ?n = 0" by simp
          from addLeaf_post [OF pre slot la' side, of tag] show ?thesis
            using n0 nl pl0 m0 notall full left True by (subst add_loop.simps) simp
        next
          case False
          have cpre: "add_pre t nodeIndex (Left ?n) L ?a'"
            unfolding add_pre_def
            using fo sl False gd S one nl nL fr la' gn side
            by (auto simp add: good_def child_bits_ok_def)
          from "1.IH"(1) [OF n0 _ pl0 m0 notall full left False cpre] nl
          obtain t' where res: "add_loop t nodeIndex (Left ?n) ?a' tag = Inr t'"
            and post: "add_post t nodeIndex (Left ?n) L t'"
            by auto
          have "add_post t parent nodeIndex S t'"
            by (rule add_post_from_lift [OF pre _ False sl post]) simp
          with res show ?thesis
            using n0 nl pl0 m0 notall full left False by (subst add_loop.simps) simp
        qed
      next
        case right: False
        then have side: "False = (\<not> bit (Address ?a') 31)" by (simp add: less_leftmost32Bit)
        show ?thesis
        proof (cases "Right ?n = 0")
          case True
          then have slot: "if False then Left ?n = 0 else Right ?n = 0" by simp
          from addLeaf_post [OF pre slot la' side, of tag] show ?thesis
            using n0 nl pl0 m0 notall full right True by (subst add_loop.simps) simp
        next
          case False
          have cpre: "add_pre t nodeIndex (Right ?n) R ?a'"
            unfolding add_pre_def
            using fo sr False gd S one nl nR fr la' gn side
            by (auto simp add: good_def child_bits_ok_def)
          from "1.IH"(2) [OF n0 _ pl0 m0 notall full right False cpre] nl
          obtain t' where res: "add_loop t nodeIndex (Right ?n) ?a' tag = Inr t'"
            and post: "add_post t nodeIndex (Right ?n) R t'"
            by auto
          have "add_post t parent nodeIndex S t'"
            by (rule add_post_from_lift [OF pre _ False sr post]) simp
          with res show ?thesis
            using n0 nl pl0 m0 notall full right False by (subst add_loop.simps) simp
        qed
      qed
    qed
  qed
qed

lemma tree_inv_alt:
  "tree_inv t = (free_ok t \<and> (\<exists>S. subtree (nodes t) 1 S \<and> (\<forall>i\<in>S. good (nodes t) i)
                                  \<and> (\<forall>j\<in>set (availableIndexes t). j \<notin> S)))"
proof
  assume "tree_inv t"
  then obtain S where S: "subtree (nodes t) 1 S" "\<forall>i\<in>S. good (nodes t) i"
    "distinct (availableIndexes t)"
    "\<forall>j\<in>set (availableIndexes t). j \<notin> S \<and> j < length (nodes t) \<and> j \<noteq> 0"
    unfolding tree_inv_def by blast
  from subtree_root_mem [OF S(1)] subtree_range [OF S(1)] have "0 < length (nodes t)" by fastforce
  with S show "free_ok t \<and> (\<exists>S. subtree (nodes t) 1 S \<and> (\<forall>i\<in>S. good (nodes t) i)
                                  \<and> (\<forall>j\<in>set (availableIndexes t). j \<notin> S))"
    unfolding free_ok_def by blast
next
  assume "free_ok t \<and> (\<exists>S. subtree (nodes t) 1 S \<and> (\<forall>i\<in>S. good (nodes t) i)
                                  \<and> (\<forall>j\<in>set (availableIndexes t). j \<notin> S))"
  then show "tree_inv t" unfolding tree_inv_def free_ok_def by blast
qed

lemma tree_invI:
  "free_ok t \<Longrightarrow> subtree (nodes t) 1 S \<Longrightarrow> (\<forall>i\<in>S. good (nodes t) i) \<Longrightarrow>
   (\<forall>j\<in>set (availableIndexes t). j \<notin> S) \<Longrightarrow> tree_inv t"
  unfolding tree_inv_alt by blast

lemma addTag_root_inv:
  assumes "tree_inv t"
  shows "\<exists>t'. addTag t tag 1 = Inr t' \<and> tree_inv t'"
proof -
  let ?ns = "nodes t"
  from assms obtain S where fo: "free_ok t" and st: "subtree ?ns 1 S"
    and gd: "\<forall>i\<in>S. good ?ns i" and fr: "\<forall>j\<in>set (availableIndexes t). j \<notin> S"
    unfolding tree_inv_alt by blast
  have rS: "1 \<in> S" using subtree_root_mem [OF st] by simp
  then have rl: "1 < length ?ns" using subtree_range [OF st] by blast
  let ?ns' = "?ns[1 := (?ns ! 1)\<lparr>TagCount := TagCount (?ns ! 1) + 1\<rparr>]"
  let ?t' = "t\<lparr>tags := (tags t)(tagKey 1 (TagCount (?ns ! 1)) \<mapsto> tag), nodes := ?ns'\<rparr>"
  have eq: "addTag t tag 1 = Inr ?t'" using rl by (rule addTag_eq)
  have kept: "subtree ?ns' 1 S" "\<forall>i\<in>S. good ?ns' i"
    using subtree_kept [OF st _ gd, of ?ns'] rl by simp_all
  have "tree_inv ?t'"
    using fo kept fr by (intro tree_invI [where S = S]) (simp_all add: free_ok_def)
  with eq show ?thesis by blast
qed

theorem Add_preserves_inv:
  assumes "tree_inv t"
  shows "\<exists>t'. Add t a tag = Inr t' \<and> tree_inv t'"
proof -
  let ?ns = "nodes t"
  from assms obtain S where fo: "free_ok t" and st: "subtree ?ns 1 S"
    and gd: "\<forall>i\<in>S. good ?ns i" and fr: "\<forall>j\<in>set (availableIndexes t). j \<notin> S"
    unfolding tree_inv_alt by blast
  have rS: "1 \<in> S" using subtree_root_mem [OF st] by simp
  then have rl: "1 < length ?ns" using subtree_range [OF st] by blast
  from st obtain L R where S: "S = insert 1 (L \<union> R)"
    and sl: "subtree ?ns (Left (?ns ! 1)) L" and sr: "subtree ?ns (Right (?ns ! 1)) R"
    and nL: "1 \<notin> L" and nR: "1 \<notin> R" and LR: "L \<inter> R = {}"
    by (auto elim: subtree_nodeE)
  have gr: "good ?ns 1" using gd rS by simp
  have rnf: "1 \<notin> set (availableIndexes t)" using fr rS by auto
  show ?thesis
  proof (cases "a = None \<or> (\<exists>a'. a = Some a' \<and> Length a' = 0)")
    case True
    with addTag_root_inv [OF assms, of tag] rl show ?thesis
      by (auto simp add: Add_def)
  next
    case False
    then obtain a' where a: "a = Some a'" and la: "1 \<le> Length a'" by (cases a) auto
    define onLeft where "onLeft = (Address a' < leftmost32Bit)"
    define c where "c = (if onLeft then Left (?ns ! 1) else Right (?ns ! 1))"
    have side: "onLeft = (\<not> bit (Address a') 31)" by (simp add: onLeft_def less_leftmost32Bit)
    show ?thesis
    proof (cases "c = 0")
      case True
      then have slot: "if onLeft then Left (?ns ! 1) = 0 else Right (?ns ! 1) = 0"
        unfolding c_def by (cases onLeft) simp_all
      from addLeaf_holder [OF fo st _ gd fr slot la side, of tag] obtain t' k where
        res: "addLeaf t 1 onLeft a' tag = Inr t'" and kS: "k \<notin> S"
        and st': "subtree (nodes t') 1 (insert k S)" and g': "\<forall>i\<in>insert k S. good (nodes t') i"
        and fo': "free_ok t'" and sub: "set (availableIndexes t') \<subseteq> set (availableIndexes t)"
        and kf: "k \<notin> set (availableIndexes t')"
        by auto
      have "tree_inv t'"
        using fo' st' g' sub kf fr by (intro tree_invI [where S = "insert k S"]) auto
      moreover have "Add t a tag = Inr t'"
        using rl a la res True by (auto simp add: Add_def c_def onLeft_def split: if_splits)
      ultimately show ?thesis by blast
    next
      case False
      define Sc where "Sc = (if onLeft then L else R)"
      have sc: "subtree ?ns c Sc" using sl sr by (simp add: c_def Sc_def)
      have ScS: "Sc \<subseteq> S" "1 \<notin> Sc" using S nL nR by (auto simp add: Sc_def)
      have hb: "bit (prefix (?ns ! c)) 31 = bit (Address a') 31"
        using gr False side by (auto simp add: good_def child_bits_ok_def c_def split: if_splits)
      have pre: "add_pre t 1 c Sc a'"
        unfolding add_pre_def
        using fo sc False gd ScS rl fr rnf la hb by (auto simp add: c_def)
      from add_loop_post [OF pre, of tag] obtain t' where
        res: "add_loop t 1 c a' tag = Inr t'" and post: "add_post t 1 c Sc t'"
        by blast
      have cc: "c = Left (?ns ! 1) \<or> c = Right (?ns ! 1)" by (simp add: c_def)
      from lift_node [OF st _ gd fr cc False sc post] obtain S' where
        st': "subtree (nodes t') 1 S'" and g': "\<forall>i\<in>S'. good (nodes t') i"
        and f': "\<forall>j\<in>set (availableIndexes t'). j \<notin> S'"
        by auto
      have fo': "free_ok t'" using post by (simp add: add_post_def)
      have "tree_inv t'" using fo' st' g' f' by (rule tree_invI)
      moreover have "Add t a tag = Inr t'"
        using rl a la res False by (auto simp add: Add_def c_def onLeft_def split: if_splits)
      ultimately show ?thesis by blast
    qed
  qed
qed

section \<open>Delete preserves the structural invariant\<close>

text \<open>
  The traversal ends at a target below a parent of the tree; every compaction replaces the
  subtree below the parent by a smaller one and releases the target.
\<close>

lemma subtree_child_mem:
  "subtree ns r S \<Longrightarrow> j \<in> S \<Longrightarrow> c = Left (ns ! j) \<or> c = Right (ns ! j) \<Longrightarrow> c \<noteq> 0 \<Longrightarrow>
   c \<in> S \<and> c \<noteq> r"
proof (induction rule: subtree.induct)
  case subtree_empty
  then show ?case by simp
next
  case (subtree_node r L R)
  show ?case
  proof (cases "j = r")
    case True
    with subtree_node.prems subtree_node.hyps(3,4) have "c \<in> L \<union> R"
      using subtree_root_mem by auto
    with subtree_node.hyps(5,6) show ?thesis by auto
  next
    case False
    with subtree_node.prems have "j \<in> L \<or> j \<in> R" by simp
    with subtree_node.IH subtree_node.prems have "c \<in> L \<union> R" by auto
    with subtree_node.hyps(5,6) show ?thesis by auto
  qed
qed

text \<open>What the traversal of \<open>Delete\<close> yields on a well-formed tree.\<close>

lemma delete_find_inv:
  assumes st: "subtree (nodes t) 1 S" and gd: "\<forall>i\<in>S. good (nodes t) i"
  shows "p \<in> S \<Longrightarrow> n = Left (nodes t ! p) \<or> n = Right (nodes t ! p) \<Longrightarrow>
         delete_find t p n a = Some (Inr NotFound)
         \<or> (\<exists>p' tgt. delete_find t p n a = Some (Inr (Found p' tgt)) \<and> p' \<in> S \<and> tgt \<in> S
               \<and> tgt \<noteq> 1 \<and> (Left (nodes t ! p') = tgt \<or> Right (nodes t ! p') = tgt))"
proof (induction "Length a" arbitrary: p n a rule: less_induct)
  case less
  let ?ns = "nodes t"
  let ?m = "MatchCount (?ns ! n) a"
  let ?a' = "ShiftLeft a ?m"
  show ?case
  proof (cases "n = 0")
    case True
    then show ?thesis by (subst delete_find.simps) simp
  next
    case False
    from subtree_child_mem [OF st less.prems(1) less.prems(2) False]
    have nS: "n \<in> S" and n1: "n \<noteq> 1" by simp_all
    have nl: "n < length ?ns" using subtree_range [OF st nS] by simp
    have nok: "node_ok (?ns ! n)" using gd nS n1 by (simp add: good_def)
    show ?thesis
    proof (cases "?m < prefixLength (?ns ! n)")
      case True
      then show ?thesis using False nl by (subst delete_find.simps) simp
    next
      case full: False
      show ?thesis
      proof (cases "?m = Length a")
        case True
        then have "delete_find t p n a = Some (Inr (Found p n))"
          using False nl full by (subst delete_find.simps) simp
        then show ?thesis using less.prems nS n1 by auto
      next
        case more: False
        have "0 < ?m" using full nok by (simp add: node_ok_def)
        moreover have "?m \<le> Length a" by (rule MatchCount_le_Length)
        ultimately have dec: "Length ?a' < Length a" by (simp add: ShiftLeft_def)
        let ?c = "if Address ?a' < leftmost32Bit then Left (?ns ! n) else Right (?ns ! n)"
        have "?c = Left (?ns ! n) \<or> ?c = Right (?ns ! n)" by simp
        from less.hyps [OF dec nS this]
        have "delete_find t n ?c ?a' = Some (Inr NotFound)
              \<or> (\<exists>p' tgt. delete_find t n ?c ?a' = Some (Inr (Found p' tgt)) \<and> p' \<in> S \<and> tgt \<in> S
                   \<and> tgt \<noteq> 1 \<and> (Left (?ns ! p') = tgt \<or> Right (?ns ! p') = tgt))" .
        moreover have "delete_find t p n a = delete_find t n ?c ?a'"
          using False nl full more by (subst delete_find.simps) simp
        ultimately show ?thesis by simp
      qed
    qed
  qed
qed

text \<open>Replacing the subtree below a node \<open>p\<close> of the tree, keeping the index \<open>p\<close> and the
  leading bit of its prefix.\<close>

lemma subtree_replace:
  assumes sp: "subtree ns p Sp" and p0: "p \<noteq> 0"
    and new: "subtree ns' p Sp'" and sub: "Sp' \<subseteq> Sp" and gnew: "\<forall>i\<in>Sp'. good ns' i"
    and hb: "bit (prefix (ns' ! p)) 31 = bit (prefix (ns ! p)) 31"
    and frame: "\<forall>j<length ns. j \<notin> Sp \<longrightarrow> ns' ! j = ns ! j" and len: "length ns' = length ns"
  shows "subtree ns r S \<Longrightarrow> \<forall>i\<in>S. good ns i \<Longrightarrow> p \<in> S \<Longrightarrow>
         \<exists>S'. subtree ns' r S' \<and> S' \<subseteq> S \<and> S' \<subseteq> (S - Sp) \<union> Sp' \<and> (\<forall>i\<in>S'. good ns' i)
              \<and> bit (prefix (ns' ! r)) 31 = bit (prefix (ns ! r)) 31"
proof (induction rule: subtree.induct)
  case subtree_empty
  then show ?case by simp
next
  case (subtree_node r L R)
  have stS: "subtree ns r (insert r (L \<union> R))"
    by (rule subtree.subtree_node [OF subtree_node.hyps])
  show ?case
  proof (cases "r = p")
    case True
    with stS sp have "Sp = insert r (L \<union> R)" by (auto dest: subtree_unique)
    with True new gnew hb sub show ?thesis by auto
  next
    case False
    have inSp: "Sp \<subseteq> X" if "subtree ns c X" "p \<in> X" for c X
    proof -
      from subtree_sub [OF that] obtain Si where "subtree ns p Si" "Si \<subseteq> X" by blast
      with sp show ?thesis by (auto dest: subtree_unique)
    qed
    have rr: "ns' ! r = ns ! r"
    proof -
      from False subtree_node.prems(2) have "p \<in> L \<or> p \<in> R" by simp
      then have "Sp \<subseteq> L \<or> Sp \<subseteq> R"
        using inSp subtree_node.hyps(3,4) by blast
      with subtree_node.hyps(5,6) have "r \<notin> Sp" by auto
      with frame subtree_node.hyps(2) show ?thesis by simp
    qed
    have rl': "r < length ns'" using subtree_node.hyps(2) len by simp
    have side:
      "\<exists>X'. subtree ns' c X' \<and> X' \<subseteq> X \<and> X' \<subseteq> (X - Sp) \<union> Sp' \<and> (\<forall>i\<in>X'. good ns' i)
           \<and> (c \<noteq> 0 \<longrightarrow> bit (prefix (ns' ! c)) 31 = bit (prefix (ns ! c)) 31)"
      if sc: "subtree ns c X" and X: "X \<subseteq> L \<union> R"
        and IH: "\<forall>i\<in>X. good ns i \<Longrightarrow> p \<in> X \<Longrightarrow>
               \<exists>S'. subtree ns' c S' \<and> S' \<subseteq> X \<and> S' \<subseteq> (X - Sp) \<union> Sp' \<and> (\<forall>i\<in>S'. good ns' i)
                  \<and> bit (prefix (ns' ! c)) 31 = bit (prefix (ns ! c)) 31"
        and other: "p \<notin> X \<Longrightarrow> X \<inter> Sp = {}"
      for c X
    proof (cases "p \<in> X")
      case True
      with IH subtree_node.prems(1) X show ?thesis by blast
    next
      case False
      with other have dis: "X \<inter> Sp = {}" by simp
      have fr: "\<forall>j\<in>X. ns' ! j = ns ! j"
        using frame dis subtree_range [OF sc] by auto
      have "subtree ns' c X" using subtree_frame [OF sc fr] len by simp
      moreover have "\<forall>i\<in>X. good ns' i"
        using good_frame [OF sc _ fr] subtree_node.prems(1) X by blast
      moreover have "c \<noteq> 0 \<longrightarrow> ns' ! c = ns ! c"
        using fr subtree_root_mem [OF sc] by auto
      ultimately show ?thesis using dis by auto
    qed
    have pLR: "p \<in> L \<or> p \<in> R" using False subtree_node.prems(2) by simp
    have oL: "L \<inter> Sp = {}" if "p \<notin> L"
    proof -
      from that pLR have "p \<in> R" by simp
      then have "Sp \<subseteq> R" using inSp subtree_node.hyps(4) by blast
      with subtree_node.hyps(7) show ?thesis by auto
    qed
    have oR: "R \<inter> Sp = {}" if "p \<notin> R"
    proof -
      from that pLR have "p \<in> L" by simp
      then have "Sp \<subseteq> L" using inSp subtree_node.hyps(3) by blast
      with subtree_node.hyps(7) show ?thesis by auto
    qed
    from side [OF subtree_node.hyps(3) _ subtree_node.IH(1) oL] obtain L' where
      L': "subtree ns' (Left (ns ! r)) L'" "L' \<subseteq> L" "L' \<subseteq> (L - Sp) \<union> Sp'" "\<forall>i\<in>L'. good ns' i"
      "Left (ns ! r) \<noteq> 0 \<longrightarrow> bit (prefix (ns' ! Left (ns ! r))) 31 = bit (prefix (ns ! Left (ns ! r))) 31"
      by auto
    from side [OF subtree_node.hyps(4) _ subtree_node.IH(2) oR] obtain R' where
      R': "subtree ns' (Right (ns ! r)) R'" "R' \<subseteq> R" "R' \<subseteq> (R - Sp) \<union> Sp'" "\<forall>i\<in>R'. good ns' i"
      "Right (ns ! r) \<noteq> 0 \<longrightarrow> bit (prefix (ns' ! Right (ns ! r))) 31 = bit (prefix (ns ! Right (ns ! r))) 31"
      by auto
    have rSp: "r \<notin> Sp"
    proof -
      from pLR have "Sp \<subseteq> L \<or> Sp \<subseteq> R"
        using inSp subtree_node.hyps(3,4) by blast
      with subtree_node.hyps(5,6) show ?thesis by auto
    qed
    have st': "subtree ns' r (insert r (L' \<union> R'))"
    proof (rule subtree_nodeI [where L = L' and R = R' and l = "Left (ns ! r)" and r = "Right (ns ! r)"])
    qed (use subtree_node.hyps rl' rr L'(1,2) R'(1,2) in auto)
    have gr: "good ns' r"
      using subtree_node.prems(1) rr L'(5) R'(5)
      by (auto simp add: good_def child_bits_ok_def)
    have "insert r (L' \<union> R') \<subseteq> (insert r (L \<union> R) - Sp) \<union> Sp'"
      using rSp L'(3) R'(3) by auto
    moreover have "insert r (L' \<union> R') \<subseteq> insert r (L \<union> R)" using L'(2) R'(2) by auto
    moreover have "\<forall>i\<in>insert r (L' \<union> R'). good ns' i" using gr L'(4) R'(4) by auto
    ultimately show ?thesis using st' rr by auto
  qed
qed

lemma putBack_nodes:
  "n < length (nodes t) \<Longrightarrow>
   \<exists>d' k' t'. putBack t n v (Some f) tgs d k = Inr (d', k', t') \<and> k \<le> k'
      \<and> nodes t' = (nodes t)[n := (nodes t ! n)\<lparr>TagCount := TagCount (nodes t ! n) + (k' - k)\<rparr>]
      \<and> availableIndexes t' = availableIndexes t"
proof (induction tgs arbitrary: t d k)
  case Nil
  then show ?case by simp
next
  case (Cons tag tgs)
  show ?case
  proof (cases "f tag v")
    case True
    with Cons.IH [OF Cons.prems, of "d + 1" k] show ?thesis by simp
  next
    case False
    let ?t1 = "t\<lparr>tags := (tags t)(tagKey n (TagCount (nodes t ! n)) \<mapsto> tag),
                 nodes := (nodes t)[n := (nodes t ! n)\<lparr>TagCount := TagCount (nodes t ! n) + 1\<rparr>]\<rparr>"
    have at: "addTag t tag n = Inr ?t1" using Cons.prems by (rule addTag_eq)
    have "n < length (nodes ?t1)" using Cons.prems by simp
    from Cons.IH [OF this, of d "k + 1"] obtain d' k' t' where
      pb: "putBack ?t1 n v (Some f) tgs d (k + 1) = Inr (d', k', t')" and le: "k + 1 \<le> k'"
      and ns: "nodes t' = (nodes ?t1)[n := (nodes ?t1 ! n)\<lparr>TagCount := TagCount (nodes ?t1 ! n) + (k' - (k + 1))\<rparr>]"
      and av: "availableIndexes t' = availableIndexes ?t1"
      by blast
    have "TagCount (nodes t ! n) + 1 + (k' - (k + 1)) = TagCount (nodes t ! n) + (k' - k)"
      using le by simp
    then have "nodes t' = (nodes t)[n := (nodes t ! n)\<lparr>TagCount := TagCount (nodes t ! n) + (k' - k)\<rparr>]"
      using ns Cons.prems by (simp del: add_Suc_right One_nat_def)
    with pb le av at False show ?thesis by simp
  qed
qed

lemma deleteTag_nodes:
  assumes "n < length (nodes t)"
  shows "\<exists>d k t1. deleteTag t n v (Some f) = Inr (d, k, t1)
           \<and> nodes t1 = (nodes t)[n := (nodes t ! n)\<lparr>TagCount := k\<rparr>]
           \<and> availableIndexes t1 = availableIndexes t"
proof -
  let ?t2 = "setTagCount (t\<lparr>tags := fold (\<lambda>i m. m(tagKey n i := None))
                                   [0..<TagCount (nodes t ! n)] (tags t)\<rparr>) n 0"
  have "n < length (nodes ?t2)" using assms by simp
  from putBack_nodes [OF this, of v f "node_tags t n" 0 0] assms
  show ?thesis by (auto simp add: deleteTag_def Let_def)
qed

lemma deleteTag_nil_func:
  assumes "n < length (nodes t)" and "TagCount (nodes t ! n) \<noteq> 0"
  shows "deleteTag t n v None = Inl NilFuncCall"
proof -
  from assms(2) obtain x xs where "node_tags t n = x # xs"
    by (cases "node_tags t n") (auto simp add: node_tags_def)
  with assms(1) show ?thesis by (simp add: deleteTag_def Let_def)
qed

lemma replace_inv:
  assumes fo: "free_ok t" and st: "subtree (nodes t) 1 S" and gd: "\<forall>i\<in>S. good (nodes t) i"
    and fr: "\<forall>j\<in>set (availableIndexes t). j \<notin> S"
    and pS: "p \<in> S" and sp: "subtree (nodes t) p Sp"
    and new: "subtree (nodes t') p Sp'" and sub: "Sp' \<subseteq> Sp" and gnew: "\<forall>i\<in>Sp'. good (nodes t') i"
    and hb: "bit (prefix (nodes t' ! p)) 31 = bit (prefix (nodes t ! p)) 31"
    and frame: "\<forall>j<length (nodes t). j \<notin> Sp \<longrightarrow> nodes t' ! j = nodes t ! j"
    and len: "length (nodes t') = length (nodes t)"
    and av: "availableIndexes t' = availableIndexes t @ rel"
    and rel: "distinct rel" "\<forall>x\<in>set rel. x \<in> Sp \<and> x \<notin> Sp'"
  shows "tree_inv t'"
proof -
  have p0: "p \<noteq> 0" using subtree_range [OF st pS] by simp
  from subtree_sub [OF st pS] sp have SpS: "Sp \<subseteq> S" by (auto dest: subtree_unique)
  from subtree_replace [OF sp p0 new sub gnew hb frame len st gd pS] obtain S' where
    st': "subtree (nodes t') 1 S'" and S'S: "S' \<subseteq> S" and S'sub: "S' \<subseteq> (S - Sp) \<union> Sp'"
    and g': "\<forall>i\<in>S'. good (nodes t') i"
    by blast
  have relS: "\<forall>x\<in>set rel. x \<in> S" using rel(2) SpS by auto
  have "free_ok t'"
    using fo av rel(1) relS fr len subtree_range [OF st]
    by (auto simp add: free_ok_def)
  moreover have "\<forall>j\<in>set (availableIndexes t'). j \<notin> S'"
    using av fr S'S S'sub rel(2) by auto
  ultimately show ?thesis using st' g' by (intro tree_invI [where S = S']) auto
qed

text \<open>Changing the tag count of a node of the tree.\<close>

lemma retag_inv:
  assumes fo: "free_ok t" and st: "subtree (nodes t) 1 S" and gd: "\<forall>i\<in>S. good (nodes t) i"
    and fr: "\<forall>j\<in>set (availableIndexes t). j \<notin> S" and nS: "n \<in> S"
    and ns1: "nodes t1 = (nodes t)[n := (nodes t ! n)\<lparr>TagCount := k\<rparr>]"
    and av1: "availableIndexes t1 = availableIndexes t"
    and ok: "n \<noteq> 1 \<longrightarrow> 1 \<le> k \<or> (Left (nodes t ! n) \<noteq> 0 \<and> Right (nodes t ! n) \<noteq> 0)"
  shows "tree_inv t1"
proof -
  let ?ns = "nodes t"
  have n0: "n \<noteq> 0" and nl: "n < length ?ns" using subtree_range [OF st nS] by simp_all
  from subtree_sub [OF st nS] obtain Sn where sn: "subtree ?ns n Sn" and SnS: "Sn \<subseteq> S" by blast
  have nok: "n \<noteq> 1 \<longrightarrow> node_ok (nodes t1 ! n)"
    using gd nS ok nl by (auto simp add: ns1 good_def node_ok_def)
  have kept: "subtree (nodes t1) n Sn" "\<forall>i\<in>Sn. good (nodes t1) i"
    using subtree_kept [OF sn n0 _ _ _ _ _ nok] gd SnS nl by (auto simp add: ns1)
  show ?thesis
  proof (rule replace_inv [OF fo st gd fr nS sn kept(1) _ kept(2), where rel = "[]"])
    show "\<forall>j<length ?ns. j \<notin> Sn \<longrightarrow> nodes t1 ! j = ?ns ! j"
    proof (intro allI impI)
      fix j assume "j \<notin> Sn"
      with subtree_root_mem [OF sn n0] have "j \<noteq> n" by auto
      then show "nodes t1 ! j = ?ns ! j" by (simp add: ns1)
    qed
  qed (use nl in \<open>simp_all add: ns1 av1\<close>)
qed

lemma bit31_high_bits: "1 \<le> n \<Longrightarrow> bit (high_bits n w) 31 = bit w 31"
  by (auto simp add: high_bits_def bit_push_bit_iff bit_drop_bit_eq)

lemma bit31_drop_bit: "1 \<le> n \<Longrightarrow> \<not> bit (drop_bit n (w :: 32 word)) 31"
  by (auto simp add: bit_drop_bit_eq dest: bit_imp_le_length)

lemma MergePrefixes32_bit31:
  "1 \<le> a_len \<Longrightarrow> bit (fst (MergePrefixes32 a a_len b b_len)) 31 = bit a 31"
  by (simp add: MergePrefixes32_def bit31_high_bits bit_or_iff bit31_drop_bit)

lemma MergePrefixes32_length [simp]: "snd (MergePrefixes32 a a_len b b_len) = a_len + b_len"
  by (simp add: MergePrefixes32_def)

lemma del_shapeD:
  assumes "del_shape ns p tgt Lp Rp Lt Rt"
  shows "subtree ns (Left (ns ! p)) Lp" and "subtree ns (Right (ns ! p)) Rp"
    and "p \<notin> Lp" and "p \<notin> Rp" and "Lp \<inter> Rp = {}"
    and "subtree ns (Left (ns ! tgt)) Lt" and "subtree ns (Right (ns ! tgt)) Rt"
    and "tgt \<notin> Lt" and "tgt \<notin> Rt" and "Lt \<inter> Rt = {}"
    and "insert tgt (Lt \<union> Rt) = (if Left (ns ! p) = tgt then Lp else Rp)"
    and "subtree ns p (insert p (Lp \<union> Rp))" and "subtree ns tgt (insert tgt (Lt \<union> Rt))"
    and "p \<noteq> tgt" and "p \<noteq> 0" and "tgt \<noteq> 0" and "p < length ns" and "tgt < length ns"
  using assms unfolding del_shape_def by blast+

lemma del_shape_ex:
  assumes st: "subtree ns 1 S" and pS: "p \<in> S" and tS: "tgt \<in> S"
    and link: "Left (ns ! p) = tgt \<or> Right (ns ! p) = tgt"
  shows "\<exists>Lp Rp Lt Rt. del_shape ns p tgt Lp Rp Lt Rt \<and> insert p (Lp \<union> Rp) \<subseteq> S"
proof -
  have p0: "p \<noteq> 0" and pl: "p < length ns" using subtree_range [OF st pS] by simp_all
  have t0: "tgt \<noteq> 0" and tl: "tgt < length ns" using subtree_range [OF st tS] by simp_all
  from subtree_sub [OF st pS] obtain Sp where sp: "subtree ns p Sp" and SpS: "Sp \<subseteq> S" by blast
  from sp p0 obtain Lp Rp where Sp: "Sp = insert p (Lp \<union> Rp)"
    and slp: "subtree ns (Left (ns ! p)) Lp" and srp: "subtree ns (Right (ns ! p)) Rp"
    and pLp: "p \<notin> Lp" and pRp: "p \<notin> Rp" and LRp: "Lp \<inter> Rp = {}"
    by (auto elim: subtree_nodeE)
  define St where "St = (if Left (ns ! p) = tgt then Lp else Rp)"
  have stt: "subtree ns tgt St" using link slp srp by (auto simp add: St_def)
  from stt t0 obtain Lt Rt where St: "St = insert tgt (Lt \<union> Rt)"
    and slt: "subtree ns (Left (ns ! tgt)) Lt" and srt: "subtree ns (Right (ns ! tgt)) Rt"
    and tLt: "tgt \<notin> Lt" and tRt: "tgt \<notin> Rt" and LRt: "Lt \<inter> Rt = {}"
    by (auto elim: subtree_nodeE)
  have "tgt \<in> St" using St by simp
  then have pt: "p \<noteq> tgt" using pLp pRp by (auto simp add: St_def split: if_splits)
  have "del_shape ns p tgt Lp Rp Lt Rt"
    unfolding del_shape_def
    using slp srp pLp pRp LRp slt srt tLt tRt LRt St St_def sp Sp stt pt p0 t0 pl tl
    by simp
  with SpS Sp show ?thesis by blast
qed

lemma absorb_inv:
  assumes fo: "free_ok t" and st: "subtree (nodes t) 1 S" and gd: "\<forall>i\<in>S. good (nodes t) i"
    and fr: "\<forall>j\<in>set (availableIndexes t). j \<notin> S" and pS: "p \<in> S"
    and ns1: "nodes t1 = (nodes t)[tgt := (nodes t ! tgt)\<lparr>TagCount := 0\<rparr>]"
    and av1: "availableIndexes t1 = availableIndexes t"
    and sh: "del_shape (nodes t) p tgt Lp Rp Lt Rt" and SpS: "insert p (Lp \<union> Rp) \<subseteq> S"
    and two: "Left (nodes t ! tgt) \<noteq> 0" "Right (nodes t ! tgt) \<noteq> 0"
    and only: "Left (nodes t ! p) = 0 \<or> Right (nodes t ! p) = 0" and p1: "1 < p"
  shows "tree_inv (releaseTarget (absorbTarget t1 p tgt) tgt)"
proof -
  let ?ns = "nodes t"
  note d = del_shapeD [OF sh]
  let ?mg = "MergePrefixes32 (prefix (?ns ! p)) (prefixLength (?ns ! p))
               (prefix (?ns ! tgt)) (prefixLength (?ns ! tgt))"
  let ?np = "(?ns ! p)\<lparr>Left := Left (?ns ! tgt), Right := Right (?ns ! tgt),
                          prefix := fst ?mg, prefixLength := snd ?mg\<rparr>"
  let ?nt = "(?ns ! tgt)\<lparr>TagCount := 0, Left := 0, Right := 0\<rparr>"
  define t' where "t' = releaseTarget (absorbTarget t1 p tgt) tgt"
  define ns' where "ns' = ?ns[tgt := ?nt, p := ?np]"
  have nodes': "nodes t' = ns'"
    using d(14,17,18)
    by (simp add: t'_def ns'_def releaseTarget_def absorbTarget_def Let_def ns1
        list_update_swap [of tgt p])
  have av': "availableIndexes t' = availableIndexes t @ [tgt]"
    by (simp add: t'_def releaseTarget_def absorbTarget_def Let_def av1)
  have nth_p: "ns' ! p = ?np" using d(17) by (simp add: ns'_def)
  have nth_o: "ns' ! j = ?ns ! j" if "j \<noteq> p" "j \<noteq> tgt" for j
    using that by (simp add: ns'_def)
  have len': "length ns' = length ?ns" by (simp add: ns'_def)
  have St: "insert tgt (Lt \<union> Rt) \<subseteq> Lp \<union> Rp" using d(11) by (auto split: if_splits)
  have pLt: "p \<notin> Lt \<union> Rt" using St d(3,4) by auto
  have frameT: "\<forall>j\<in>Lt \<union> Rt. ns' ! j = ?ns ! j"
  proof
    fix j assume "j \<in> Lt \<union> Rt"
    with pLt d(8,9) have "j \<noteq> p" "j \<noteq> tgt" by auto
    then show "ns' ! j = ?ns ! j" by (rule nth_o)
  qed
  have slt': "subtree ns' (Left (?ns ! tgt)) Lt"
    using subtree_frame [OF d(6), of ns'] frameT len' by simp
  have srt': "subtree ns' (Right (?ns ! tgt)) Rt"
    using subtree_frame [OF d(7), of ns'] frameT len' by simp
  have new: "subtree ns' p (insert p (Lt \<union> Rt))"
  proof (rule subtree_nodeI [where L = Lt and R = Rt and l = "Left (?ns ! tgt)"
        and r = "Right (?ns ! tgt)"])
  qed (use d(10,15,17) len' nth_p slt' srt' pLt in auto)
  have gT: "good ns' i" if "i \<in> Lt \<union> Rt" for i
  proof -
    have iS: "i \<in> S" using that St SpS by auto
    from that show ?thesis
    proof
      assume "i \<in> Lt"
      from good_frame [OF d(6) this, of ns'] frameT gd iS show ?thesis by simp
    next
      assume "i \<in> Rt"
      from good_frame [OF d(7) this, of ns'] frameT gd iS show ?thesis by simp
    qed
  qed
  have tS: "tgt \<in> S" using St SpS by auto
  have gt: "good ?ns tgt" and gp: "good ?ns p" using gd tS pS by simp_all
  have pok: "node_ok (?ns ! p)" using gp p1 by (simp add: good_def)
  have childT: "ns' ! c = ?ns ! c" if "c = Left (?ns ! tgt) \<or> c = Right (?ns ! tgt)" "c \<noteq> 0" for c
  proof -
    from that d(6,7) have "c \<in> Lt \<union> Rt" using subtree_root_mem by auto
    with frameT show ?thesis by simp
  qed
  have gp': "good ns' p"
    using gt pok two nth_p childT
    by (auto simp add: good_def child_bits_ok_def node_ok_def)
  have hb: "bit (prefix (ns' ! p)) 31 = bit (prefix (?ns ! p)) 31"
    using pok by (simp add: nth_p MergePrefixes32_bit31 node_ok_def)
  show ?thesis
    unfolding t'_def [symmetric]
  proof (rule replace_inv [OF fo st gd fr pS d(12), where Sp' = "insert p (Lt \<union> Rt)"
        and rel = "[tgt]"])
    show "subtree (nodes t') p (insert p (Lt \<union> Rt))" using new nodes' by simp
    show "insert p (Lt \<union> Rt) \<subseteq> insert p (Lp \<union> Rp)" using St by auto
    show "\<forall>i\<in>insert p (Lt \<union> Rt). good (nodes t') i" using gp' gT nodes' by auto
    show "bit (prefix (nodes t' ! p)) 31 = bit (prefix (?ns ! p)) 31" using hb nodes' by simp
    show "\<forall>j<length ?ns. j \<notin> insert p (Lp \<union> Rp) \<longrightarrow> nodes t' ! j = ?ns ! j"
    proof (intro allI impI)
      fix j assume "j \<notin> insert p (Lp \<union> Rp)"
      with St have "j \<noteq> p" "j \<noteq> tgt" by auto
      then show "nodes t' ! j = ?ns ! j" using nth_o nodes' by simp
    qed
    show "length (nodes t') = length ?ns" using len' nodes' by simp
    show "availableIndexes t' = availableIndexes t @ [tgt]" by (rule av')
    show "distinct [tgt]" by simp
    show "\<forall>x\<in>set [tgt]. x \<in> insert p (Lp \<union> Rp) \<and> x \<notin> insert p (Lt \<union> Rt)"
      using St d(8,9,14) by auto
  qed
qed

lemma liftChild_inv:
  assumes fo: "free_ok t" and st: "subtree (nodes t) 1 S" and gd: "\<forall>i\<in>S. good (nodes t) i"
    and fr: "\<forall>j\<in>set (availableIndexes t). j \<notin> S" and pS: "p \<in> S" and t1: "tgt \<noteq> 1"
    and link: "Left (nodes t ! p) = tgt \<or> Right (nodes t ! p) = tgt"
    and ns1: "nodes t1 = (nodes t)[tgt := (nodes t ! tgt)\<lparr>TagCount := 0\<rparr>]"
    and av1: "availableIndexes t1 = availableIndexes t"
    and sh: "del_shape (nodes t) p tgt Lp Rp Lt Rt" and SpS: "insert p (Lp \<union> Rp) \<subseteq> S"
    and one: "if onLeft then Left (nodes t ! tgt) \<noteq> 0 \<and> Right (nodes t ! tgt) = 0
              else Left (nodes t ! tgt) = 0 \<and> Right (nodes t ! tgt) \<noteq> 0"
  shows "\<exists>t2. liftChild t1 p tgt onLeft = Inr t2 \<and> tree_inv (releaseTarget t2 tgt)"
proof -
  let ?ns = "nodes t"
  note d = del_shapeD [OF sh]
  define c where "c = (if onLeft then Left (?ns ! tgt) else Right (?ns ! tgt))"
  define Sc where "Sc = (if onLeft then Lt else Rt)"
  have c0: "c \<noteq> 0" using one by (auto simp add: c_def split: if_splits)
  have sc: "subtree ?ns c Sc" using d(6,7) by (simp add: c_def Sc_def)
  have LtRt: "Lt \<union> Rt = Sc"
    using one d(6,7) by (auto simp add: Sc_def dest: subtree_0 split: if_splits)
  have cSc: "c \<in> Sc" using sc c0 by (rule subtree_root_mem)
  have St: "insert tgt Sc \<subseteq> Lp \<union> Rp" using d(11) LtRt by (auto split: if_splits)
  have tS: "tgt \<in> S" using St SpS by auto
  have cS: "c \<in> S" and c1: "c \<noteq> 1"
    using subtree_child_mem [OF st tS _ c0, of ] by (simp_all add: c_def)
  have cl: "c < length ?ns" using subtree_range [OF st cS] by simp
  have pSc: "p \<notin> Sc" using St d(3,4) by auto
  have tSc: "tgt \<notin> Sc" using d(8,9) LtRt by auto
  have cp: "c \<noteq> p" and ct: "c \<noteq> tgt" using cSc pSc tSc by auto
  let ?mg = "MergePrefixes32 (prefix (?ns ! tgt)) (prefixLength (?ns ! tgt))
               (prefix (?ns ! c)) (prefixLength (?ns ! c))"
  let ?nc = "(?ns ! c)\<lparr>prefix := fst ?mg, prefixLength := snd ?mg\<rparr>"
  let ?np = "if Left (?ns ! p) = tgt then (?ns ! p)\<lparr>Left := c\<rparr> else (?ns ! p)\<lparr>Right := c\<rparr>"
  let ?nt = "(?ns ! tgt)\<lparr>TagCount := 0, Left := 0, Right := 0\<rparr>"
  define ns' where "ns' = ?ns[tgt := ?nt, p := ?np, c := ?nc]"
  define t2 where "t2 = setPrefix (if Left (?ns ! p) = tgt then setLeft t1 p c else setRight t1 p c) c ?mg"
  have lc: "liftChild t1 p tgt onLeft = Inr t2"
    using d(14,17,18) cp ct cl
    by (auto simp add: liftChild_def Let_def ns1 c_def t2_def)
  define t' where "t' = releaseTarget t2 tgt"
  have nodes': "nodes t' = ns'"
    using d(14,17,18) cp ct cl
    by (auto simp add: t'_def t2_def ns'_def releaseTarget_def Let_def ns1
        list_update_swap [of tgt p] list_update_swap [of tgt c])
  have av': "availableIndexes t' = availableIndexes t @ [tgt]"
    by (simp add: t'_def t2_def releaseTarget_def Let_def av1)
  have nth_c: "ns' ! c = ?nc" using cl by (simp add: ns'_def)
  have nth_p: "ns' ! p = ?np" using d(17) cp by (simp add: ns'_def)
  have nth_o: "ns' ! j = ?ns ! j" if "j \<noteq> p" "j \<noteq> tgt" "j \<noteq> c" for j
    using that by (simp add: ns'_def)
  have len': "length ns' = length ?ns" by (simp add: ns'_def)
  have tok: "node_ok (?ns ! tgt)" using gd tS t1 by (simp add: good_def)
  have cok: "node_ok (?ns ! c)" using gd cS c1 by (simp add: good_def)
  have gSc: "\<forall>i\<in>Sc. good ?ns i" using gd St SpS by auto
  have sameSc: "\<forall>j\<in>Sc. j \<noteq> c \<longrightarrow> ns' ! j = ?ns ! j"
  proof (intro ballI impI)
    fix j assume "j \<in> Sc" "j \<noteq> c"
    with pSc tSc have "j \<noteq> p" "j \<noteq> tgt" "j \<noteq> c" by auto
    then show "ns' ! j = ?ns ! j" by (rule nth_o)
  qed
  have kept: "subtree ns' c Sc" "\<forall>i\<in>Sc. good ns' i"
    using subtree_kept [OF sc c0 gSc _ sameSc, of ] cok len'
    by (simp_all add: nth_c node_ok_def)
  have hbc: "bit (prefix (ns' ! c)) 31 = bit (prefix (?ns ! tgt)) 31"
    using tok by (simp add: nth_c MergePrefixes32_bit31 node_ok_def)
  have gp: "good ?ns p" using gd pS by simp
  show ?thesis
  proof (cases "Left (?ns ! p) = tgt")
    case True
    then have LpSt: "Lp = insert tgt Sc" using d(11) LtRt by simp
    have frameR: "\<forall>j\<in>Rp. ns' ! j = ?ns ! j"
    proof
      fix j assume "j \<in> Rp"
      with d(4,5) LpSt cSc have "j \<noteq> p" "j \<noteq> tgt" "j \<noteq> c" by auto
      then show "ns' ! j = ?ns ! j" by (rule nth_o)
    qed
    have sr': "subtree ns' (Right (?ns ! p)) Rp"
      using subtree_frame [OF d(2) frameR] len' by simp
    have new: "subtree ns' p (insert p (Sc \<union> Rp))"
    proof (rule subtree_nodeI [where L = Sc and R = Rp and l = c and r = "Right (?ns ! p)"])
    qed (use True d(4,5,15,17) len' nth_p kept(1) sr' pSc LpSt in auto)
    have gR: "good ns' i" if "i \<in> Rp" for i
      using good_frame [OF d(2) that frameR] gd SpS that by auto
    have rr: "ns' ! Right (?ns ! p) = ?ns ! Right (?ns ! p)" if "Right (?ns ! p) \<noteq> 0"
      using that d(2) frameR subtree_root_mem by blast
    have gp': "good ns' p"
      using gp True nth_p hbc rr c0 d(16)
      by (auto simp add: good_def child_bits_ok_def node_ok_def)
    have "tree_inv t'"
    proof (rule replace_inv [OF fo st gd fr pS d(12), where Sp' = "insert p (Sc \<union> Rp)"
          and rel = "[tgt]"])
      show "subtree (nodes t') p (insert p (Sc \<union> Rp))" using new nodes' by simp
      show "insert p (Sc \<union> Rp) \<subseteq> insert p (Lp \<union> Rp)" using LpSt by auto
      show "\<forall>i\<in>insert p (Sc \<union> Rp). good (nodes t') i" using gp' gR kept(2) nodes' by auto
      show "bit (prefix (nodes t' ! p)) 31 = bit (prefix (?ns ! p)) 31"
        using nth_p True nodes' by simp
      show "\<forall>j<length ?ns. j \<notin> insert p (Lp \<union> Rp) \<longrightarrow> nodes t' ! j = ?ns ! j"
      proof (intro allI impI)
        fix j assume "j \<notin> insert p (Lp \<union> Rp)"
        with LpSt cSc have "j \<noteq> p" "j \<noteq> tgt" "j \<noteq> c" by auto
        then show "nodes t' ! j = ?ns ! j" using nth_o nodes' by simp
      qed
      show "length (nodes t') = length ?ns" using len' nodes' by simp
      show "availableIndexes t' = availableIndexes t @ [tgt]" by (rule av')
      show "distinct [tgt]" by simp
      show "\<forall>x\<in>set [tgt]. x \<in> insert p (Lp \<union> Rp) \<and> x \<notin> insert p (Sc \<union> Rp)"
        using LpSt tSc d(5,14) by auto
    qed
    with lc show ?thesis by (auto simp add: t'_def)
  next
    case False
    with link have rt: "Right (?ns ! p) = tgt" by simp
    from False have RpSt: "Rp = insert tgt Sc" using d(11) LtRt by simp
    have frameL: "\<forall>j\<in>Lp. ns' ! j = ?ns ! j"
    proof
      fix j assume "j \<in> Lp"
      with d(3,5) RpSt cSc have "j \<noteq> p" "j \<noteq> tgt" "j \<noteq> c" by auto
      then show "ns' ! j = ?ns ! j" by (rule nth_o)
    qed
    have sl': "subtree ns' (Left (?ns ! p)) Lp"
      using subtree_frame [OF d(1) frameL] len' by simp
    have new: "subtree ns' p (insert p (Lp \<union> Sc))"
    proof (rule subtree_nodeI [where L = Lp and R = Sc and l = "Left (?ns ! p)" and r = c])
    qed (use False d(3,5,15,17) len' nth_p kept(1) sl' pSc RpSt in auto)
    have gL: "good ns' i" if "i \<in> Lp" for i
      using good_frame [OF d(1) that frameL] gd SpS that by auto
    have ll: "ns' ! Left (?ns ! p) = ?ns ! Left (?ns ! p)" if "Left (?ns ! p) \<noteq> 0"
      using that d(1) frameL subtree_root_mem by blast
    have gp': "good ns' p"
      using gp False rt nth_p hbc ll c0 d(16)
      by (auto simp add: good_def child_bits_ok_def node_ok_def)
    have "tree_inv t'"
    proof (rule replace_inv [OF fo st gd fr pS d(12), where Sp' = "insert p (Lp \<union> Sc)"
          and rel = "[tgt]"])
      show "subtree (nodes t') p (insert p (Lp \<union> Sc))" using new nodes' by simp
      show "insert p (Lp \<union> Sc) \<subseteq> insert p (Lp \<union> Rp)" using RpSt by auto
      show "\<forall>i\<in>insert p (Lp \<union> Sc). good (nodes t') i" using gp' gL kept(2) nodes' by auto
      show "bit (prefix (nodes t' ! p)) 31 = bit (prefix (?ns ! p)) 31"
        using nth_p False nodes' by simp
      show "\<forall>j<length ?ns. j \<notin> insert p (Lp \<union> Rp) \<longrightarrow> nodes t' ! j = ?ns ! j"
      proof (intro allI impI)
        fix j assume "j \<notin> insert p (Lp \<union> Rp)"
        with RpSt cSc have "j \<noteq> p" "j \<noteq> tgt" "j \<noteq> c" by auto
        then show "nodes t' ! j = ?ns ! j" using nth_o nodes' by simp
      qed
      show "length (nodes t') = length ?ns" using len' nodes' by simp
      show "availableIndexes t' = availableIndexes t @ [tgt]" by (rule av')
      show "distinct [tgt]" by simp
      show "\<forall>x\<in>set [tgt]. x \<in> insert p (Lp \<union> Rp) \<and> x \<notin> insert p (Lp \<union> Sc)"
        using RpSt tSc d(5,14) by auto
    qed
    with lc show ?thesis by (auto simp add: t'_def)
  qed
qed

lemma moveTags_nodes:
  assumes "a < length (nodes t)" and "b < length (nodes t)" and "a \<noteq> b"
  shows "\<exists>t'. moveTags t a b = Inr t'
           \<and> nodes t' = (nodes t)[b := (nodes t ! b)\<lparr>TagCount := TagCount (nodes t ! b) + TagCount (nodes t ! a)\<rparr>,
                                   a := (nodes t ! a)\<lparr>TagCount := 0\<rparr>]
           \<and> availableIndexes t' = availableIndexes t"
  using assms by (simp add: moveTags_def Let_def setTagCount_def)

text \<open>A target without children is unlinked from a parent that stays as it is.\<close>

lemma unlink_inv:
  assumes fo: "free_ok t" and st: "subtree (nodes t) 1 S" and gd: "\<forall>i\<in>S. good (nodes t) i"
    and fr: "\<forall>j\<in>set (availableIndexes t). j \<notin> S" and pS: "p \<in> S"
    and link: "Left (nodes t ! p) = tgt \<or> Right (nodes t ! p) = tgt"
    and sh: "del_shape (nodes t) p tgt Lp Rp Lt Rt" and SpS: "insert p (Lp \<union> Rp) \<subseteq> S"
    and keep: "p = 1 \<or> TagCount (nodes t ! p) \<noteq> 0"
    and nodes': "nodes t' = (nodes t)[tgt := X, p := (if Left (nodes t ! p) = tgt
                     then (nodes t ! p)\<lparr>Left := 0\<rparr> else (nodes t ! p)\<lparr>Right := 0\<rparr>)]"
    and av': "availableIndexes t' = availableIndexes t @ [tgt]"
  shows "tree_inv t'"
proof -
  let ?ns = "nodes t"
  note d = del_shapeD [OF sh]
  define ns' where "ns' = nodes t'"
  have nth_p: "ns' ! p = (if Left (?ns ! p) = tgt
                     then (?ns ! p)\<lparr>Left := 0\<rparr> else (?ns ! p)\<lparr>Right := 0\<rparr>)"
    using d(17) by (simp add: ns'_def nodes')
  have nth_o: "ns' ! j = ?ns ! j" if "j \<noteq> p" "j \<noteq> tgt" for j
    using that by (simp add: ns'_def nodes')
  have len': "length ns' = length ?ns" by (simp add: ns'_def nodes')
  have gp: "good ?ns p" using gd pS by simp
  have tin: "tgt \<in> (if Left (?ns ! p) = tgt then Lp else Rp)" using d(11) by auto
  define So where "So = (if Left (?ns ! p) = tgt then Rp else Lp)"
  define so where "so = (if Left (?ns ! p) = tgt then Right (?ns ! p) else Left (?ns ! p))"
  have sso: "subtree ?ns so So" using d(1,2) by (simp add: So_def so_def)
  have pSo: "p \<notin> So" using d(3,4) by (simp add: So_def)
  have tSo: "tgt \<notin> So" using tin d(5) by (auto simp add: So_def split: if_splits)
  have frameO: "\<forall>j\<in>So. ns' ! j = ?ns ! j"
  proof
    fix j assume "j \<in> So"
    with pSo tSo have "j \<noteq> p" "j \<noteq> tgt" by auto
    then show "ns' ! j = ?ns ! j" by (rule nth_o)
  qed
  have sso': "subtree ns' so So" using subtree_frame [OF sso frameO] len' by simp
  have se: "subtree ns' 0 {}" by (rule subtree_empty)
  have new: "subtree ns' p (insert p So)"
  proof (cases "Left (?ns ! p) = tgt")
    case True
    show ?thesis
    proof (rule subtree_nodeI [where L = "{}" and R = So and l = 0 and r = so])
    qed (use True d(15,17) len' nth_p sso' se pSo in \<open>auto simp add: so_def\<close>)
  next
    case False
    show ?thesis
    proof (rule subtree_nodeI [where L = So and R = "{}" and l = so and r = 0])
    qed (use False d(15,17) len' nth_p sso' se pSo in \<open>auto simp add: so_def\<close>)
  qed
  have gO: "good ns' i" if "i \<in> So" for i
  proof -
    have "i \<in> S" using that SpS by (auto simp add: So_def split: if_splits)
    then show ?thesis using good_frame [OF sso that frameO] gd by auto
  qed
  have oo: "ns' ! so = ?ns ! so" if "so \<noteq> 0"
    using that sso frameO subtree_root_mem by blast
  have gp': "good ns' p"
    using gp nth_p oo keep link
    by (auto simp add: good_def child_bits_ok_def node_ok_def so_def split: if_splits)
  show ?thesis
  proof (rule replace_inv [OF fo st gd fr pS d(12), where Sp' = "insert p So" and rel = "[tgt]"])
    show "subtree (nodes t') p (insert p So)" using new by (simp add: ns'_def)
    show "insert p So \<subseteq> insert p (Lp \<union> Rp)" by (auto simp add: So_def)
    show "\<forall>i\<in>insert p So. good (nodes t') i" using gp' gO by (auto simp add: ns'_def)
    show "bit (prefix (nodes t' ! p)) 31 = bit (prefix (?ns ! p)) 31"
      using nth_p by (simp add: ns'_def)
    show "\<forall>j<length ?ns. j \<notin> insert p (Lp \<union> Rp) \<longrightarrow> nodes t' ! j = ?ns ! j"
    proof (intro allI impI)
      fix j assume "j \<notin> insert p (Lp \<union> Rp)"
      with tin have "j \<noteq> p" "j \<noteq> tgt" by (auto split: if_splits)
      then show "nodes t' ! j = ?ns ! j" using nth_o by (simp add: ns'_def)
    qed
    show "length (nodes t') = length ?ns" using len' by (simp add: ns'_def)
    show "availableIndexes t' = availableIndexes t @ [tgt]" by (rule av')
    show "distinct [tgt]" by simp
    show "\<forall>x\<in>set [tgt]. x \<in> insert p (Lp \<union> Rp) \<and> x \<notin> insert p So"
      using tin tSo d(14) by (auto split: if_splits)
  qed
qed

text \<open>A target without children is unlinked and its sibling is merged into the parent.\<close>

lemma merge_inv:
  assumes fo: "free_ok t" and st: "subtree (nodes t) 1 S" and gd: "\<forall>i\<in>S. good (nodes t) i"
    and fr: "\<forall>j\<in>set (availableIndexes t). j \<notin> S" and pS: "p \<in> S"
    and link: "Left (nodes t ! p) = tgt \<or> Right (nodes t ! p) = tgt"
    and sh: "del_shape (nodes t) p tgt Lp Rp Lt Rt" and SpS: "insert p (Lp \<union> Rp) \<subseteq> S"
    and p1: "p \<noteq> 1"
    and s: "s = (if Left (nodes t ! p) = tgt then Right (nodes t ! p) else Left (nodes t ! p))"
    and s0: "s \<noteq> 0"
    and nodes': "nodes t' = (nodes t)[tgt := X,
           p := (nodes t ! p)\<lparr>Left := Left (nodes t ! s), Right := Right (nodes t ! s),
                   prefix := fst (MergePrefixes32 (prefix (nodes t ! p)) (prefixLength (nodes t ! p))
                                   (prefix (nodes t ! s)) (prefixLength (nodes t ! s))),
                   prefixLength := snd (MergePrefixes32 (prefix (nodes t ! p)) (prefixLength (nodes t ! p))
                                   (prefix (nodes t ! s)) (prefixLength (nodes t ! s))),
                   TagCount := TagCount (nodes t ! p) + TagCount (nodes t ! s)\<rparr>,
           s := (nodes t ! s)\<lparr>TagCount := 0\<rparr>]"
    and av': "availableIndexes t' = availableIndexes t @ [tgt]"
  shows "tree_inv t'"
proof -
  let ?ns = "nodes t"
  note d = del_shapeD [OF sh]
  define ns' where "ns' = nodes t'"
  have tin: "tgt \<in> (if Left (?ns ! p) = tgt then Lp else Rp)" using d(11) by auto
  define So where "So = (if Left (?ns ! p) = tgt then Rp else Lp)"
  have sso: "subtree ?ns s So" using d(1,2) by (simp add: So_def s)
  have pSo: "p \<notin> So" using d(3,4) by (simp add: So_def)
  have tSo: "tgt \<notin> So" using tin d(5) by (auto simp add: So_def split: if_splits)
  have sSo: "s \<in> So" using sso s0 by (rule subtree_root_mem)
  have sp: "s \<noteq> p" and stg: "s \<noteq> tgt" using sSo pSo tSo by auto
  have SoS: "So \<subseteq> S" using SpS by (auto simp add: So_def)
  have sS: "s \<in> S" using sSo SoS by auto
  have s1: "s \<noteq> 1" using subtree_child_mem [OF st pS _ s0, of ] by (auto simp add: s)
  have sl: "s < length ?ns" using subtree_range [OF st sS] by simp
  from sso s0 obtain Ls Rs where So: "So = insert s (Ls \<union> Rs)"
    and sls: "subtree ?ns (Left (?ns ! s)) Ls" and srs: "subtree ?ns (Right (?ns ! s)) Rs"
    and sLs: "s \<notin> Ls" and sRs: "s \<notin> Rs" and LRs: "Ls \<inter> Rs = {}"
    by (auto elim: subtree_nodeE)
  have nth_p: "ns' ! p = (?ns ! p)\<lparr>Left := Left (?ns ! s), Right := Right (?ns ! s),
                   prefix := fst (MergePrefixes32 (prefix (?ns ! p)) (prefixLength (?ns ! p))
                                   (prefix (?ns ! s)) (prefixLength (?ns ! s))),
                   prefixLength := snd (MergePrefixes32 (prefix (?ns ! p)) (prefixLength (?ns ! p))
                                   (prefix (?ns ! s)) (prefixLength (?ns ! s))),
                   TagCount := TagCount (?ns ! p) + TagCount (?ns ! s)\<rparr>"
    using d(17) sp by (simp add: ns'_def nodes')
  have nth_o: "ns' ! j = ?ns ! j" if "j \<noteq> p" "j \<noteq> tgt" "j \<noteq> s" for j
    using that by (simp add: ns'_def nodes')
  have len': "length ns' = length ?ns" by (simp add: ns'_def nodes')
  have pok: "node_ok (?ns ! p)" using gd pS p1 by (simp add: good_def)
  have gs: "good ?ns s" using gd sS by simp
  have frameC: "\<forall>j\<in>Ls \<union> Rs. ns' ! j = ?ns ! j"
  proof
    fix j assume "j \<in> Ls \<union> Rs"
    with pSo tSo sLs sRs So have "j \<noteq> p" "j \<noteq> tgt" "j \<noteq> s" by auto
    then show "ns' ! j = ?ns ! j" by (rule nth_o)
  qed
  have sls': "subtree ns' (Left (?ns ! s)) Ls"
    using subtree_frame [OF sls, of ns'] frameC len' by simp
  have srs': "subtree ns' (Right (?ns ! s)) Rs"
    using subtree_frame [OF srs, of ns'] frameC len' by simp
  have new: "subtree ns' p (insert p (Ls \<union> Rs))"
  proof (rule subtree_nodeI [where L = Ls and R = Rs and l = "Left (?ns ! s)"
        and r = "Right (?ns ! s)"])
  qed (use d(15,17) len' nth_p sls' srs' pSo So LRs in auto)
  have gC: "good ns' i" if "i \<in> Ls \<union> Rs" for i
  proof -
    have iS: "i \<in> S" using that So SoS by auto
    from that show ?thesis
    proof
      assume i: "i \<in> Ls"
      have "\<forall>j\<in>Ls. ns' ! j = ?ns ! j" using frameC by simp
      from good_frame [OF sls i this] gd iS show ?thesis by simp
    next
      assume i: "i \<in> Rs"
      have "\<forall>j\<in>Rs. ns' ! j = ?ns ! j" using frameC by simp
      from good_frame [OF srs i this] gd iS show ?thesis by simp
    qed
  qed
  have ll: "ns' ! Left (?ns ! s) = ?ns ! Left (?ns ! s)" if "Left (?ns ! s) \<noteq> 0"
    using subtree_root_mem [OF sls that] frameC by simp
  have rr: "ns' ! Right (?ns ! s) = ?ns ! Right (?ns ! s)" if "Right (?ns ! s) \<noteq> 0"
    using subtree_root_mem [OF srs that] frameC by simp
  have gp': "good ns' p"
    using gs s1 nth_p ll rr pok
    by (auto simp add: good_def child_bits_ok_def node_ok_def)
  show ?thesis
  proof (rule replace_inv [OF fo st gd fr pS d(12), where Sp' = "insert p (Ls \<union> Rs)"
        and rel = "[tgt]"])
    show "subtree (nodes t') p (insert p (Ls \<union> Rs))" using new by (simp add: ns'_def)
    show "insert p (Ls \<union> Rs) \<subseteq> insert p (Lp \<union> Rp)" using So by (auto simp add: So_def split: if_splits)
    show "\<forall>i\<in>insert p (Ls \<union> Rs). good (nodes t') i" using gp' gC by (auto simp add: ns'_def)
    show "bit (prefix (nodes t' ! p)) 31 = bit (prefix (?ns ! p)) 31"
      using nth_p pok by (simp add: ns'_def MergePrefixes32_bit31 node_ok_def)
    show "\<forall>j<length ?ns. j \<notin> insert p (Lp \<union> Rp) \<longrightarrow> nodes t' ! j = ?ns ! j"
    proof (intro allI impI)
      fix j assume "j \<notin> insert p (Lp \<union> Rp)"
      with tin sSo have "j \<noteq> p" "j \<noteq> tgt" "j \<noteq> s" by (auto simp add: So_def split: if_splits)
      then show "nodes t' ! j = ?ns ! j" using nth_o by (simp add: ns'_def)
    qed
    show "length (nodes t') = length ?ns" using len' by (simp add: ns'_def)
    show "availableIndexes t' = availableIndexes t @ [tgt]" by (rule av')
    show "distinct [tgt]" by simp
    show "\<forall>x\<in>set [tgt]. x \<in> insert p (Lp \<union> Rp) \<and> x \<notin> insert p (Ls \<union> Rs)"
      using tin tSo So d(14) by (auto split: if_splits)
  qed
qed

lemma treeNodeV4_update_order:
  "(n::treeNodeV4)\<lparr>prefix := a, prefixLength := b, TagCount := c, Left := d, Right := e\<rparr>
     = n\<lparr>Left := d, Right := e, prefix := a, prefixLength := b, TagCount := c\<rparr>"
  by (cases n) simp

lemma treeNodeV4_update_order2:
  "(n::treeNodeV4)\<lparr>prefix := a, prefixLength := b, TagCount := c, Right := e, Left := d\<rparr>
     = n\<lparr>Left := d, Right := e, prefix := a, prefixLength := b, TagCount := c\<rparr>"
  by (cases n) simp

lemma mergeSibling_nodes:
  assumes pl: "p < length (nodes t)" and sl: "s < length (nodes t)" and sp: "s \<noteq> p"
    and s: "s = (if right then Right (nodes t ! p) else Left (nodes t ! p))"
  shows "\<exists>t'. mergeSibling t p right = Inr t'
     \<and> nodes t' = (nodes t)[
           p := (nodes t ! p)\<lparr>Left := Left (nodes t ! s), Right := Right (nodes t ! s),
                   prefix := fst (MergePrefixes32 (prefix (nodes t ! p)) (prefixLength (nodes t ! p))
                                   (prefix (nodes t ! s)) (prefixLength (nodes t ! s))),
                   prefixLength := snd (MergePrefixes32 (prefix (nodes t ! p)) (prefixLength (nodes t ! p))
                                   (prefix (nodes t ! s)) (prefixLength (nodes t ! s))),
                   TagCount := TagCount (nodes t ! p) + TagCount (nodes t ! s)\<rparr>,
           s := (nodes t ! s)\<lparr>TagCount := 0\<rparr>]
     \<and> availableIndexes t' = availableIndexes t"
proof -
  define mg where "mg = MergePrefixes32 (prefix (nodes t ! p)) (prefixLength (nodes t ! p))
                                   (prefix (nodes t ! s)) (prefixLength (nodes t ! s))"
  define t1 where "t1 = setPrefix t p mg"
  have n1: "nodes t1 = (nodes t)[p := (nodes t ! p)\<lparr>prefix := fst mg, prefixLength := snd mg\<rparr>]"
    and a1: "availableIndexes t1 = availableIndexes t"
    by (simp_all add: t1_def setPrefix_def Let_def split_def)
  have s1: "(if right then Right (nodes t1 ! p) else Left (nodes t1 ! p)) = s"
    using pl by (simp add: n1 s)
  have "s < length (nodes t1)" "p < length (nodes t1)" using pl sl by (simp_all add: n1)
  from moveTags_nodes [OF this sp] obtain t2 where
    mv: "moveTags t1 s p = Inr t2"
    and n2: "nodes t2 = (nodes t1)[p := (nodes t1 ! p)\<lparr>TagCount := TagCount (nodes t1 ! p) + TagCount (nodes t1 ! s)\<rparr>,
                                   s := (nodes t1 ! s)\<lparr>TagCount := 0\<rparr>]"
    and a2: "availableIndexes t2 = availableIndexes t1"
    by blast
  have n2': "nodes t2 = (nodes t)[p := (nodes t ! p)\<lparr>prefix := fst mg, prefixLength := snd mg,
                   TagCount := TagCount (nodes t ! p) + TagCount (nodes t ! s)\<rparr>,
                 s := (nodes t ! s)\<lparr>TagCount := 0\<rparr>]"
    using pl sl sp by (simp add: n2 n1)
  have p2: "nodes t2 ! p = (nodes t ! p)\<lparr>prefix := fst mg, prefixLength := snd mg,
                   TagCount := TagCount (nodes t ! p) + TagCount (nodes t ! s)\<rparr>"
    using pl sp by (simp add: n2')
  have s2: "nodes t2 ! s = (nodes t ! s)\<lparr>TagCount := 0\<rparr>"
    using sl by (simp add: n2')
  have l2: "length (nodes t2) = length (nodes t)" by (simp add: n2')
  show ?thesis
  proof (cases right)
    case True
    then have rp: "Right (nodes t ! p) = s" using s by simp
    show ?thesis
      using True pl sl sp rp p2 s2 l2 mv [unfolded t1_def mg_def]
      by (simp add: mergeSibling_def Let_def n2' a2 a1 mg_def list_update_swap [of p s]
          treeNodeV4_update_order treeNodeV4_update_order2)
  next
    case False
    then have lp: "Left (nodes t ! p) = s" using s by simp
    show ?thesis
      using False pl sl sp lp p2 s2 l2 mv [unfolded t1_def mg_def]
      by (simp add: mergeSibling_def Let_def n2' a2 a1 mg_def list_update_swap [of p s]
          treeNodeV4_update_order treeNodeV4_update_order2)
  qed
qed

lemma removeLeaf_inv:
  assumes fo: "free_ok t" and st: "subtree (nodes t) 1 S" and gd: "\<forall>i\<in>S. good (nodes t) i"
    and fr: "\<forall>j\<in>set (availableIndexes t). j \<notin> S" and pS: "p \<in> S"
    and link: "Left (nodes t ! p) = tgt \<or> Right (nodes t ! p) = tgt"
    and ns1: "nodes t1 = (nodes t)[tgt := (nodes t ! tgt)\<lparr>TagCount := 0\<rparr>]"
    and av1: "availableIndexes t1 = availableIndexes t"
    and sh: "del_shape (nodes t) p tgt Lp Rp Lt Rt" and SpS: "insert p (Lp \<union> Rp) \<subseteq> S"
    and leaf: "Left (nodes t ! tgt) = 0" "Right (nodes t ! tgt) = 0"
  shows "\<exists>t2. removeLeaf t1 p tgt = Inr t2 \<and> tree_inv (releaseTarget t2 tgt)"
proof -
  let ?ns = "nodes t"
  note d = del_shapeD [OF sh]
  define s where "s = (if Left (?ns ! p) = tgt then Right (?ns ! p) else Left (?ns ! p))"
  define t1a where "t1a = (if Left (?ns ! p) = tgt then setLeft t1 p 0 else setRight t1 p 0)"
  define np where "np = (if Left (?ns ! p) = tgt
                     then (?ns ! p)\<lparr>Left := 0\<rparr> else (?ns ! p)\<lparr>Right := 0\<rparr>)"
  have n1a: "nodes t1a = ?ns[tgt := (?ns ! tgt)\<lparr>TagCount := 0\<rparr>, p := np]"
    using d(14,17,18) by (simp add: t1a_def np_def ns1)
  have a1a: "availableIndexes t1a = availableIndexes t" by (simp add: t1a_def av1)
  have p1a: "nodes t1a ! p = np" using d(17) by (simp add: n1a)
  have gp: "good ?ns p" using gd pS by simp
  have p1: "p = 1" if "\<not> 1 < p" using that d(15) by simp
  show ?thesis
  proof (cases "1 < p \<and> TagCount (?ns ! p) = 0 \<and> s \<noteq> 0")
    case True
    then have s0: "s \<noteq> 0" and pn1: "p \<noteq> 1" by simp_all
    have sS: "s \<in> S" using subtree_child_mem [OF st pS _ s0] by (auto simp add: s_def)
    have sl: "s < length ?ns" using subtree_range [OF st sS] by simp
    have tin: "tgt \<in> (if Left (?ns ! p) = tgt then Lp else Rp)" using d(11) by auto
    have "s \<in> (if Left (?ns ! p) = tgt then Rp else Lp)"
      using subtree_root_mem [OF d(1)] subtree_root_mem [OF d(2)] s0 by (auto simp add: s_def)
    with tin d(3,4,5) have sp: "s \<noteq> p" and stg: "s \<noteq> tgt" by (auto split: if_splits)
    have slink: "s = (if Left (?ns ! p) = tgt then Right (nodes t1a ! p) else Left (nodes t1a ! p))"
      by (simp add: p1a np_def s_def)
    have s1a: "nodes t1a ! s = ?ns ! s" using sp stg by (simp add: n1a)
    have "\<exists>t'. mergeSibling t1a p (Left (?ns ! p) = tgt) = Inr t'
      \<and> nodes t' = (nodes t1a)[
           p := (nodes t1a ! p)\<lparr>Left := Left (nodes t1a ! s), Right := Right (nodes t1a ! s),
                   prefix := fst (MergePrefixes32 (prefix (nodes t1a ! p)) (prefixLength (nodes t1a ! p))
                                   (prefix (nodes t1a ! s)) (prefixLength (nodes t1a ! s))),
                   prefixLength := snd (MergePrefixes32 (prefix (nodes t1a ! p)) (prefixLength (nodes t1a ! p))
                                   (prefix (nodes t1a ! s)) (prefixLength (nodes t1a ! s))),
                   TagCount := TagCount (nodes t1a ! p) + TagCount (nodes t1a ! s)\<rparr>,
           s := (nodes t1a ! s)\<lparr>TagCount := 0\<rparr>]
      \<and> availableIndexes t' = availableIndexes t1a"
    proof (rule mergeSibling_nodes [OF _ _ sp slink])
    qed (use d(17) sl in \<open>simp_all add: n1a\<close>)
    then obtain t2 where ms: "mergeSibling t1a p (Left (?ns ! p) = tgt) = Inr t2"
      and n2: "nodes t2 = (nodes t1a)[
           p := (nodes t1a ! p)\<lparr>Left := Left (nodes t1a ! s), Right := Right (nodes t1a ! s),
                   prefix := fst (MergePrefixes32 (prefix (nodes t1a ! p)) (prefixLength (nodes t1a ! p))
                                   (prefix (nodes t1a ! s)) (prefixLength (nodes t1a ! s))),
                   prefixLength := snd (MergePrefixes32 (prefix (nodes t1a ! p)) (prefixLength (nodes t1a ! p))
                                   (prefix (nodes t1a ! s)) (prefixLength (nodes t1a ! s))),
                   TagCount := TagCount (nodes t1a ! p) + TagCount (nodes t1a ! s)\<rparr>,
           s := (nodes t1a ! s)\<lparr>TagCount := 0\<rparr>]"
      and a2: "availableIndexes t2 = availableIndexes t1a"
      by blast
    have rl: "removeLeaf t1 p tgt = Inr t2"
    proof (cases "Left (?ns ! p) = tgt")
      case L: True
      then show ?thesis
        using True ms d(14,17,18) p1a
        by (simp add: removeLeaf_def Let_def ns1 t1a_def np_def s_def)
    next
      case R: False
      then show ?thesis
        using True ms d(14,17,18) p1a
        by (simp add: removeLeaf_def Let_def ns1 t1a_def np_def s_def)
    qed
    have nt2: "nodes t2 ! tgt = (?ns ! tgt)\<lparr>TagCount := 0\<rparr>"
      using d(14,18) stg by (simp add: n2 n1a)
    have "tree_inv (releaseTarget t2 tgt)"
    proof (rule merge_inv [OF fo st gd fr pS link sh SpS pn1 s_def s0,
          where X = "(?ns ! tgt)\<lparr>TagCount := 0, Left := 0, Right := 0\<rparr>"])
      show "availableIndexes (releaseTarget t2 tgt) = availableIndexes t @ [tgt]"
        by (simp add: releaseTarget_def Let_def a2 a1a)
      have "nodes (releaseTarget t2 tgt)
          = (nodes t2)[tgt := (?ns ! tgt)\<lparr>TagCount := 0, Left := 0, Right := 0\<rparr>]"
        using nt2 d(18) by (simp add: releaseTarget_def Let_def n2 n1a)
      then show "nodes (releaseTarget t2 tgt) = ?ns[tgt := (?ns ! tgt)\<lparr>TagCount := 0, Left := 0, Right := 0\<rparr>,
           p := (?ns ! p)\<lparr>Left := Left (?ns ! s), Right := Right (?ns ! s),
                   prefix := fst (MergePrefixes32 (prefix (?ns ! p)) (prefixLength (?ns ! p))
                                   (prefix (?ns ! s)) (prefixLength (?ns ! s))),
                   prefixLength := snd (MergePrefixes32 (prefix (?ns ! p)) (prefixLength (?ns ! p))
                                   (prefix (?ns ! s)) (prefixLength (?ns ! s))),
                   TagCount := TagCount (?ns ! p) + TagCount (?ns ! s)\<rparr>,
           s := (?ns ! s)\<lparr>TagCount := 0\<rparr>]"
        using d(14,17,18) sp stg s1a p1a
        by (simp add: n2 n1a np_def list_update_swap [of tgt p] list_update_swap [of tgt s])
    qed
    with rl show ?thesis by simp
  next
    case False
    have keep: "p = 1 \<or> TagCount (?ns ! p) \<noteq> 0"
      using False gp p1 link d(16) by (auto simp add: good_def node_ok_def s_def split: if_splits)
    have rl: "removeLeaf t1 p tgt = Inr t1a"
    proof (cases "Left (?ns ! p) = tgt")
      case L: True
      then show ?thesis
        using False d(14,17,18)
        by (auto simp add: removeLeaf_def Let_def ns1 t1a_def s_def)
    next
      case R: False
      then show ?thesis
        using False d(14,17,18)
        by (auto simp add: removeLeaf_def Let_def ns1 t1a_def s_def)
    qed
    have "tree_inv (releaseTarget t1a tgt)"
    proof (rule unlink_inv [OF fo st gd fr pS link sh SpS keep,
          where X = "(?ns ! tgt)\<lparr>TagCount := 0, Left := 0, Right := 0\<rparr>"])
      show "availableIndexes (releaseTarget t1a tgt) = availableIndexes t @ [tgt]"
        by (simp add: releaseTarget_def Let_def a1a)
      show "nodes (releaseTarget t1a tgt) = ?ns[tgt := (?ns ! tgt)\<lparr>TagCount := 0, Left := 0, Right := 0\<rparr>,
           p := (if Left (?ns ! p) = tgt then (?ns ! p)\<lparr>Left := 0\<rparr> else (?ns ! p)\<lparr>Right := 0\<rparr>)]"
        using d(14,17,18)
        by (simp add: releaseTarget_def Let_def n1a np_def list_update_swap [of tgt p])
    qed
    with rl show ?thesis by simp
  qed
qed

lemma compact_inv:
  assumes fo: "free_ok t" and st: "subtree (nodes t) 1 S" and gd: "\<forall>i\<in>S. good (nodes t) i"
    and fr: "\<forall>j\<in>set (availableIndexes t). j \<notin> S" and pS: "p \<in> S" and tS: "tgt \<in> S"
    and t1: "tgt \<noteq> 1"
    and link: "Left (nodes t ! p) = tgt \<or> Right (nodes t ! p) = tgt"
    and ns1: "nodes t1 = (nodes t)[tgt := (nodes t ! tgt)\<lparr>TagCount := 0\<rparr>]"
    and av1: "availableIndexes t1 = availableIndexes t"
  shows "\<exists>t2. compact t1 p tgt = Inr t2 \<and> tree_inv t2"
proof -
  let ?ns = "nodes t"
  from del_shape_ex [OF st pS tS link] obtain Lp Rp Lt Rt where
    sh: "del_shape ?ns p tgt Lp Rp Lt Rt" and SpS: "insert p (Lp \<union> Rp) \<subseteq> S"
    by blast
  note d = del_shapeD [OF sh]
  have nt: "Left (nodes t1 ! tgt) = Left (?ns ! tgt)" "Right (nodes t1 ! tgt) = Right (?ns ! tgt)"
    using d(18) by (simp_all add: ns1)
  have np: "nodes t1 ! p = ?ns ! p" using d(14) by (simp add: ns1)
  consider (two) "Left (?ns ! tgt) \<noteq> 0" "Right (?ns ! tgt) \<noteq> 0"
    | (left) "Left (?ns ! tgt) \<noteq> 0" "Right (?ns ! tgt) = 0"
    | (right) "Left (?ns ! tgt) = 0" "Right (?ns ! tgt) \<noteq> 0"
    | (leaf) "Left (?ns ! tgt) = 0" "Right (?ns ! tgt) = 0"
    by blast
  then show ?thesis
  proof cases
    case two
    show ?thesis
    proof (cases "(Left (?ns ! p) = 0 \<or> Right (?ns ! p) = 0) \<and> 1 < p")
      case True
      then have only: "Left (?ns ! p) = 0 \<or> Right (?ns ! p) = 0" and p1: "1 < p" by simp_all
      from absorb_inv [OF fo st gd fr pS ns1 av1 sh SpS two only p1] True two
      show ?thesis by (simp add: compact_def nt np)
    next
      case False
      have "tree_inv t1"
        using two by (intro retag_inv [OF fo st gd fr tS ns1 av1]) simp
      with False two show ?thesis by (auto simp add: compact_def nt np)
    qed
  next
    case left
    then have "if True then Left (?ns ! tgt) \<noteq> 0 \<and> Right (?ns ! tgt) = 0
               else Left (?ns ! tgt) = 0 \<and> Right (?ns ! tgt) \<noteq> 0" by simp
    from liftChild_inv [OF fo st gd fr pS t1 link ns1 av1 sh SpS this] left
    show ?thesis by (auto simp add: compact_def nt)
  next
    case right
    then have "if False then Left (?ns ! tgt) \<noteq> 0 \<and> Right (?ns ! tgt) = 0
               else Left (?ns ! tgt) = 0 \<and> Right (?ns ! tgt) \<noteq> 0" by simp
    from liftChild_inv [OF fo st gd fr pS t1 link ns1 av1 sh SpS this] right
    show ?thesis by (auto simp add: compact_def nt)
  next
    case leaf
    from removeLeaf_inv [OF fo st gd fr pS link ns1 av1 sh SpS leaf] leaf
    show ?thesis by (auto simp add: compact_def nt)
  qed
qed

lemma delete_target_inv:
  assumes fo: "free_ok t" and st: "subtree (nodes t) 1 S" and gd: "\<forall>i\<in>S. good (nodes t) i"
    and fr: "\<forall>j\<in>set (availableIndexes t). j \<notin> S" and tS: "tgt \<in> S"
    and par: "tgt \<noteq> 1 \<longrightarrow> p \<in> S \<and> (Left (nodes t ! p) = tgt \<or> Right (nodes t ! p) = tgt)"
  shows "\<exists>n t'. delete_target t p tgt (Some f) v = Inr (n, t') \<and> tree_inv t'"
proof (cases "TagCount (nodes t ! tgt) = 0")
  case True
  have "tree_inv t" using fo st gd fr by (rule tree_invI)
  with True show ?thesis by (simp add: delete_target_def)
next
  case False
  have tl: "tgt < length (nodes t)" using subtree_range [OF st tS] by simp
  from deleteTag_nodes [OF tl, of v f] obtain d k t1 where
    dt: "deleteTag t tgt v (Some f) = Inr (d, k, t1)"
    and ns1: "nodes t1 = (nodes t)[tgt := (nodes t ! tgt)\<lparr>TagCount := k\<rparr>]"
    and av1: "availableIndexes t1 = availableIndexes t"
    by blast
  show ?thesis
  proof (cases "0 < k \<or> tgt = 1")
    case True
    have "tree_inv t1"
      using True by (intro retag_inv [OF fo st gd fr tS ns1 av1]) auto
    with True False dt show ?thesis by (auto simp add: delete_target_def)
  next
    case F: False
    then have k: "k = 0" and t1: "tgt \<noteq> 1" by simp_all
    from par t1 have pS: "p \<in> S" and link: "Left (nodes t ! p) = tgt \<or> Right (nodes t ! p) = tgt"
      by simp_all
    from compact_inv [OF fo st gd fr pS tS t1 link ns1 [unfolded k] av1]
    obtain t2 where "compact t1 p tgt = Inr t2" "tree_inv t2" by blast
    with F False dt show ?thesis by (simp add: delete_target_def)
  qed
qed

lemma delete_target_nil_func:
  assumes "tgt < length (nodes t)"
  shows "delete_target t p tgt None v = Inr (0, t) \<or> delete_target t p tgt None v = Inl NilFuncCall"
  using deleteTag_nil_func [OF assms, of v] by (simp add: delete_target_def)

lemma Delete_preserves_inv:
  assumes inv: "tree_inv t"
  shows "\<exists>n t'. Delete t a (Some f) v = Some (Inr (n, t')) \<and> tree_inv t'"
proof -
  from inv obtain S where fo: "free_ok t" and st: "subtree (nodes t) 1 S"
    and gd: "\<forall>i\<in>S. good (nodes t) i" and fr: "\<forall>j\<in>set (availableIndexes t). j \<notin> S"
    unfolding tree_inv_alt by blast
  have rS: "1 \<in> S" using subtree_root_mem [OF st] by simp
  have len: "1 < length (nodes t)" using subtree_range [OF st rS] by simp
  have root: "\<exists>n t'. delete_target t 0 1 (Some f) v = Inr (n, t') \<and> tree_inv t'"
    by (rule delete_target_inv [OF fo st gd fr rS]) simp
  show ?thesis
  proof (cases a)
    case None
    with len root show ?thesis by (simp add: Delete_def)
  next
    case (Some ad)
    show ?thesis
    proof (cases "Length ad = 0")
      case True
      with Some len root show ?thesis by (simp add: Delete_def)
    next
      case False
      define c where "c = (if Address ad < leftmost32Bit then Left (nodes t ! 1)
                           else Right (nodes t ! 1))"
      have cc: "c = Left (nodes t ! 1) \<or> c = Right (nodes t ! 1)" by (simp add: c_def)
      from delete_find_inv [OF st gd rS cc, of ad]
      show ?thesis
      proof
        assume "delete_find t 1 c ad = Some (Inr NotFound)"
        with Some False len inv show ?thesis by (simp add: Delete_def c_def)
      next
        assume "\<exists>p' tgt. delete_find t 1 c ad = Some (Inr (Found p' tgt)) \<and> p' \<in> S \<and> tgt \<in> S
               \<and> tgt \<noteq> 1 \<and> (Left (nodes t ! p') = tgt \<or> Right (nodes t ! p') = tgt)"
        then obtain p' tgt where df: "delete_find t 1 c ad = Some (Inr (Found p' tgt))"
          and pS: "p' \<in> S" and tS: "tgt \<in> S"
          and link: "Left (nodes t ! p') = tgt \<or> Right (nodes t ! p') = tgt"
          by blast
        have "\<exists>n t'. delete_target t p' tgt (Some f) v = Inr (n, t') \<and> tree_inv t'"
          by (rule delete_target_inv [OF fo st gd fr tS]) (use pS link in simp)
        with Some False len df show ?thesis by (simp add: Delete_def c_def)
      qed
    qed
  qed
qed

lemma Delete_nil_func:
  assumes inv: "tree_inv t"
  shows "Delete t a None v = Some (Inr (0, t)) \<or> Delete t a None v = Some (Inl NilFuncCall)"
proof -
  from inv obtain S where st: "subtree (nodes t) 1 S" and gd: "\<forall>i\<in>S. good (nodes t) i"
    unfolding tree_inv_alt by blast
  have rS: "1 \<in> S" using subtree_root_mem [OF st] by simp
  have len: "1 < length (nodes t)" using subtree_range [OF st rS] by simp
  have root: "delete_target t 0 1 None v = Inr (0, t) \<or> delete_target t 0 1 None v = Inl NilFuncCall"
    by (rule delete_target_nil_func [OF len])
  show ?thesis
  proof (cases a)
    case None
    with len root show ?thesis by (auto simp add: Delete_def)
  next
    case (Some ad)
    show ?thesis
    proof (cases "Length ad = 0")
      case True
      with Some len root show ?thesis by (auto simp add: Delete_def)
    next
      case False
      define c where "c = (if Address ad < leftmost32Bit then Left (nodes t ! 1)
                           else Right (nodes t ! 1))"
      have cc: "c = Left (nodes t ! 1) \<or> c = Right (nodes t ! 1)" by (simp add: c_def)
      from delete_find_inv [OF st gd rS cc, of ad]
      show ?thesis
      proof
        assume "delete_find t 1 c ad = Some (Inr NotFound)"
        with Some False len show ?thesis by (simp add: Delete_def c_def)
      next
        assume "\<exists>p' tgt. delete_find t 1 c ad = Some (Inr (Found p' tgt)) \<and> p' \<in> S \<and> tgt \<in> S
               \<and> tgt \<noteq> 1 \<and> (Left (nodes t ! p') = tgt \<or> Right (nodes t ! p') = tgt)"
        then obtain p' tgt where df: "delete_find t 1 c ad = Some (Inr (Found p' tgt))"
          and tS: "tgt \<in> S"
          by blast
        have tl: "tgt < length (nodes t)" using subtree_range [OF st tS] by simp
        from delete_target_nil_func [OF tl, of p' v] Some False len df
        show ?thesis by (auto simp add: Delete_def c_def)
      qed
    qed
  qed
qed

section \<open>The structural invariant after every run\<close>

lemma reachable_subtree:
  assumes "subtree (nodes t) 1 S" and "i \<in> reachable t"
  shows "i \<in> S"
  using assms(2)
proof (induction rule: reachable.induct)
  case reach_root
  show ?case using subtree_root_mem [OF assms(1)] by simp
next
  case (reach_left i)
  from subtree_child_mem [OF assms(1) reach_left.IH _ reach_left.hyps(2)]
  show ?case by simp
next
  case (reach_right i)
  from subtree_child_mem [OF assms(1) reach_right.IH _ reach_right.hyps(2)]
  show ?case by simp
qed

lemma tree_inv_structural:
  assumes "tree_inv t"
  shows "structural_invariant t"
proof -
  from assms obtain S where st: "subtree (nodes t) 1 S" and gd: "\<forall>i\<in>S. good (nodes t) i"
    unfolding tree_inv_alt by blast
  show ?thesis
    unfolding structural_invariant_def
  proof
    fix i assume "i \<in> reachable t"
    then have iS: "i \<in> S" by (rule reachable_subtree [OF st])
    with gd have "good (nodes t) i" by simp
    with subtree_range [OF st iS]
    show "i < length (nodes t)
        \<and> (Left (nodes t ! i) \<noteq> 0 \<longrightarrow> \<not> bit (prefix (nodes t ! Left (nodes t ! i))) 31)
        \<and> (Right (nodes t ! i) \<noteq> 0 \<longrightarrow> bit (prefix (nodes t ! Right (nodes t ! i))) 31)
        \<and> (i \<noteq> 1 \<longrightarrow> 1 \<le> prefixLength (nodes t ! i)
              \<and> (1 \<le> TagCount (nodes t ! i)
                  \<or> (Left (nodes t ! i) \<noteq> 0 \<and> Right (nodes t ! i) \<noteq> 0)))"
      by (simp add: good_def child_bits_ok_def node_ok_def)
  qed
qed

lemma tree_inv_newTree: "tree_inv newTree"
proof (rule tree_invI [where S = "{1}"])
  show "free_ok newTree" by (simp add: free_ok_def newTree_def)
  have "subtree (nodes newTree) 1 (insert 1 ({} \<union> {}))"
    by (rule subtree_node) (simp_all add: newTree_def mkNode_def subtree_empty)
  then show "subtree (nodes newTree) 1 {1}" by simp
  show "\<forall>i\<in>{1}. good (nodes newTree) i"
    by (simp add: good_def child_bits_ok_def newTree_def mkNode_def)
  show "\<forall>j\<in>set (availableIndexes newTree). j \<notin> {1}" by (simp add: newTree_def)
qed

lemma run_inv:
  "tree_inv t \<Longrightarrow>
   \<exists>r. run ops t = Some r
     \<and> (case r of Inl e \<Rightarrow> e = NilFuncCall \<and> (\<exists>a v. DeleteOp a None v \<in> set ops)
         | Inr t' \<Rightarrow> tree_inv t')"
proof (induction ops arbitrary: t)
  case Nil
  then show ?case by simp
next
  case (Cons x ops)
  show ?case
  proof (cases x)
    case (AddOp a tag)
    from Add_preserves_inv [OF Cons.prems, of a tag] obtain t' where
      ad: "Add t a tag = Inr t'" and inv': "tree_inv t'" by blast
    from Cons.IH [OF inv'] obtain r where "run ops t' = Some r"
      and "case r of Inl e \<Rightarrow> e = NilFuncCall \<and> (\<exists>a v. DeleteOp a None v \<in> set ops)
         | Inr t' \<Rightarrow> tree_inv t'" by blast
    with AddOp ad show ?thesis by (auto split: sum.splits)
  next
    case (DeleteOp a f v)
    show ?thesis
    proof (cases f)
      case None
      from Delete_nil_func [OF Cons.prems, of a v]
      show ?thesis
      proof
        assume dl: "Delete t a None v = Some (Inr (0, t))"
        from Cons.IH [OF Cons.prems] obtain r where "run ops t = Some r"
          and "case r of Inl e \<Rightarrow> e = NilFuncCall \<and> (\<exists>a v. DeleteOp a None v \<in> set ops)
             | Inr t' \<Rightarrow> tree_inv t'" by blast
        with DeleteOp None dl show ?thesis by (auto split: sum.splits)
      next
        assume "Delete t a None v = Some (Inl NilFuncCall)"
        with DeleteOp None show ?thesis by auto
      qed
    next
      case (Some g)
      from Delete_preserves_inv [OF Cons.prems, of a g v] obtain n t' where
        dl: "Delete t a (Some g) v = Some (Inr (n, t'))" and inv': "tree_inv t'" by blast
      from Cons.IH [OF inv'] obtain r where "run ops t' = Some r"
        and "case r of Inl e \<Rightarrow> e = NilFuncCall \<and> (\<exists>a v. DeleteOp a None v \<in> set ops)
           | Inr t' \<Rightarrow> tree_inv t'" by blast
      with DeleteOp Some dl show ?thesis by (auto split: sum.splits)
    qed
  qed
qed

text \<open>
  C2: every finite sequence of \<open>Add\<close> and \<open>Delete\<close> calls on a new tree returns; the only
  panic is the call of a nil match function by a \<open>Delete\<close> that was given one; and in the
  tree after the sequence every reachable node is inside the arena, the stored prefix of a
  left child starts with bit 0 and that of a right child with bit 1, and every reachable
  node other than the root has a prefix length of at least 1 and has a tag or two children.
\<close>

theorem structural_invariant_after_run:
  "\<exists>r. run ops newTree = Some r
     \<and> (case r of Inl e \<Rightarrow> e = NilFuncCall \<and> (\<exists>a v. DeleteOp a None v \<in> set ops)
         | Inr t \<Rightarrow> structural_invariant t)"
proof -
  from run_inv [OF tree_inv_newTree, of ops] obtain r where r: "run ops newTree = Some r"
    and c: "case r of Inl e \<Rightarrow> e = NilFuncCall \<and> (\<exists>a v. DeleteOp a None v \<in> set ops)
         | Inr t' \<Rightarrow> tree_inv t'" by blast
  from c have "case r of Inl e \<Rightarrow> e = NilFuncCall \<and> (\<exists>a v. DeleteOp a None v \<in> set ops)
         | Inr t \<Rightarrow> structural_invariant t"
    by (auto split: sum.splits intro: tree_inv_structural)
  with r show ?thesis by blast
qed

lemma tree_after_delete_reached:
  "run [AddOp (Some \<lparr>Address = 0, Length = 1\<rparr>) 5,
        AddOp (Some \<lparr>Address = 0x80000000, Length = 1\<rparr>) 7,
        DeleteOp (Some \<lparr>Address = 0, Length = 1\<rparr>) (Some matchAll) 0] newTree
   = Some (Inr tree_after_delete)"
  by (simp add: eval_defs tree_after_delete_def)

lemma tree_after_delete_reachable: "3 \<in> reachable tree_after_delete"
  using reach_right [OF reach_root, of tree_after_delete]
  by (simp add: tree_after_delete_def mkNode_def)

theorem structural_invariant_after_run_witness:
  "run [AddOp (Some \<lparr>Address = 0, Length = 1\<rparr>) 5,
        AddOp (Some \<lparr>Address = 0x80000000, Length = 1\<rparr>) 7,
        DeleteOp (Some \<lparr>Address = 0, Length = 1\<rparr>) (Some matchAll) 0] newTree
     = Some (Inr tree_after_delete)
   \<and> 3 \<in> reachable tree_after_delete
   \<and> 3 < length (nodes tree_after_delete)
   \<and> 1 \<le> prefixLength (nodes tree_after_delete ! 3)
   \<and> 1 \<le> TagCount (nodes tree_after_delete ! 3)
   \<and> bit (prefix (nodes tree_after_delete ! Right (nodes tree_after_delete ! 1))) 31"
  using structural_invariant_after_run [of "[AddOp (Some \<lparr>Address = 0, Length = 1\<rparr>) 5,
        AddOp (Some \<lparr>Address = 0x80000000, Length = 1\<rparr>) 7,
        DeleteOp (Some \<lparr>Address = 0, Length = 1\<rparr>) (Some matchAll) 0]"]
    tree_after_delete_reached tree_after_delete_reachable
  by (simp add: structural_invariant_def tree_after_delete_def mkNode_def)

section \<open>FindTags after Add\<close>

text \<open>
  The loop of \<open>Add\<close> and the loop of \<open>FindTags\<close> walk down the same nodes. One lemma for
  each way in which the loop of \<open>Add\<close> ends says what \<open>FindTags\<close> returns before and after;
  the loop follows by computation induction. \<open>Add\<close> writes one tag key, which is the key of
  no other node as long as node indexes and slots stay below \<open>2^32\<close>.
\<close>

lemma small_index: "small t \<Longrightarrow> j < length (nodes t) \<Longrightarrow> j < 2 ^ 32"
  by (simp add: small_def)

lemma small_count: "small t \<Longrightarrow> j < length (nodes t) \<Longrightarrow> TagCount (nodes t ! j) \<le> 2 ^ 32"
  by (simp add: small_def)

text \<open>The tags of a node are the same when its count and its keys are.\<close>

lemma node_tags_cong:
  assumes "TagCount (nodes t' ! j) = TagCount (nodes t ! j)"
    and "\<forall>i<TagCount (nodes t ! j). tags t' (tagKey j i) = tags t (tagKey j i)"
  shows "node_tags t' j = node_tags t j"
  using assms by (simp add: node_tags_def tagAt_def)

lemma node_tags_other:
  assumes tg: "tags t' = (tags t)(tagKey k s \<mapsto> tag)"
    and cnt: "TagCount (nodes t' ! j) = TagCount (nodes t ! j)"
    and jk: "j \<noteq> k" and j: "j < 2 ^ 32" and k: "k < 2 ^ 32" and s: "s < 2 ^ 32"
    and c: "TagCount (nodes t ! j) \<le> 2 ^ 32"
  shows "node_tags t' j = node_tags t j"
proof (rule node_tags_cong [OF cnt], intro allI impI)
  fix i assume "i < TagCount (nodes t ! j)"
  with c have "i < 2 ^ 32" by simp
  with tagKey_inj [OF j this k s] jk have "tagKey j i \<noteq> tagKey k s" by blast
  then show "tags t' (tagKey j i) = tags t (tagKey j i)" by (simp add: tg)
qed

lemma node_tags_snoc:
  assumes tg: "tags t' = (tags t)(tagKey n (TagCount (nodes t ! n)) \<mapsto> tag)"
    and cnt: "TagCount (nodes t' ! n) = TagCount (nodes t ! n) + 1"
    and n: "n < 2 ^ 32" and c: "TagCount (nodes t ! n) < 2 ^ 32"
  shows "node_tags t' n = node_tags t n @ [tag]"
proof -
  let ?T = "TagCount (nodes t ! n)"
  have "tagAt (tags t') (tagKey n i) = tagAt (tags t) (tagKey n i)" if "i < ?T" for i
  proof -
    from that c have "i < 2 ^ 32" by simp
    with tagKey_inj [OF n this n c] that have "tagKey n i \<noteq> tagKey n ?T" by auto
    then show ?thesis by (simp add: tg tagAt_def)
  qed
  then have "map (\<lambda>i. tagAt (tags t') (tagKey n i)) [0..<?T]
             = map (\<lambda>i. tagAt (tags t) (tagKey n i)) [0..<?T]"
    by simp
  moreover have "tagAt (tags t') (tagKey n ?T) = tag" by (simp add: tg tagAt_def)
  ultimately show ?thesis by (simp add: node_tags_def cnt)
qed

lemma node_tags_single:
  assumes "tags t k = Some tag" "TagCount (nodes t ! n) = 1" "k = tagKey n 0"
  shows "node_tags t n = [tag]"
  using assms by (simp add: node_tags_def tagAt_def)

lemma leading_match_same: "leading_match k a a = k"
  by (induction k arbitrary: a) auto

text \<open>One iteration of the loop of \<open>FindTags\<close>.\<close>

lemma findTags_loop_zero: "findTags_loop t 0 a ret = Some (Inr ret)"
  by (subst findTags_loop.simps) simp

lemma findTags_loop_short:
  "n \<noteq> 0 \<Longrightarrow> n < length (nodes t) \<Longrightarrow> MatchCount (nodes t ! n) a < prefixLength (nodes t ! n) \<Longrightarrow>
   findTags_loop t n a ret = Some (Inr ret)"
  by (subst findTags_loop.simps) simp

lemma findTags_loop_exact:
  "n \<noteq> 0 \<Longrightarrow> n < length (nodes t) \<Longrightarrow> MatchCount (nodes t ! n) a = prefixLength (nodes t ! n) \<Longrightarrow>
   MatchCount (nodes t ! n) a = Length a \<Longrightarrow>
   findTags_loop t n a ret = Some (Inr (ret @ node_tags t n))"
  by (subst findTags_loop.simps) (simp add: node_tags_no_tags)

lemma findTags_loop_descend:
  "n \<noteq> 0 \<Longrightarrow> n < length (nodes t) \<Longrightarrow> MatchCount (nodes t ! n) a = prefixLength (nodes t ! n) \<Longrightarrow>
   MatchCount (nodes t ! n) a \<noteq> Length a \<Longrightarrow>
   findTags_loop t n a ret
   = findTags_loop t
       (if Address (ShiftLeft a (MatchCount (nodes t ! n) a)) < leftmost32Bit
        then Left (nodes t ! n) else Right (nodes t ! n))
       (ShiftLeft a (MatchCount (nodes t ! n) a)) (ret @ node_tags t n)"
  by (subst findTags_loop.simps) (simp add: node_tags_no_tags)

text \<open>A leaf that was made for the address ends the lookup of the address.\<close>

lemma findTags_loop_leaf:
  assumes "k \<noteq> 0" "k < length (nodes t)"
    and "prefix (nodes t ! k) = Address a" "prefixLength (nodes t ! k) = Length a"
    and "TagCount (nodes t ! k) = 1" "tags t (tagKey k 0) = Some tag"
  shows "findTags_loop t k a ret = Some (Inr (ret @ [tag]))"
proof -
  have m: "MatchCount (nodes t ! k) a = Length a"
    using assms(3,4) by (simp add: MatchCount_def leading_match_same)
  have "node_tags t k = [tag]" using assms(5,6) by (simp add: node_tags_def tagAt_def)
  with findTags_loop_exact [OF assms(1,2), of a ret] m assms(4) show ?thesis by simp
qed

lemma add_foundI:
  assumes "tags_written t S tag t'"
    and "\<And>ret. \<exists>xs. findTags_loop t n a ret = Some (Inr xs)
             \<and> findTags_loop t' (if Left (nodes t ! p) = n then Left (nodes t' ! p)
                                  else Right (nodes t' ! p)) a ret
                 = Some (Inr (xs @ [tag]))"
  shows "add_found t p n S a tag t'"
  using assms unfolding add_found_def by blast

lemma tags_writtenI:
  "tags t' = (tags t)(tagKey k s \<mapsto> tag) \<Longrightarrow> k \<in> S \<or> fresh t k \<Longrightarrow> k < length (nodes t') \<Longrightarrow>
   s < TagCount (nodes t' ! k) \<Longrightarrow> tags_written t S tag t'"
  unfolding tags_written_def by blast

lemma MatchCount_cong:
  "prefix n' = prefix n \<Longrightarrow> prefixLength n' = prefixLength n \<Longrightarrow> MatchCount n' a = MatchCount n a"
  by (simp add: MatchCount_def)

text \<open>The address ends at the node: the tag is appended to the tags of the node.\<close>

lemma add_exact_find:
  assumes pre: "add_pre t p n S a"
    and full: "MatchCount (nodes t ! n) a = prefixLength (nodes t ! n)"
    and all: "MatchCount (nodes t ! n) a = Length a"
    and res: "addTag t tag n = Inr t'" and sm: "small t'"
  shows "add_found t p n S a tag t'"
proof -
  let ?ns = "nodes t"
  let ?T = "TagCount (?ns ! n)"
  from pre have st: "subtree ?ns n S" and n0: "n \<noteq> 0"
    and pl: "p < length ?ns" and pS: "p \<notin> S"
    and link: "Left (?ns ! p) = n \<or> Right (?ns ! p) = n"
    by (simp_all add: add_pre_def)
  have nS: "n \<in> S" using st n0 by (rule subtree_root_mem)
  then have nl: "n < length ?ns" using subtree_range [OF st] by simp
  have pn: "p \<noteq> n" using pS nS by auto
  from res addTag_eq [OF nl, of tag]
  have t': "t' = t\<lparr>tags := (tags t)(tagKey n ?T \<mapsto> tag),
                     nodes := ?ns[n := (?ns ! n)\<lparr>TagCount := ?T + 1\<rparr>]\<rparr>"
    by simp
  have tg: "tags t' = (tags t)(tagKey n ?T \<mapsto> tag)" by (simp add: t')
  have nn: "nodes t' ! n = (?ns ! n)\<lparr>TagCount := ?T + 1\<rparr>" using nl by (simp add: t')
  have pp: "nodes t' ! p = ?ns ! p" using pn by (simp add: t')
  have nl': "n < length (nodes t')" using nl by (simp add: t')
  have n32: "n < 2 ^ 32" using small_index [OF sm nl'] .
  have "TagCount (nodes t' ! n) \<le> 2 ^ 32" using small_count [OF sm nl'] .
  then have T32: "?T < 2 ^ 32" by (simp add: nn)
  have snoc: "node_tags t' n = node_tags t n @ [tag]"
    by (rule node_tags_snoc [OF tg _ n32 T32]) (simp add: nn)
  have slot: "(if Left (?ns ! p) = n then Left (nodes t' ! p) else Right (nodes t' ! p)) = n"
    using link by (auto simp add: pp)
  have m': "MatchCount (nodes t' ! n) a = MatchCount (?ns ! n) a"
    by (rule MatchCount_cong) (simp_all add: nn)
  show ?thesis
  proof (rule add_foundI)
    show "tags_written t S tag t'"
      by (rule tags_writtenI [OF tg _ nl']) (use nS in \<open>simp_all add: nn\<close>)
    fix ret
    have "findTags_loop t n a ret = Some (Inr (ret @ node_tags t n))"
      by (rule findTags_loop_exact [OF n0 nl full all])
    moreover have "findTags_loop t' n a ret = Some (Inr (ret @ node_tags t' n))"
    proof (rule findTags_loop_exact [OF n0 nl'])
      have "prefixLength (nodes t' ! n) = prefixLength (?ns ! n)" by (simp add: nn)
      then show "MatchCount (nodes t' ! n) a = prefixLength (nodes t' ! n)"
        using m' full by simp
      show "MatchCount (nodes t' ! n) a = Length a" using m' all by simp
    qed
    ultimately show "\<exists>xs. findTags_loop t n a ret = Some (Inr xs)
             \<and> findTags_loop t' (if Left (?ns ! p) = n then Left (nodes t' ! p)
                                  else Right (nodes t' ! p)) a ret
                 = Some (Inr (xs @ [tag]))"
      by (simp add: slot snoc)
  qed
qed

text \<open>The node is matched in full and has no child on the side of the rest of the address:
  a new leaf takes the rest and the tag.\<close>

lemma addLeaf_find:
  assumes pre: "add_pre t p n S a"
    and full: "MatchCount (nodes t ! n) a = prefixLength (nodes t ! n)"
    and notall: "MatchCount (nodes t ! n) a \<noteq> Length a"
    and a': "a' = ShiftLeft a (MatchCount (nodes t ! n) a)"
    and onLeft: "onLeft = (Address a' < leftmost32Bit)"
    and slot: "if onLeft then Left (nodes t ! n) = 0 else Right (nodes t ! n) = 0"
    and res: "addLeaf t n onLeft a' tag = Inr t'" and sm: "small t'"
  shows "add_found t p n S a tag t'"
proof -
  let ?ns = "nodes t"
  from pre have st: "subtree ?ns n S" and n0: "n \<noteq> 0" and gd: "\<forall>i\<in>S. good ?ns i"
    and pl: "p < length ?ns" and pS: "p \<notin> S" and fo: "free_ok t"
    and fr: "\<forall>j\<in>set (availableIndexes t). j \<notin> S \<and> j \<noteq> p"
    and link: "Left (?ns ! p) = n \<or> Right (?ns ! p) = n"
    by (simp_all add: add_pre_def)
  have frS: "\<forall>j\<in>set (availableIndexes t). j \<notin> S" using fr by simp
  have nS: "n \<in> S" using st n0 by (rule subtree_root_mem)
  then have nl: "n < length ?ns" using subtree_range [OF st] by simp
  have pn: "p \<noteq> n" using pS nS by auto
  have mlt: "MatchCount (?ns ! n) a < Length a"
    using notall MatchCount_le_Length [of "?ns ! n" a] by simp
  then have len: "1 \<le> Length a'" by (simp add: a' ShiftLeft_def)
  have side: "onLeft = (\<not> bit (Address a') 31)" by (simp add: onLeft less_leftmost32Bit)
  from addLeaf_holder [OF fo st n0 gd frS slot len side, of tag] res obtain k where
    frk: "fresh t k" and k0: "k \<noteq> 0" and kS: "k \<notin> S"
    and st': "subtree (nodes t') n (insert k S)"
    and ll: "length ?ns \<le> length (nodes t')"
    and frame: "\<forall>j<length ?ns. j \<noteq> n \<longrightarrow> \<not> fresh t j \<longrightarrow> nodes t' ! j = ?ns ! j"
    and nn: "nodes t' ! n = (if onLeft then (?ns ! n)\<lparr>Left := k\<rparr> else (?ns ! n)\<lparr>Right := k\<rparr>)"
    and nk: "nodes t' ! k = (mkNode (Address a') (Length a'))\<lparr>TagCount := 1\<rparr>"
    and tg: "tags t' = (tags t)(tagKey k 0 \<mapsto> tag)"
    by auto
  have kl': "k < length (nodes t')" using subtree_range [OF st', of k] by simp
  have nl': "n < length (nodes t')" using nl ll by simp
  have kn: "k \<noteq> n" using kS nS by auto
  have pnf: "\<not> fresh t p" using pl fr by (auto simp add: fresh_def)
  have pp: "nodes t' ! p = ?ns ! p" using frame pl pn pnf by simp
  have slot': "(if Left (?ns ! p) = n then Left (nodes t' ! p) else Right (nodes t' ! p)) = n"
    using link by (auto simp add: pp)
  have cnt: "TagCount (nodes t' ! n) = TagCount (?ns ! n)" by (simp add: nn)
  have same_tags: "node_tags t' n = node_tags t n"
  proof (rule node_tags_other [OF tg cnt])
    show "n \<noteq> k" using kn by simp
    show "n < 2 ^ 32" using small_index [OF sm nl'] .
    show "k < 2 ^ 32" using small_index [OF sm kl'] .
    show "(0::nat) < 2 ^ 32" by simp
    show "TagCount (?ns ! n) \<le> 2 ^ 32" using small_count [OF sm nl'] cnt by simp
  qed
  have m': "MatchCount (nodes t' ! n) a = MatchCount (?ns ! n) a"
    by (rule MatchCount_cong) (simp_all add: nn)
  have pl': "prefixLength (nodes t' ! n) = prefixLength (?ns ! n)" by (simp add: nn)
  have child: "(if Address a' < leftmost32Bit then Left (nodes t' ! n) else Right (nodes t' ! n)) = k"
    using onLeft by (simp add: nn)
  have child0: "(if Address a' < leftmost32Bit then Left (?ns ! n) else Right (?ns ! n)) = 0"
    using onLeft slot by (simp split: if_splits)
  show ?thesis
  proof (rule add_foundI)
    show "tags_written t S tag t'"
      by (rule tags_writtenI [OF tg _ kl']) (use frk in \<open>simp_all add: nk\<close>)
    fix ret
    have "findTags_loop t n a ret
          = findTags_loop t (if Address a' < leftmost32Bit then Left (?ns ! n) else Right (?ns ! n))
              a' (ret @ node_tags t n)"
      unfolding a' by (rule findTags_loop_descend [OF n0 nl full notall])
    then have old: "findTags_loop t n a ret = Some (Inr (ret @ node_tags t n))"
      by (simp only: child0 findTags_loop_zero)
    have "findTags_loop t' n a ret
          = findTags_loop t' (if Address (ShiftLeft a (MatchCount (nodes t' ! n) a)) < leftmost32Bit
               then Left (nodes t' ! n) else Right (nodes t' ! n))
              (ShiftLeft a (MatchCount (nodes t' ! n) a)) (ret @ node_tags t' n)"
      by (rule findTags_loop_descend [OF n0 nl']) (use m' pl' full notall in auto)
    also have "\<dots> = findTags_loop t' k a' (ret @ node_tags t n)"
      unfolding m' a' [symmetric] child same_tags ..
    also have "\<dots> = Some (Inr ((ret @ node_tags t n) @ [tag]))"
      by (rule findTags_loop_leaf [OF k0 kl']) (simp_all add: nk mkNode_def tg)
    finally show "\<exists>xs. findTags_loop t n a ret = Some (Inr xs)
             \<and> findTags_loop t' (if Left (?ns ! p) = n then Left (nodes t' ! p)
                                  else Right (nodes t' ! p)) a ret
                 = Some (Inr (xs @ [tag]))"
      using old by (simp add: slot')
  qed
qed

text \<open>The tree that \<open>insertParent\<close> returns.\<close>

lemma insertParent_shape:
  assumes pre: "add_pre t p n S a"
  shows "\<exists>t' k. insertParent t p n a tag m = Inr t' \<and> fresh t k \<and> k \<noteq> 0 \<and> k < length (nodes t')
           \<and> prefix (nodes t' ! k) = Address a \<and> prefixLength (nodes t' ! k) = Length a
           \<and> TagCount (nodes t' ! k) = 1 \<and> tags t' = (tags t)(tagKey k 0 \<mapsto> tag)
           \<and> nodes t' ! p = (if Left (nodes t ! p) = n then (nodes t ! p)\<lparr>Left := k\<rparr>
                              else (nodes t ! p)\<lparr>Right := k\<rparr>)"
proof -
  let ?ns = "nodes t"
  from pre have st: "subtree ?ns n S" and n0: "n \<noteq> 0"
    and pl: "p < length ?ns" and pS: "p \<notin> S" and fo: "free_ok t"
    and fr: "\<forall>j\<in>set (availableIndexes t). j \<notin> S \<and> j \<noteq> p"
    and link: "Left (?ns ! p) = n \<or> Right (?ns ! p) = n"
    by (simp_all add: add_pre_def)
  have nS: "n \<in> S" using st n0 by (rule subtree_root_mem)
  then have nl: "n < length ?ns" using subtree_range [OF st] by simp
  have pn: "p \<noteq> n" using pS nS by auto
  from newNode_spec [OF fo, of "Address a" "Length a"] obtain k t1 where
    nn: "newNode t (Address a) (Length a) = Inr (k, t1)"
    and al: "allocated t (Address a) (Length a) k t1"
    by blast
  note frk = allocatedD(1) [OF al] and k0 = allocatedD(2) [OF al] and kl = allocatedD(3) [OF al]
    and ll = allocatedD(4) [OF al] and nk = allocatedD(5) [OF al] and same = allocatedD(6) [OF al]
    and tg1 = allocatedD(10) [OF al]
  have frS: "\<forall>j\<in>set (availableIndexes t). j \<notin> S" using fr by simp
  have kS: "k \<notin> S" using fresh_not_in_subtree [OF st refl frS frk] .
  have kn: "k \<noteq> n" using kS nS by auto
  have kp: "k \<noteq> p" using frk fr pl by (auto simp add: fresh_def)
  have n1: "nodes t1 ! n = ?ns ! n" and p1: "nodes t1 ! p = ?ns ! p"
    using same [of n] same [of p] nl pl ll kn kp by simp_all
  let ?nn = "ShiftPrefix (?ns ! n) m"
  let ?left = "prefix ?nn < leftmost32Bit"
  let ?nk = "if ?left then (mkNode (Address a) (Length a))\<lparr>Left := n, TagCount := 1\<rparr>
             else (mkNode (Address a) (Length a))\<lparr>Right := n, TagCount := 1\<rparr>"
  let ?np = "if Left (?ns ! p) = n then (?ns ! p)\<lparr>Left := k\<rparr> else (?ns ! p)\<lparr>Right := k\<rparr>"
  define ns' where "ns' = (nodes t1)[k := ?nk, n := ?nn, p := ?np]"
  define t' where "t' = t1\<lparr>tags := (tags t1)(tagKey k 0 \<mapsto> tag), nodes := ns'\<rparr>"
  have at: "addTag t1 tag k
            = Inr (t1\<lparr>tags := (tags t1)(tagKey k (TagCount (nodes t1 ! k)) \<mapsto> tag),
                      nodes := (nodes t1)[k := (nodes t1 ! k)\<lparr>TagCount := TagCount (nodes t1 ! k) + 1\<rparr>]\<rparr>)"
    using kl by (rule addTag_eq)
  have res: "insertParent t p n a tag m = Inr t'"
    using kn kp pn kl nl pl ll n1 p1 nk link
    by (auto simp add: insertParent_def nn at Let_def replaceChild_def t'_def ns'_def mkNode_def
        list_update_swap [of k n] list_update_swap [of k p] list_update_swap [of n p])
  have nth_k: "ns' ! k = ?nk" using kn kp kl by (simp add: ns'_def)
  have nth_p: "ns' ! p = ?np" using pl ll by (simp add: ns'_def)
  have "k < length (nodes t')" using kl by (simp add: t'_def ns'_def)
  moreover have "prefix (nodes t' ! k) = Address a" "prefixLength (nodes t' ! k) = Length a"
    "TagCount (nodes t' ! k) = 1"
    by (simp_all add: t'_def nth_k mkNode_def)
  moreover have "tags t' = (tags t)(tagKey k 0 \<mapsto> tag)" by (simp add: t'_def tg1)
  moreover have "nodes t' ! p = ?np" by (simp add: t'_def nth_p)
  ultimately show ?thesis using res frk k0 by blast
qed

text \<open>The address ends inside the prefix of the node: the new parent holds the address and
  the tag.\<close>

lemma insertParent_find:
  assumes pre: "add_pre t p n S a"
    and m: "m = MatchCount (nodes t ! n) a" "m = Length a" "m < prefixLength (nodes t ! n)"
    and res: "insertParent t p n a tag m = Inr t'"
  shows "add_found t p n S a tag t'"
proof -
  let ?ns = "nodes t"
  from pre have st: "subtree ?ns n S" and n0: "n \<noteq> 0"
    by (simp_all add: add_pre_def)
  have nS: "n \<in> S" using st n0 by (rule subtree_root_mem)
  then have nl: "n < length ?ns" using subtree_range [OF st] by simp
  from insertParent_shape [OF pre, of tag m] res obtain k where
    frk: "fresh t k" and k0: "k \<noteq> 0" and kl': "k < length (nodes t')"
    and pk: "prefix (nodes t' ! k) = Address a" and lk: "prefixLength (nodes t' ! k) = Length a"
    and ck: "TagCount (nodes t' ! k) = 1" and tg: "tags t' = (tags t)(tagKey k 0 \<mapsto> tag)"
    and pp: "nodes t' ! p = (if Left (?ns ! p) = n then (?ns ! p)\<lparr>Left := k\<rparr>
                              else (?ns ! p)\<lparr>Right := k\<rparr>)"
    by auto
  have slot: "(if Left (?ns ! p) = n then Left (nodes t' ! p) else Right (nodes t' ! p)) = k"
    by (simp add: pp)
  show ?thesis
  proof (rule add_foundI)
    show "tags_written t S tag t'"
      by (rule tags_writtenI [OF tg _ kl']) (use frk ck in simp_all)
    fix ret
    have "findTags_loop t n a ret = Some (Inr ret)"
      by (rule findTags_loop_short [OF n0 nl]) (use m in simp)
    moreover have "findTags_loop t' k a ret = Some (Inr (ret @ [tag]))"
      by (rule findTags_loop_leaf [OF k0 kl' pk lk ck]) (simp add: tg)
    ultimately show "\<exists>xs. findTags_loop t n a ret = Some (Inr xs)
             \<and> findTags_loop t' (if Left (?ns ! p) = n then Left (nodes t' ! p)
                                  else Right (nodes t' ! p)) a ret
                 = Some (Inr (xs @ [tag]))"
      by (simp add: slot)
  qed
qed

text \<open>The tree that \<open>splitNode\<close> returns.\<close>

lemma splitNode_shape:
  assumes pre: "add_pre t p n S a"
  shows "\<exists>t' k1 k2. splitNode t p n a tag m = Inr t' \<and> fresh t k2
           \<and> k1 \<noteq> 0 \<and> k1 < length (nodes t') \<and> k2 \<noteq> 0 \<and> k2 < length (nodes t')
           \<and> nodes t' ! k1 = (if prefix (ShiftPrefix (nodes t ! n) m) < leftmost32Bit
                               then (mkNode (Address a) m)\<lparr>Left := n, Right := k2\<rparr>
                               else (mkNode (Address a) m)\<lparr>Left := k2, Right := n\<rparr>)
           \<and> nodes t' ! k2 = (mkNode (Address (ShiftLeft a m)) (Length (ShiftLeft a m)))\<lparr>TagCount := 1\<rparr>
           \<and> tags t' = (tags t)(tagKey k2 0 \<mapsto> tag)
           \<and> nodes t' ! p = (if Left (nodes t ! p) = n then (nodes t ! p)\<lparr>Left := k1\<rparr>
                              else (nodes t ! p)\<lparr>Right := k1\<rparr>)"
proof -
  let ?ns = "nodes t"
  let ?a' = "ShiftLeft a m"
  from pre have st: "subtree ?ns n S" and n0: "n \<noteq> 0"
    and pl: "p < length ?ns" and pS: "p \<notin> S" and fo: "free_ok t"
    and fr: "\<forall>j\<in>set (availableIndexes t). j \<notin> S \<and> j \<noteq> p"
    and link: "Left (?ns ! p) = n \<or> Right (?ns ! p) = n"
    by (simp_all add: add_pre_def)
  have nS: "n \<in> S" using st n0 by (rule subtree_root_mem)
  then have nl: "n < length ?ns" using subtree_range [OF st] by simp
  have pn: "p \<noteq> n" using pS nS by auto
  have frS: "\<forall>j\<in>set (availableIndexes t). j \<notin> S" using fr by simp
  from newNode_spec [OF fo, of "Address a" m] obtain k1 t1 where
    nn1: "newNode t (Address a) m = Inr (k1, t1)" and al1: "allocated t (Address a) m k1 t1"
    by blast
  note frk1 = allocatedD(1) [OF al1] and k10 = allocatedD(2) [OF al1]
    and k1l = allocatedD(3) [OF al1] and ll1 = allocatedD(4) [OF al1]
    and nk1 = allocatedD(5) [OF al1] and same1 = allocatedD(6) [OF al1]
    and fo1 = allocatedD(7) [OF al1] and tg1 = allocatedD(10) [OF al1]
    and fresh1 = allocatedD(11) [OF al1]
  from newNode_spec [OF fo1, of "Address ?a'" "Length ?a'"] obtain k2 t2 where
    nn2: "newNode t1 (Address ?a') (Length ?a') = Inr (k2, t2)"
    and al2: "allocated t1 (Address ?a') (Length ?a') k2 t2"
    by blast
  note frk2 = allocatedD(1) [OF al2] and k20 = allocatedD(2) [OF al2]
    and k2l = allocatedD(3) [OF al2] and ll2 = allocatedD(4) [OF al2]
    and nk2 = allocatedD(5) [OF al2] and same2 = allocatedD(6) [OF al2]
    and tg2 = allocatedD(10) [OF al2]
  have fr2: "fresh t k2" and k12: "k2 \<noteq> k1" using fresh1 [OF frk2] by simp_all
  have k1S: "k1 \<notin> S" using fresh_not_in_subtree [OF st refl frS frk1] .
  have k2S: "k2 \<notin> S" using fresh_not_in_subtree [OF st refl frS fr2] .
  have k1n: "k1 \<noteq> n" and k2n: "k2 \<noteq> n" using k1S k2S nS by auto
  have k1p: "k1 \<noteq> p" and k2p: "k2 \<noteq> p" using frk1 fr2 fr pl by (auto simp add: fresh_def)
  have k1l2: "k1 < length (nodes t2)" using k1l ll2 by simp
  have nl2: "n < length (nodes t2)" and pl2: "p < length (nodes t2)"
    using nl pl ll1 ll2 by simp_all
  have old2: "nodes t2 ! j = ?ns ! j" if "j < length ?ns" "j \<noteq> k1" "j \<noteq> k2" for j
  proof -
    from that ll1 ll2 have "j < length (nodes t2)" by simp
    with same2 [of j] that have "j < length (nodes t1)" "nodes t2 ! j = nodes t1 ! j" by simp_all
    with same1 [of j] that show ?thesis by simp
  qed
  have k1in2: "nodes t2 ! k1 = mkNode (Address a) m"
    using same2 [of k1] k1l2 k12 nk1 by simp
  let ?nn = "ShiftPrefix (?ns ! n) m"
  let ?left = "prefix ?nn < leftmost32Bit"
  let ?nk2 = "(mkNode (Address ?a') (Length ?a'))\<lparr>TagCount := 1\<rparr>"
  let ?nk1 = "if ?left then (mkNode (Address a) m)\<lparr>Left := n, Right := k2\<rparr>
              else (mkNode (Address a) m)\<lparr>Left := k2, Right := n\<rparr>"
  let ?np = "if Left (?ns ! p) = n then (?ns ! p)\<lparr>Left := k1\<rparr> else (?ns ! p)\<lparr>Right := k1\<rparr>"
  define ns' where "ns' = (nodes t2)[k2 := ?nk2, n := ?nn, k1 := ?nk1, p := ?np]"
  define t' where "t' = t2\<lparr>tags := (tags t2)(tagKey k2 0 \<mapsto> tag), nodes := ns'\<rparr>"
  have at: "addTag t2 tag k2
            = Inr (t2\<lparr>tags := (tags t2)(tagKey k2 (TagCount (nodes t2 ! k2)) \<mapsto> tag),
                      nodes := (nodes t2)[k2 := (nodes t2 ! k2)\<lparr>TagCount := TagCount (nodes t2 ! k2) + 1\<rparr>]\<rparr>)"
    using k2l by (rule addTag_eq)
  have res: "splitNode t p n a tag m = Inr t'"
    using k1n k2n k1p k2p k12 pn k2l k1l2 nl2 pl2 old2 [of n] old2 [of p] nl pl nk2 k1in2 link
    by (auto simp add: splitNode_def nn1 nn2 at Let_def replaceChild_def t'_def ns'_def mkNode_def)
  have nth_k2: "ns' ! k2 = ?nk2" using k2n k12 k2p k2l by (simp add: ns'_def)
  have nth_k1: "ns' ! k1 = ?nk1" using k1p k1l2 by (simp add: ns'_def)
  have nth_p: "ns' ! p = ?np" using pl2 by (simp add: ns'_def)
  have "k1 < length (nodes t')" "k2 < length (nodes t')"
    using k1l2 k2l by (simp_all add: t'_def ns'_def)
  moreover have "nodes t' ! k1 = ?nk1" by (simp add: t'_def nth_k1)
  moreover have "nodes t' ! k2 = ?nk2" by (simp add: t'_def nth_k2)
  moreover have "tags t' = (tags t)(tagKey k2 0 \<mapsto> tag)" by (simp add: t'_def tg1 tg2)
  moreover have "nodes t' ! p = ?np" by (simp add: t'_def nth_p)
  ultimately show ?thesis using res fr2 k10 k20 by blast
qed

text \<open>The address and the prefix of the node part: the lookup passes the new common parent,
  which has no tags, and ends at the new leaf.\<close>

lemma splitNode_find:
  assumes pre: "add_pre t p n S a"
    and m: "m = MatchCount (nodes t ! n) a" "m < Length a" "m < prefixLength (nodes t ! n)"
    and res: "splitNode t p n a tag m = Inr t'"
  shows "add_found t p n S a tag t'"
proof -
  let ?ns = "nodes t"
  let ?a' = "ShiftLeft a m"
  from pre have st: "subtree ?ns n S" and n0: "n \<noteq> 0"
    by (simp_all add: add_pre_def)
  have nS: "n \<in> S" using st n0 by (rule subtree_root_mem)
  then have nl: "n < length ?ns" using subtree_range [OF st] by simp
  from splitNode_shape [OF pre, of tag m] res obtain k1 k2 where
    fr2: "fresh t k2" and k10: "k1 \<noteq> 0" and k1l: "k1 < length (nodes t')"
    and k20: "k2 \<noteq> 0" and k2l: "k2 < length (nodes t')"
    and nk1: "nodes t' ! k1 = (if prefix (ShiftPrefix (?ns ! n) m) < leftmost32Bit
                               then (mkNode (Address a) m)\<lparr>Left := n, Right := k2\<rparr>
                               else (mkNode (Address a) m)\<lparr>Left := k2, Right := n\<rparr>)"
    and nk2: "nodes t' ! k2 = (mkNode (Address ?a') (Length ?a'))\<lparr>TagCount := 1\<rparr>"
    and tg: "tags t' = (tags t)(tagKey k2 0 \<mapsto> tag)"
    and pp: "nodes t' ! p = (if Left (?ns ! p) = n then (?ns ! p)\<lparr>Left := k1\<rparr>
                              else (?ns ! p)\<lparr>Right := k1\<rparr>)"
    by auto
  have slot: "(if Left (?ns ! p) = n then Left (nodes t' ! p) else Right (nodes t' ! p)) = k1"
    by (simp add: pp)
  have p1: "prefix (nodes t' ! k1) = Address a" and l1: "prefixLength (nodes t' ! k1) = m"
    and c1: "TagCount (nodes t' ! k1) = 0"
    by (simp_all add: nk1 mkNode_def)
  have m1: "MatchCount (nodes t' ! k1) a = m"
    using m(2) by (simp add: MatchCount_def p1 l1 leading_match_same min_def)
  have "leading_match (min (Length a) (prefixLength (?ns ! n))) (Address a) (prefix (?ns ! n)) = m"
    using m(1) by (simp add: MatchCount_def)
  from leading_match_differs [OF this] m(2,3)
  have "bit (push_bit m (Address a)) 31 \<noteq> bit (push_bit m (prefix (?ns ! n))) 31" by simp
  then have side: "(Address ?a' < leftmost32Bit) = (\<not> prefix (ShiftPrefix (?ns ! n) m) < leftmost32Bit)"
    by (simp add: less_leftmost32Bit ShiftLeft_def ShiftPrefix_def)
  have child: "(if Address ?a' < leftmost32Bit then Left (nodes t' ! k1) else Right (nodes t' ! k1)) = k2"
    using side by (simp add: nk1)
  show ?thesis
  proof (rule add_foundI)
    show "tags_written t S tag t'"
      by (rule tags_writtenI [OF tg _ k2l]) (use fr2 in \<open>simp_all add: nk2\<close>)
    fix ret
    have old: "findTags_loop t n a ret = Some (Inr ret)"
      by (rule findTags_loop_short [OF n0 nl]) (use m in simp)
    have "findTags_loop t' k1 a ret
          = findTags_loop t' (if Address (ShiftLeft a (MatchCount (nodes t' ! k1) a)) < leftmost32Bit
               then Left (nodes t' ! k1) else Right (nodes t' ! k1))
              (ShiftLeft a (MatchCount (nodes t' ! k1) a)) (ret @ node_tags t' k1)"
      by (rule findTags_loop_descend [OF k10 k1l]) (use m1 l1 m(2) in auto)
    also have "\<dots> = findTags_loop t' k2 ?a' ret"
      unfolding m1 child by (simp add: node_tags_no_tags [OF c1])
    also have "\<dots> = Some (Inr (ret @ [tag]))"
      by (rule findTags_loop_leaf [OF k20 k2l]) (simp_all add: nk2 mkNode_def tg)
    finally show "\<exists>xs. findTags_loop t n a ret = Some (Inr xs)
             \<and> findTags_loop t' (if Left (?ns ! p) = n then Left (nodes t' ! p)
                                  else Right (nodes t' ! p)) a ret
                 = Some (Inr (xs @ [tag]))"
      using old by (simp add: slot)
  qed
qed

text \<open>The node is matched in full and the loop goes on below it: the lookup passes the node,
  whose tags are untouched, and goes on below it in the same way.\<close>

lemma descend_find:
  assumes pre: "add_pre t p n S a"
    and full: "MatchCount (nodes t ! n) a = prefixLength (nodes t ! n)"
    and notall: "MatchCount (nodes t ! n) a \<noteq> Length a"
    and a': "a' = ShiftLeft a (MatchCount (nodes t ! n) a)"
    and c: "c = (if Address a' < leftmost32Bit then Left (nodes t ! n) else Right (nodes t ! n))"
    and c0: "c \<noteq> 0" and sc: "subtree (nodes t) c Sc"
    and post: "add_post t n c Sc t'" and found: "add_found t n c Sc a' tag t'"
    and sm: "small t'"
  shows "add_found t p n S a tag t'"
proof -
  let ?ns = "nodes t"
  from pre have st: "subtree ?ns n S" and n0: "n \<noteq> 0"
    and pl: "p < length ?ns" and pS: "p \<notin> S" and fo: "free_ok t"
    and fr: "\<forall>j\<in>set (availableIndexes t). j \<notin> S \<and> j \<noteq> p"
    and link: "Left (?ns ! p) = n \<or> Right (?ns ! p) = n"
    by (simp_all add: add_pre_def)
  have nS: "n \<in> S" using st n0 by (rule subtree_root_mem)
  then have nl: "n < length ?ns" using subtree_range [OF st] by simp
  have pn: "p \<noteq> n" using pS nS by auto
  from st n0 obtain L R where S: "S = insert n (L \<union> R)"
    and sl: "subtree ?ns (Left (?ns ! n)) L" and sr: "subtree ?ns (Right (?ns ! n)) R"
    and nL: "n \<notin> L" and nR: "n \<notin> R" and LR: "L \<inter> R = {}"
    by (auto elim: subtree_nodeE)
  have cSc: "c \<in> Sc" using sc c0 by (rule subtree_root_mem)
  have Sc: "Sc = (if Address a' < leftmost32Bit then L else R)"
    using sc sl sr c by (auto dest: subtree_unique)
  have ScS: "Sc \<subseteq> S" and nSc: "n \<notin> Sc" using Sc S nL nR by auto
  have left: "(Left (?ns ! n) = c) = (Address a' < leftmost32Bit)"
  proof (cases "Address a' < leftmost32Bit")
    case True
    then show ?thesis using c by simp
  next
    case False
    have "Left (?ns ! n) \<noteq> c"
    proof
      assume e: "Left (?ns ! n) = c"
      with sl c0 have "c \<in> L" by (auto dest: subtree_root_mem)
      moreover have "c \<in> R" using cSc Sc False by simp
      ultimately show False using LR by auto
    qed
    with False show ?thesis by simp
  qed
  from post obtain n' where
    len: "length ?ns \<le> length (nodes t')"
    and frame: "\<forall>j<length ?ns. j \<notin> Sc \<longrightarrow> j \<noteq> n \<longrightarrow> \<not> fresh t j \<longrightarrow> nodes t' ! j = ?ns ! j"
    and nn: "nodes t' ! n = (if Left (?ns ! n) = c then (?ns ! n)\<lparr>Left := n'\<rparr>
                             else (?ns ! n)\<lparr>Right := n'\<rparr>)"
    unfolding add_post_def by blast
  have pnf: "\<not> fresh t p" using pl fr by (auto simp add: fresh_def)
  have nnf: "\<not> fresh t n" using nl fr nS by (auto simp add: fresh_def)
  have pSc: "p \<notin> Sc" using pS ScS by auto
  have pp: "nodes t' ! p = ?ns ! p" using frame pl pn pnf pSc by simp
  have slot: "(if Left (?ns ! p) = n then Left (nodes t' ! p) else Right (nodes t' ! p)) = n"
    using link by (auto simp add: pp)
  have nl': "n < length (nodes t')" using nl len by simp
  have cnt: "TagCount (nodes t' ! n) = TagCount (?ns ! n)" by (simp add: nn)
  from found obtain k s where tg: "tags t' = (tags t)(tagKey k s \<mapsto> tag)"
    and kk: "k \<in> Sc \<or> fresh t k" and kl': "k < length (nodes t')"
    and sk: "s < TagCount (nodes t' ! k)"
    unfolding add_found_def tags_written_def by blast
  have kn: "n \<noteq> k" using kk nSc nnf by auto
  have same_tags: "node_tags t' n = node_tags t n"
  proof (rule node_tags_other [OF tg cnt kn])
    show "n < 2 ^ 32" using small_index [OF sm nl'] .
    show "k < 2 ^ 32" using small_index [OF sm kl'] .
    show "s < 2 ^ 32" using small_count [OF sm kl'] sk by simp
    show "TagCount (?ns ! n) \<le> 2 ^ 32" using small_count [OF sm nl'] cnt by simp
  qed
  have m': "MatchCount (nodes t' ! n) a = MatchCount (?ns ! n) a"
    by (rule MatchCount_cong) (simp_all add: nn)
  have pl': "prefixLength (nodes t' ! n) = prefixLength (?ns ! n)" by (simp add: nn)
  have child': "(if Address a' < leftmost32Bit then Left (nodes t' ! n) else Right (nodes t' ! n))
                = (if Left (?ns ! n) = c then Left (nodes t' ! n) else Right (nodes t' ! n))"
    using left by simp
  show ?thesis
  proof (rule add_foundI)
    show "tags_written t S tag t'"
      by (rule tags_writtenI [OF tg _ kl' sk]) (use kk ScS in auto)
    fix ret
    from found obtain xs where
      f1: "findTags_loop t c a' (ret @ node_tags t n) = Some (Inr xs)"
      and f2: "findTags_loop t' (if Left (?ns ! n) = c then Left (nodes t' ! n)
                                 else Right (nodes t' ! n)) a' (ret @ node_tags t n)
               = Some (Inr (xs @ [tag]))"
      unfolding add_found_def by blast
    have "findTags_loop t n a ret
          = findTags_loop t (if Address a' < leftmost32Bit then Left (?ns ! n) else Right (?ns ! n))
              a' (ret @ node_tags t n)"
      unfolding a' by (rule findTags_loop_descend [OF n0 nl full notall])
    with f1 have old: "findTags_loop t n a ret = Some (Inr xs)" by (simp add: c)
    have "findTags_loop t' n a ret
          = findTags_loop t' (if Address (ShiftLeft a (MatchCount (nodes t' ! n) a)) < leftmost32Bit
               then Left (nodes t' ! n) else Right (nodes t' ! n))
              (ShiftLeft a (MatchCount (nodes t' ! n) a)) (ret @ node_tags t' n)"
      by (rule findTags_loop_descend [OF n0 nl']) (use m' pl' full notall in auto)
    also have "\<dots> = findTags_loop t' (if Left (?ns ! n) = c then Left (nodes t' ! n)
                                       else Right (nodes t' ! n)) a' (ret @ node_tags t n)"
      unfolding m' a' [symmetric] child' same_tags ..
    finally show "\<exists>xs. findTags_loop t n a ret = Some (Inr xs)
             \<and> findTags_loop t' (if Left (?ns ! p) = n then Left (nodes t' ! p)
                                  else Right (nodes t' ! p)) a ret
                 = Some (Inr (xs @ [tag]))"
      using old f2 by (simp add: slot)
  qed
qed

lemma add_loop_find:
  "add_pre t parent nodeIndex S address \<Longrightarrow> add_loop t parent nodeIndex address tag = Inr t' \<Longrightarrow>
   small t' \<Longrightarrow> add_found t parent nodeIndex S address tag t'"
proof (induction t parent nodeIndex address tag arbitrary: S rule: add_loop.induct)
  case (1 t parent nodeIndex address tag)
  let ?ns = "nodes t"
  let ?n = "?ns ! nodeIndex"
  let ?m = "MatchCount ?n address"
  let ?a' = "ShiftLeft address ?m"
  note pre = "1.prems"(1) and res = "1.prems"(2) and sm = "1.prems"(3)
  from pre have st: "subtree ?ns nodeIndex S" and n0: "nodeIndex \<noteq> 0"
    and gd: "\<forall>i\<in>S. good ?ns i" and one: "1 \<notin> S" and fo: "free_ok t"
    and fr: "\<forall>j\<in>set (availableIndexes t). j \<notin> S \<and> j \<noteq> parent"
    and la: "1 \<le> Length address" and hb: "bit (prefix ?n) 31 = bit (Address address) 31"
    by (simp_all add: add_pre_def)
  have nS: "nodeIndex \<in> S" using st n0 by (rule subtree_root_mem)
  then have nl: "nodeIndex < length ?ns" using subtree_range [OF st] by simp
  have gn: "good ?ns nodeIndex" using gd nS by simp
  have n1: "nodeIndex \<noteq> 1" using nS one by auto
  with gn have nok: "node_ok ?n" by (simp add: good_def)
  then have pl0: "prefixLength ?n \<noteq> 0" by (simp add: node_ok_def)
  have m0: "?m \<noteq> 0"
    using leading_match_pos [of "min (Length address) (prefixLength ?n)" "Address address" "prefix ?n"]
      la pl0 hb by (simp add: MatchCount_def)
  from st n0 obtain L R where S: "S = insert nodeIndex (L \<union> R)"
    and sl: "subtree ?ns (Left ?n) L" and sr: "subtree ?ns (Right ?n) R"
    and nL: "nodeIndex \<notin> L" and nR: "nodeIndex \<notin> R" and LR: "L \<inter> R = {}"
    by (auto elim: subtree_nodeE)
  show ?case
  proof (cases "?m = Length address")
    case True
    show ?thesis
    proof (cases "?m = prefixLength ?n")
      case exact: True
      have "addTag t tag nodeIndex = Inr t'"
        using res n0 nl pl0 m0 True exact by (subst (asm) add_loop.simps) simp
      from add_exact_find [OF pre exact True this sm] show ?thesis .
    next
      case False
      then have lt: "?m < prefixLength ?n"
        using MatchCount_le_prefixLength [of ?n address] by simp
      have "insertParent t parent nodeIndex address tag ?m = Inr t'"
        using res n0 nl pl0 m0 True False by (subst (asm) add_loop.simps) simp
      from insertParent_find [OF pre refl True lt this] show ?thesis .
    qed
  next
    case notall: False
    then have mlt: "?m < Length address"
      using MatchCount_le_Length [of ?n address] by simp
    show ?thesis
    proof (cases "?m = prefixLength ?n")
      case False
      then have lt: "?m < prefixLength ?n"
        using MatchCount_le_prefixLength [of ?n address] by simp
      have "splitNode t parent nodeIndex address tag ?m = Inr t'"
        using res n0 nl pl0 m0 notall False by (subst (asm) add_loop.simps) simp
      from splitNode_find [OF pre refl mlt lt this] show ?thesis .
    next
      case full: True
      have la': "1 \<le> Length ?a'" using mlt by (simp add: ShiftLeft_def)
      show ?thesis
      proof (cases "Address ?a' < leftmost32Bit")
        case left: True
        then have side: "True = (\<not> bit (Address ?a') 31)" by (simp add: less_leftmost32Bit)
        show ?thesis
        proof (cases "Left ?n = 0")
          case True
          have r: "addLeaf t nodeIndex True ?a' tag = Inr t'"
            using res n0 nl pl0 m0 notall full left True by (subst (asm) add_loop.simps) simp
          show ?thesis
            by (rule addLeaf_find [OF pre full notall refl _ _ r sm]) (use left True in simp_all)
        next
          case False
          have cpre: "add_pre t nodeIndex (Left ?n) L ?a'"
            unfolding add_pre_def
            using fo sl False gd S one nl nL fr la' gn side
            by (auto simp add: good_def child_bits_ok_def)
          have r: "add_loop t nodeIndex (Left ?n) ?a' tag = Inr t'"
            using res n0 nl pl0 m0 notall full left False by (subst (asm) add_loop.simps) simp
          from add_loop_post [OF cpre, of tag] r have post: "add_post t nodeIndex (Left ?n) L t'"
            by simp
          have found: "add_found t nodeIndex (Left ?n) L ?a' tag t'"
            using "1.IH"(1) [OF n0 _ pl0 m0 notall full left False cpre r sm] nl by simp
          show ?thesis
            by (rule descend_find [OF pre full notall refl _ False sl post found sm])
              (use left in simp)
        qed
      next
        case right: False
        then have side: "False = (\<not> bit (Address ?a') 31)" by (simp add: less_leftmost32Bit)
        show ?thesis
        proof (cases "Right ?n = 0")
          case True
          have r: "addLeaf t nodeIndex False ?a' tag = Inr t'"
            using res n0 nl pl0 m0 notall full right True by (subst (asm) add_loop.simps) simp
          show ?thesis
            by (rule addLeaf_find [OF pre full notall refl _ _ r sm]) (use right True in simp_all)
        next
          case False
          have cpre: "add_pre t nodeIndex (Right ?n) R ?a'"
            unfolding add_pre_def
            using fo sr False gd S one nl nR fr la' gn side
            by (auto simp add: good_def child_bits_ok_def)
          have r: "add_loop t nodeIndex (Right ?n) ?a' tag = Inr t'"
            using res n0 nl pl0 m0 notall full right False by (subst (asm) add_loop.simps) simp
          from add_loop_post [OF cpre, of tag] r have post: "add_post t nodeIndex (Right ?n) R t'"
            by simp
          have found: "add_found t nodeIndex (Right ?n) R ?a' tag t'"
            using "1.IH"(2) [OF n0 _ pl0 m0 notall full right False cpre r sm] nl by simp
          show ?thesis
            by (rule descend_find [OF pre full notall refl _ False sr post found sm])
              (use right in simp)
        qed
      qed
    qed
  qed
qed

lemma FindTags_root_only:
  "1 < length (nodes t) \<Longrightarrow> a = None \<or> (\<exists>a'. a = Some a' \<and> Length a' = 0) \<Longrightarrow>
   FindTags t a = Some (Inr (node_tags t 1))"
  by (auto simp add: FindTags_def node_tags_no_tags)

lemma FindTags_below_root:
  "1 < length (nodes t) \<Longrightarrow> Length a \<noteq> 0 \<Longrightarrow>
   FindTags t (Some a)
   = findTags_loop t (if Address a < leftmost32Bit then Left (nodes t ! 1) else Right (nodes t ! 1))
       a (node_tags t 1)"
  by (simp add: FindTags_def node_tags_no_tags)

text \<open>\<open>FindTags\<close> after \<open>Add\<close>, for the same address: the tags found before, then the new
  tag.\<close>

lemma Add_find:
  assumes inv: "tree_inv t" and res: "Add t a tag = Inr t'" and sm: "small t'"
  shows "\<exists>xs. FindTags t a = Some (Inr xs) \<and> FindTags t' a = Some (Inr (xs @ [tag]))"
proof -
  let ?ns = "nodes t"
  from inv obtain S where fo: "free_ok t" and st: "subtree ?ns 1 S"
    and gd: "\<forall>i\<in>S. good ?ns i" and fr: "\<forall>j\<in>set (availableIndexes t). j \<notin> S"
    unfolding tree_inv_alt by blast
  have rS: "1 \<in> S" using subtree_root_mem [OF st] by simp
  then have rl: "1 < length ?ns" using subtree_range [OF st] by blast
  from st obtain L R where S: "S = insert 1 (L \<union> R)"
    and sl: "subtree ?ns (Left (?ns ! 1)) L" and sr: "subtree ?ns (Right (?ns ! 1)) R"
    and nL: "1 \<notin> L" and nR: "1 \<notin> R" and LR: "L \<inter> R = {}"
    by (auto elim: subtree_nodeE)
  have gr: "good ?ns 1" using gd rS by simp
  have rnf: "\<not> fresh t 1" using fr rS rl by (auto simp add: fresh_def)
  show ?thesis
  proof (cases "a = None \<or> (\<exists>a'. a = Some a' \<and> Length a' = 0)")
    case True
    let ?T = "TagCount (?ns ! 1)"
    have "addTag t tag 1 = Inr t'" using res rl True by (auto simp add: Add_def)
    with addTag_eq [OF rl, of tag]
    have t': "t' = t\<lparr>tags := (tags t)(tagKey 1 ?T \<mapsto> tag),
                     nodes := ?ns[1 := (?ns ! 1)\<lparr>TagCount := ?T + 1\<rparr>]\<rparr>"
      by simp
    have tg: "tags t' = (tags t)(tagKey 1 ?T \<mapsto> tag)" by (simp add: t')
    have nn: "nodes t' ! 1 = (?ns ! 1)\<lparr>TagCount := ?T + 1\<rparr>" using rl by (simp add: t' del: One_nat_def)
    have rl': "1 < length (nodes t')" using rl by (simp add: t' del: One_nat_def)
    have "TagCount (nodes t' ! 1) \<le> 2 ^ 32" using small_count [OF sm rl'] .
    then have T32: "?T < 2 ^ 32" by (simp add: nn del: One_nat_def)
    have snoc: "node_tags t' 1 = node_tags t 1 @ [tag]"
      by (rule node_tags_snoc [OF tg _ _ T32]) (simp_all add: nn del: One_nat_def)
    from FindTags_root_only [OF rl True] FindTags_root_only [OF rl' True] snoc
    show ?thesis by simp
  next
    case False
    then obtain a' where a: "a = Some a'" and la: "1 \<le> Length a'" by (cases a) auto
    then have la0: "Length a' \<noteq> 0" by simp
    define onLeft where "onLeft = (Address a' < leftmost32Bit)"
    define c where "c = (if onLeft then Left (?ns ! 1) else Right (?ns ! 1))"
    have side: "onLeft = (\<not> bit (Address a') 31)" by (simp add: onLeft_def less_leftmost32Bit)
    have old: "FindTags t a = findTags_loop t c a' (node_tags t 1)"
      using FindTags_below_root [OF rl la0] by (simp add: a c_def onLeft_def)
    show ?thesis
    proof (cases "c = 0")
      case True
      then have slot: "if onLeft then Left (?ns ! 1) = 0 else Right (?ns ! 1) = 0"
        unfolding c_def by (cases onLeft) simp_all
      have r: "addLeaf t 1 onLeft a' tag = Inr t'"
        using res rl a la True by (auto simp add: Add_def c_def onLeft_def split: if_splits)
      from addLeaf_holder [OF fo st _ gd fr slot la side, of tag] r obtain k where
        k0: "k \<noteq> 0" and kS: "k \<notin> S"
        and st': "subtree (nodes t') 1 (insert k S)"
        and nn: "nodes t' ! 1 = (if onLeft then (?ns ! 1)\<lparr>Left := k\<rparr> else (?ns ! 1)\<lparr>Right := k\<rparr>)"
        and nk: "nodes t' ! k = (mkNode (Address a') (Length a'))\<lparr>TagCount := 1\<rparr>"
        and tg: "tags t' = (tags t)(tagKey k 0 \<mapsto> tag)"
        by auto
      have kl': "k < length (nodes t')" using subtree_range [OF st', of k] by simp
      have rl': "1 < length (nodes t')" using subtree_range [OF st', of 1] rS by simp
      have cnt: "TagCount (nodes t' ! 1) = TagCount (?ns ! 1)" by (simp add: nn del: One_nat_def)
      have same_tags: "node_tags t' 1 = node_tags t 1"
      proof (rule node_tags_other [OF tg cnt])
        show "1 \<noteq> k" using kS rS by auto
        show "(1::nat) < 2 ^ 32" by simp
        show "k < 2 ^ 32" using small_index [OF sm kl'] .
        show "(0::nat) < 2 ^ 32" by simp
        show "TagCount (?ns ! 1) \<le> 2 ^ 32" using small_count [OF sm rl'] cnt by simp
      qed
      have child: "(if Address a' < leftmost32Bit then Left (nodes t' ! 1) else Right (nodes t' ! 1)) = k"
        by (simp add: nn onLeft_def del: One_nat_def)
      have "FindTags t' a = findTags_loop t' k a' (node_tags t 1)"
        using FindTags_below_root [OF rl' la0] unfolding a child same_tags .
      also have "\<dots> = Some (Inr (node_tags t 1 @ [tag]))"
        by (rule findTags_loop_leaf [OF k0 kl']) (simp_all add: nk mkNode_def tg)
      finally show ?thesis using old True by (simp add: findTags_loop_zero)
    next
      case False
      define Sc where "Sc = (if onLeft then L else R)"
      have sc: "subtree ?ns c Sc" using sl sr by (simp add: c_def Sc_def)
      have ScS: "Sc \<subseteq> S" "1 \<notin> Sc" using S nL nR by (auto simp add: Sc_def)
      have cSc: "c \<in> Sc" using sc False by (rule subtree_root_mem)
      have hb: "bit (prefix (?ns ! c)) 31 = bit (Address a') 31"
        using gr False side by (auto simp add: good_def child_bits_ok_def c_def split: if_splits)
      have rnf': "1 \<notin> set (availableIndexes t)" using fr rS by auto
      have pre: "add_pre t 1 c Sc a'"
        unfolding add_pre_def
        using fo sc False gd ScS rl fr rnf' la hb by (auto simp add: c_def)
      have r: "add_loop t 1 c a' tag = Inr t'"
        using res rl a la False by (auto simp add: Add_def c_def onLeft_def split: if_splits)
      from add_loop_post [OF pre, of tag] r have post: "add_post t 1 c Sc t'" by simp
      from add_loop_find [OF pre r sm] have found: "add_found t 1 c Sc a' tag t'" .
      have left: "(Left (?ns ! 1) = c) = onLeft"
      proof (cases onLeft)
        case True
        then show ?thesis by (simp add: c_def)
      next
        case F: False
        have "Left (?ns ! 1) \<noteq> c"
        proof
          assume "Left (?ns ! 1) = c"
          with sl False have "c \<in> L" by (auto dest: subtree_root_mem)
          moreover have "c \<in> R" using cSc F by (simp add: Sc_def)
          ultimately show False using LR by auto
        qed
        with F show ?thesis by simp
      qed
      from post obtain n' where
        len: "length ?ns \<le> length (nodes t')"
        and nn: "nodes t' ! 1 = (if Left (?ns ! 1) = c then (?ns ! 1)\<lparr>Left := n'\<rparr>
                                 else (?ns ! 1)\<lparr>Right := n'\<rparr>)"
        unfolding add_post_def by blast
      have rl': "1 < length (nodes t')" using rl len by simp
      have cnt: "TagCount (nodes t' ! 1) = TagCount (?ns ! 1)" by (simp add: nn del: One_nat_def)
      from found obtain k s where tg: "tags t' = (tags t)(tagKey k s \<mapsto> tag)"
        and kk: "k \<in> Sc \<or> fresh t k" and kl': "k < length (nodes t')"
        and sk: "s < TagCount (nodes t' ! k)"
        unfolding add_found_def tags_written_def by blast
      have k1: "1 \<noteq> k" using kk ScS rnf by auto
      have same_tags: "node_tags t' 1 = node_tags t 1"
      proof (rule node_tags_other [OF tg cnt k1])
        show "(1::nat) < 2 ^ 32" by simp
        show "k < 2 ^ 32" using small_index [OF sm kl'] .
        show "s < 2 ^ 32" using small_count [OF sm kl'] sk by simp
        show "TagCount (?ns ! 1) \<le> 2 ^ 32" using small_count [OF sm rl'] cnt by simp
      qed
      have child: "(if Address a' < leftmost32Bit then Left (nodes t' ! 1) else Right (nodes t' ! 1))
                   = (if Left (?ns ! 1) = c then Left (nodes t' ! 1) else Right (nodes t' ! 1))"
        using left by (simp add: onLeft_def)
      from found obtain xs where
        f1: "findTags_loop t c a' (node_tags t 1) = Some (Inr xs)"
        and f2: "findTags_loop t' (if Left (?ns ! 1) = c then Left (nodes t' ! 1)
                                   else Right (nodes t' ! 1)) a' (node_tags t 1)
                 = Some (Inr (xs @ [tag]))"
        unfolding add_found_def by blast
      have "FindTags t' a = findTags_loop t' (if Left (?ns ! 1) = c then Left (nodes t' ! 1)
                                   else Right (nodes t' ! 1)) a' (node_tags t 1)"
        using FindTags_below_root [OF rl' la0] unfolding a child same_tags .
      with f2 have "FindTags t' a = Some (Inr (xs @ [tag]))" by simp
      with old f1 show ?thesis by simp
    qed
  qed
qed

lemma sized_mono: "sized L M t \<Longrightarrow> L \<le> L' \<Longrightarrow> M \<le> M' \<Longrightarrow> sized L' M' t"
  by (fastforce simp add: sized_def)

lemma all_list_update:
  assumes "\<forall>x\<in>set xs. P x" and "i < length xs \<Longrightarrow> P v"
  shows "\<forall>x\<in>set (xs[i := v]). P x"
proof (cases "i < length xs")
  case True
  with assms set_update_subset_insert [of xs i v] show ?thesis by auto
next
  case False
  then have "length xs \<le> i" by simp
  with assms(1) show ?thesis by (simp add: list_update_beyond)
qed

lemma sized_update:
  assumes "sized L M t" and "i < length (nodes t) \<Longrightarrow> TagCount v \<le> M"
  shows "sized L M (t\<lparr>nodes := (nodes t)[i := v]\<rparr>)"
  using assms all_list_update [of "nodes t" "\<lambda>x. TagCount x \<le> M" i v]
  by (simp add: sized_def)

lemma sized_nth: "sized L M t \<Longrightarrow> i < length (nodes t) \<Longrightarrow> TagCount (nodes t ! i) \<le> M"
  by (simp add: sized_def)

lemma sized_setLeft: "sized L M t \<Longrightarrow> sized L M (setLeft t i c)"
  unfolding setLeft_def by (rule sized_update) (simp_all add: sized_nth)

lemma sized_setRight: "sized L M t \<Longrightarrow> sized L M (setRight t i c)"
  unfolding setRight_def by (rule sized_update) (simp_all add: sized_nth)

lemma sized_shift:
  "sized L M t \<Longrightarrow> sized L M (t\<lparr>nodes := (nodes t)[i := ShiftPrefix (nodes t ! i) m]\<rparr>)"
  by (rule sized_update) (simp_all add: sized_nth ShiftPrefix_def)

lemma sized_newNode:
  assumes "newNode t p l = Inr (k, t1)" and "sized L M t"
  shows "sized (Suc L) M t1"
proof (cases "availableIndexes t = []")
  case True
  with assms(1) have "t1 = t\<lparr>nodes := nodes t @ [mkNode p l]\<rparr>" by (simp add: newNode_def)
  with assms(2) show ?thesis by (auto simp add: sized_def mkNode_def)
next
  case False
  with assms(1) have "t1 = (t\<lparr>availableIndexes := butlast (availableIndexes t)\<rparr>)
                         \<lparr>nodes := (nodes t)[last (availableIndexes t) := mkNode p l]\<rparr>"
    by (auto simp add: newNode_def Let_def split: if_splits)
  moreover have "sized L M (t\<lparr>availableIndexes := butlast (availableIndexes t)\<rparr>)"
    using assms(2) by (simp add: sized_def)
  ultimately have "sized L M t1"
    using sized_update [of L M "t\<lparr>availableIndexes := butlast (availableIndexes t)\<rparr>"
        "last (availableIndexes t)" "mkNode p l"]
    by (simp add: mkNode_def)
  then show ?thesis by (rule sized_mono) simp_all
qed

lemma sized_addTag:
  assumes "addTag t tag n = Inr t'" and "sized L M t"
  shows "sized L (Suc M) t'"
proof -
  from assms(1) have nl: "n < length (nodes t)" by (simp add: addTag_def split: if_splits)
  from assms(1) addTag_eq [OF nl, of tag]
  have t': "t' = (t\<lparr>tags := (tags t)(tagKey n (TagCount (nodes t ! n)) \<mapsto> tag)\<rparr>)
                    \<lparr>nodes := (nodes t)[n := (nodes t ! n)\<lparr>TagCount := TagCount (nodes t ! n) + 1\<rparr>]\<rparr>"
    by simp
  have "sized L (Suc M) (t\<lparr>tags := (tags t)(tagKey n (TagCount (nodes t ! n)) \<mapsto> tag)\<rparr>)"
    using assms(2) by (auto simp add: sized_def)
  from sized_update [OF this, of n "(nodes t ! n)\<lparr>TagCount := TagCount (nodes t ! n) + 1\<rparr>"]
    sized_nth [OF assms(2) nl]
  show ?thesis by (simp add: t')
qed

lemma sized_addLeaf:
  assumes "addLeaf t h onLeft a tag = Inr t'" and "sized L M t"
  shows "sized (Suc L) (Suc M) t'"
proof (cases "newNode t (Address a) (Length a)")
  case (Inl e)
  with assms(1) show ?thesis by (simp add: addLeaf_def)
next
  case (Inr kt)
  obtain k t1 where kt: "kt = (k, t1)" by (cases kt)
  note nn = Inr [unfolded kt]
  show ?thesis
  proof (cases "addTag t1 tag k")
    case (Inl e)
    with assms(1) nn show ?thesis by (simp add: addLeaf_def)
  next
    case g: (Inr t2)
    have t': "t' = (if onLeft then setLeft t2 h k else setRight t2 h k)"
      using assms(1) by (simp add: addLeaf_def nn g)
    from sized_addTag [OF g sized_newNode [OF nn assms(2)]]
    show ?thesis by (simp add: t' sized_setLeft sized_setRight)
  qed
qed

lemma sized_replaceChild:
  "replaceChild t p n k = Inr t' \<Longrightarrow> sized L M t \<Longrightarrow> sized L M t'"
  by (auto simp add: replaceChild_def sized_setLeft sized_setRight split: if_splits)

lemma sized_insertParent:
  assumes "insertParent t p n a tag m = Inr t'" and "sized L M t"
  shows "sized (Suc L) (Suc M) t'"
proof (cases "newNode t (Address a) (Length a)")
  case (Inl e)
  with assms(1) show ?thesis by (simp add: insertParent_def)
next
  case (Inr kt)
  obtain k t1 where kt: "kt = (k, t1)" by (cases kt)
  note nn = Inr [unfolded kt]
  show ?thesis
  proof (cases "addTag t1 tag k")
    case (Inl e)
    with assms(1) nn show ?thesis by (simp add: insertParent_def)
  next
    case g: (Inr t2)
    define t3 where "t3 = t2\<lparr>nodes := (nodes t2)[n := ShiftPrefix (nodes t2 ! n) m]\<rparr>"
    define t4 where "t4 = (if prefix (nodes t3 ! n) < leftmost32Bit then setLeft t3 k n
                           else setRight t3 k n)"
    have r: "replaceChild t4 p n k = Inr t'"
      using assms(1) by (simp add: insertParent_def nn g t3_def t4_def Let_def split: if_splits)
    have s2: "sized (Suc L) (Suc M) t2"
      by (rule sized_addTag [OF g sized_newNode [OF nn assms(2)]])
    then have "sized (Suc L) (Suc M) t3" unfolding t3_def by (rule sized_shift)
    then have "sized (Suc L) (Suc M) t4"
      by (simp add: t4_def sized_setLeft sized_setRight)
    with r show ?thesis by (rule sized_replaceChild)
  qed
qed

lemma sized_splitNode:
  assumes "splitNode t p n a tag m = Inr t'" and "sized L M t"
  shows "sized (Suc (Suc L)) (Suc M) t'"
proof (cases "newNode t (Address a) m")
  case (Inl e)
  with assms(1) show ?thesis by (simp add: splitNode_def)
next
  case (Inr kt)
  obtain k1 t1 where kt: "kt = (k1, t1)" by (cases kt)
  note n1 = Inr [unfolded kt]
  let ?a' = "ShiftLeft a m"
  show ?thesis
  proof (cases "newNode t1 (Address ?a') (Length ?a')")
    case (Inl e)
    with assms(1) n1 show ?thesis by (simp add: splitNode_def Let_def)
  next
    case (Inr kt2)
    obtain k2 t2 where kt2: "kt2 = (k2, t2)" by (cases kt2)
    note n2 = Inr [unfolded kt2]
    show ?thesis
    proof (cases "addTag t2 tag k2")
      case (Inl e)
      with assms(1) n1 n2 show ?thesis by (simp add: splitNode_def Let_def)
    next
      case g: (Inr t3)
      define t4 where "t4 = t3\<lparr>nodes := (nodes t3)[n := ShiftPrefix (nodes t3 ! n) m]\<rparr>"
      define t5 where "t5 = (if prefix (nodes t4 ! n) < leftmost32Bit
                             then setRight (setLeft t4 k1 n) k1 k2
                             else setLeft (setRight t4 k1 n) k1 k2)"
      have r: "replaceChild t5 p n k1 = Inr t'"
        using assms(1) by (simp add: splitNode_def n1 n2 g t4_def t5_def Let_def split: if_splits)
      have "sized (Suc (Suc L)) (Suc M) t3"
        by (rule sized_addTag [OF g sized_newNode [OF n2 sized_newNode [OF n1 assms(2)]]])
      then have "sized (Suc (Suc L)) (Suc M) t4" unfolding t4_def by (rule sized_shift)
      then have "sized (Suc (Suc L)) (Suc M) t5"
        by (simp add: t5_def sized_setLeft sized_setRight)
      with r show ?thesis by (rule sized_replaceChild)
    qed
  qed
qed

lemma sized_add_loop:
  "add_loop t parent nodeIndex address tag = Inr t' \<Longrightarrow> sized L M t \<Longrightarrow>
   sized (Suc (Suc L)) (Suc M) t'"
proof (induction t parent nodeIndex address tag rule: add_loop.induct)
  case (1 t parent nodeIndex address tag)
  let ?n = "nodes t ! nodeIndex"
  let ?m = "MatchCount ?n address"
  let ?a' = "ShiftLeft address ?m"
  note s = "1.prems"(2)
  have up1: "sized (Suc (Suc L)) (Suc M) u" if "sized (Suc L) (Suc M) u" for u
    using that by (rule sized_mono) simp_all
  have up0: "sized (Suc (Suc L)) (Suc M) u" if "sized L (Suc M) u" for u
    using that by (rule sized_mono) simp_all
  from "1.prems"(1) have c: "nodeIndex \<noteq> 0" "nodeIndex < length (nodes t)"
    "prefixLength ?n \<noteq> 0" "?m \<noteq> 0"
    by (subst (asm) add_loop.simps, simp split: if_splits)+
  consider (exact) "addTag t tag nodeIndex = Inr t'"
    | (parent) "insertParent t parent nodeIndex address tag ?m = Inr t'"
    | (leaf) onLeft where "addLeaf t nodeIndex onLeft ?a' tag = Inr t'"
    | (left) "?m \<noteq> Length address" "?m = prefixLength ?n" "Address ?a' < leftmost32Bit"
        "Left ?n \<noteq> 0" "add_loop t nodeIndex (Left ?n) ?a' tag = Inr t'"
    | (right) "?m \<noteq> Length address" "?m = prefixLength ?n" "\<not> Address ?a' < leftmost32Bit"
        "Right ?n \<noteq> 0" "add_loop t nodeIndex (Right ?n) ?a' tag = Inr t'"
    | (split) "splitNode t parent nodeIndex address tag ?m = Inr t'"
    using "1.prems"(1) c by (subst (asm) add_loop.simps) (auto split: if_splits)
  then show ?case
  proof cases
    case exact
    from up0 [OF sized_addTag [OF exact s]] show ?thesis .
  next
    case parent
    from up1 [OF sized_insertParent [OF parent s]] show ?thesis .
  next
    case leaf
    from up1 [OF sized_addLeaf [OF leaf s]] show ?thesis .
  next
    case left
    from "1.IH"(1) [OF c(1) _ c(3,4) left(1,2,3,4,5) s] c(2) show ?thesis by simp
  next
    case right
    from "1.IH"(2) [OF c(1) _ c(3,4) right(1,2,3,4,5) s] c(2) show ?thesis by simp
  next
    case split
    from sized_splitNode [OF split s] show ?thesis .
  qed
qed

lemma sized_Add:
  assumes "Add t a tag = Inr t'" and "sized L M t"
  shows "sized (Suc (Suc L)) (Suc M) t'"
proof -
  have up1: "sized (Suc (Suc L)) (Suc M) u" if "sized (Suc L) (Suc M) u" for u
    using that by (rule sized_mono) simp_all
  have up0: "sized (Suc (Suc L)) (Suc M) u" if "sized L (Suc M) u" for u
    using that by (rule sized_mono) simp_all
  from assms(1) consider (root) "addTag t tag 1 = Inr t'"
    | (leaf) onLeft a' where "addLeaf t 1 onLeft a' tag = Inr t'"
    | (loop) c a' where "add_loop t 1 c a' tag = Inr t'"
    by (auto simp add: Add_def split: if_splits option.splits)
  then show ?thesis
  proof cases
    case root
    from up0 [OF sized_addTag [OF root assms(2)]] show ?thesis .
  next
    case leaf
    from up1 [OF sized_addLeaf [OF leaf assms(2)]] show ?thesis .
  next
    case loop
    from sized_add_loop [OF loop assms(2)] show ?thesis .
  qed
qed

lemma room_Add:
  assumes "room (Suc k) t" and "Add t a tag = Inr t'"
  shows "room k t'"
proof -
  define N :: nat where "N = 2 ^ 32"
  from assms(1) have l: "length (nodes t) + 2 * Suc k \<le> N"
    and c: "\<forall>x\<in>set (nodes t). TagCount x + Suc k \<le> N"
    by (simp_all add: room_def N_def)
  then have "sized (N - 2 * Suc k) (N - Suc k) t" by (fastforce simp add: sized_def)
  from sized_Add [OF assms(2) this]
  have l': "length (nodes t') \<le> Suc (Suc (N - 2 * Suc k))"
    and c': "\<forall>x\<in>set (nodes t'). TagCount x \<le> Suc (N - Suc k)"
    by (simp_all add: sized_def)
  from l have "2 * Suc k \<le> N" by simp
  with l' have "length (nodes t') + 2 * k \<le> N" by simp
  moreover have "TagCount x + k \<le> N" if "x \<in> set (nodes t')" for x
  proof -
    from c' that have "TagCount x \<le> Suc (N - Suc k)" by simp
    moreover from l have "Suc k \<le> N" by simp
    ultimately show ?thesis by simp
  qed
  ultimately show ?thesis by (simp add: room_def N_def)
qed

lemma room_small: "room 0 t \<Longrightarrow> small t"
  by (simp add: room_def small_def)

lemma room_mono: "room k t \<Longrightarrow> j \<le> k \<Longrightarrow> room j t"
  by (fastforce simp add: room_def)

lemma run_tree_inv: "run ops newTree = Some (Inr t) \<Longrightarrow> tree_inv t"
  using run_inv [OF tree_inv_newTree, of ops] by auto

text \<open>
  C5 as stated fails where the tag is already among the tags that \<open>FindTags\<close> returns for
  the address. After \<open>Add(10.0.0.0/8, 1)\<close> on a new tree, \<open>FindTags(10.0.0.0/8)\<close> is \<open>[1]\<close>;
  performing \<open>Add(10.0.0.0/8, 1)\<close> twice in that state yields \<open>[1, 1, 1]\<close>: three
  occurrences of the tag, not exactly two.
\<close>

theorem Add_twice_three_occurrences:
  "run [AddOp (Some \<lparr>Address = 0x0A000000, Length = 8\<rparr>) 1] newTree = Some (Inr tree_one_prefix)
   \<and> FindTags tree_one_prefix (Some \<lparr>Address = 0x0A000000, Length = 8\<rparr>) = Some (Inr [1])
   \<and> run [AddOp (Some \<lparr>Address = 0x0A000000, Length = 8\<rparr>) 1,
           AddOp (Some \<lparr>Address = 0x0A000000, Length = 8\<rparr>) 1] tree_one_prefix
       = Some (Inr tree_one_prefix_thrice)
   \<and> FindTags tree_one_prefix_thrice (Some \<lparr>Address = 0x0A000000, Length = 8\<rparr>)
       = Some (Inr [1, 1, 1])"
  by (simp add: eval_defs tree_one_prefix_thrice_def numeral_3_eq_3)

text \<open>
  C5, amended: the tags found before stay, and each \<open>Add\<close> puts the tag once behind them.
  For every tree that a sequence of \<open>Add\<close> and \<open>Delete\<close> calls makes of a new tree, and
  that leaves room for two more calls of \<open>Add\<close> below the \<open>2^32\<close> node indexes and slots of
  the tag keys (four more nodes, two more tags on every node), for every address (nil
  included) and tag: \<open>FindTags\<close> returns, \<open>Add\<close> returns, \<open>FindTags\<close> for the same address
  then returns the tags it returned before followed by the new tag (so it includes the tag),
  and after a second \<open>Add\<close> of the same address and tag it returns the tags it returned
  before followed by the tag twice: two more occurrences of the tag than before, exactly two
  where the tag was not among the tags found before.
\<close>

theorem FindTags_after_Add:
  assumes "run ops newTree = Some (Inr t)" and "room 2 t"
  shows "\<exists>xs t1 t2. FindTags t a = Some (Inr xs)
           \<and> Add t a tag = Inr t1 \<and> FindTags t1 a = Some (Inr (xs @ [tag]))
           \<and> Add t1 a tag = Inr t2 \<and> FindTags t2 a = Some (Inr (xs @ [tag, tag]))"
proof -
  have inv: "tree_inv t" using assms(1) by (rule run_tree_inv)
  from Add_preserves_inv [OF inv, of a tag] obtain t1 where
    a1: "Add t a tag = Inr t1" and inv1: "tree_inv t1" by blast
  from Add_preserves_inv [OF inv1, of a tag] obtain t2 where
    a2: "Add t1 a tag = Inr t2" and inv2: "tree_inv t2" by blast
  from assms(2) have "room (Suc (Suc 0)) t" by (simp add: numeral_2_eq_2)
  from room_Add [OF this a1] have r1: "room (Suc 0) t1" .
  from room_Add [OF r1 a2] have r2: "room 0 t2" .
  have s1: "small t1" by (rule room_small [OF room_mono [OF r1]]) simp
  have s2: "small t2" by (rule room_small [OF r2])
  from Add_find [OF inv a1 s1] obtain xs where
    f0: "FindTags t a = Some (Inr xs)" and f1: "FindTags t1 a = Some (Inr (xs @ [tag]))"
    by blast
  from Add_find [OF inv1 a2 s2] f1 have f2: "FindTags t2 a = Some (Inr (xs @ [tag, tag]))"
    by auto
  from f0 a1 f1 a2 f2 show ?thesis by blast
qed

theorem FindTags_after_Add_witness:
  "run [AddOp (Some \<lparr>Address = 0x0A000000, Length = 8\<rparr>) 1] newTree = Some (Inr tree_one_prefix)
   \<and> room 2 tree_one_prefix
   \<and> FindTags tree_one_prefix (Some \<lparr>Address = 0x0A000000, Length = 8\<rparr>) = Some (Inr [1])
   \<and> (\<exists>t1 t2. Add tree_one_prefix (Some \<lparr>Address = 0x0A000000, Length = 8\<rparr>) 9 = Inr t1
         \<and> FindTags t1 (Some \<lparr>Address = 0x0A000000, Length = 8\<rparr>) = Some (Inr [1, 9])
         \<and> Add t1 (Some \<lparr>Address = 0x0A000000, Length = 8\<rparr>) 9 = Inr t2
         \<and> FindTags t2 (Some \<lparr>Address = 0x0A000000, Length = 8\<rparr>) = Some (Inr [1, 9, 9]))"
proof -
  let ?a = "Some \<lparr>Address = 0x0A000000, Length = 8\<rparr>"
  have reached: "run [AddOp ?a 1] newTree = Some (Inr tree_one_prefix)"
    by (simp add: eval_defs)
  have room: "room 2 tree_one_prefix"
    by (simp add: room_def tree_one_prefix_def mkNode_def)
  have before: "FindTags tree_one_prefix ?a = Some (Inr [1])"
    by (simp add: eval_defs)
  from FindTags_after_Add [OF reached room, of ?a 9] before reached room
  show ?thesis by auto
qed

end
